(* ===== verification/Prelude.thy ===== *)
theory Prelude
  imports Main "HOL-Library.Word"
begin

text \<open>
  Shared vocabulary of the miniMuduo development: the failures a C++ execution can end in, the
  result type of fallible code, \<open>size_t\<close> arithmetic with its wrap-around, the few functions of the
  C and C++ libraries the sources use (\<open>std::search\<close>, \<open>std::find\<close>, \<open>snprintf\<close>, decimal printing),
  runs of a step function, and a locale for invariants of runs.
\<close>

named_theorems res_simps \<open>rewriting of the result type\<close>

named_theorems sz_simps \<open>size_t arithmetic inside its range\<close>

section \<open>Failures and results\<close>

text \<open>
  The build (\<^verbatim>\<open>src/CMakeLists.txt\<close>) does not define \<^verbatim>\<open>NDEBUG\<close>, so a failed \<^verbatim>\<open>assert\<close> aborts the process, as
  \<^verbatim>\<open>LOG(FATAL)\<close> does. Memory accesses outside an object are \<open>UndefinedBehaviour\<close>.
\<close>

datatype failure =
    AssertFail string
  | LogFatal string
  | StdException string
  | UndefinedBehaviour string

type_synonym 'a res = "failure + 'a"

definition rbind :: "'a res \<Rightarrow> ('a \<Rightarrow> 'b res) \<Rightarrow> 'b res" where
  "rbind m f = (case m of Inl e \<Rightarrow> Inl e | Inr x \<Rightarrow> f x)"

definition guard :: "bool \<Rightarrow> failure \<Rightarrow> 'a res \<Rightarrow> 'a res" where
  "guard b e k = (if b then k else Inl e)"

definition ok :: "'a res \<Rightarrow> bool" where
  "ok m = (case m of Inl _ \<Rightarrow> False | Inr _ \<Rightarrow> True)"

text \<open>\<^verbatim>\<open>EventLoop::assertInLoopThread\<close>, the first line of most operations: outside the loop's thread the process is aborted.\<close>

abbreviation assertInLoopThread :: "bool \<Rightarrow> 'a res \<Rightarrow> 'a res" where
  "assertInLoopThread inLoopThread k \<equiv> guard inLoopThread (LogFatal ''abortNotInLoopThread'') k"

lemma rbind_Inr [simp, res_simps]: "rbind (Inr x) f = f x"
  by (simp add: rbind_def)

lemma rbind_Inl [simp, res_simps]: "rbind (Inl e) f = Inl e"
  by (simp add: rbind_def)

lemma guard_True [simp, res_simps]: "guard True e k = k"
  by (simp add: guard_def)

lemma guard_False [simp, res_simps]: "guard False e k = Inl e"
  by (simp add: guard_def)

lemma rbind_assoc [res_simps]: "rbind (rbind m f) g = rbind m (\<lambda>x. rbind (f x) g)"
  by (cases m) simp_all

lemma rbind_return [simp, res_simps]: "rbind m Inr = m"
  by (cases m) simp_all

lemma rbind_eq_Inr_iff: "rbind m f = Inr y \<longleftrightarrow> (\<exists>x. m = Inr x \<and> f x = Inr y)"
  by (cases m) auto

lemma guard_eq_Inr_iff: "guard b e k = Inr y \<longleftrightarrow> b \<and> k = Inr y"
  by (simp add: guard_def)

lemmas res_Inr_iffs = rbind_eq_Inr_iff guard_eq_Inr_iff

lemma ok_simps [simp, res_simps]: "ok (Inr x)" "\<not> ok (Inl e)"
  by (simp_all add: ok_def)

lemma ok_iff: "ok m \<longleftrightarrow> (\<exists>x. m = Inr x)"
  by (cases m) auto

section \<open>size\_t\<close>

text \<open>
  \<^verbatim>\<open>size_t\<close> is a 64-bit unsigned integer; sums and differences wrap around. The model keeps the
  values in \<open>nat\<close> and writes the wrap-around out.
\<close>

type_synonym size_t = nat

abbreviation two64 :: nat where "two64 \<equiv> 18446744073709551616"

definition sz_add :: "size_t \<Rightarrow> size_t \<Rightarrow> size_t" where
  "sz_add a b = (a + b) mod two64"

definition sz_sub :: "size_t \<Rightarrow> size_t \<Rightarrow> size_t" where
  "sz_sub a b = (a + (two64 - b)) mod two64"

lemma sz_add_exact [sz_simps]: "a + b < two64 \<Longrightarrow> sz_add a b = a + b"
  by (simp add: sz_add_def)

lemma sz_sub_exact [sz_simps]:
  assumes "b \<le> a" and "a < two64"
  shows "sz_sub a b = a - b"
proof -
  from assms have "a + (two64 - b) = (a - b) + two64" by simp
  then have "sz_sub a b = (a - b) mod two64"
    unfolding sz_sub_def by (simp only: mod_add_self2)
  with assms show ?thesis by simp
qed

lemma sz_sub_zero [simp]: "a < two64 \<Longrightarrow> sz_sub a a = 0"
  by (simp add: sz_sub_exact)

text \<open>
  \<^verbatim>\<open>std::chrono::system_clock::time_point\<close>: nanoseconds since the epoch; \<^verbatim>\<open>time_point{}\<close> is 0.
\<close>

type_synonym time_point = int

section \<open>Runs of a fallible step function\<close>

fun run_steps :: "('s \<Rightarrow> 'e \<Rightarrow> 's res) \<Rightarrow> 's \<Rightarrow> 'e list \<Rightarrow> 's res" where
  "run_steps step s [] = Inr s"
| "run_steps step s (e # es) = rbind (step s e) (\<lambda>s'. run_steps step s' es)"

text \<open>A function without arguments, called \<open>n\<close> times.\<close>

fun repeat_calls :: "nat \<Rightarrow> ('s \<Rightarrow> 's res) \<Rightarrow> 's \<Rightarrow> 's res" where
  "repeat_calls 0 f s = Inr s"
| "repeat_calls (Suc n) f s = rbind (f s) (repeat_calls n f)"

lemma run_steps_append:
  "run_steps step s (es @ fs) = rbind (run_steps step s es) (\<lambda>t. run_steps step t fs)"
proof (induction es arbitrary: s)
  case (Cons e es)
  then show ?case by (cases "step s e") simp_all
qed simp

text \<open>
  A run in which every step is enabled in the state it starts from. A step that fails ends the run, which is enabled
  all the same: that no enabled run fails is what the theorems show.
\<close>

fun enabled_run :: "('s \<Rightarrow> 'e \<Rightarrow> 's res) \<Rightarrow> ('s \<Rightarrow> 'e \<Rightarrow> bool) \<Rightarrow> 's \<Rightarrow> 'e list \<Rightarrow> bool" where
  "enabled_run step enabled s [] = True"
| "enabled_run step enabled s (e # es) =
    (enabled s e \<and> (case step s e of Inl _ \<Rightarrow> True | Inr s' \<Rightarrow> enabled_run step enabled s' es))"

text \<open>
  The contract of a stateful component: an invariant, an enabling condition under which a step
  cannot fail, and an invariant every successful enabled step keeps. Whole runs follow.
\<close>

locale safe_steps =
  fixes step :: "'s \<Rightarrow> 'e \<Rightarrow> 's res"
    and inv :: "'s \<Rightarrow> bool"
    and enabled :: "'s \<Rightarrow> 'e \<Rightarrow> bool"
  assumes step_safe: "inv s \<Longrightarrow> enabled s e \<Longrightarrow> \<exists>s'. step s e = Inr s' \<and> inv s'"
begin

lemma run_safe: "inv s \<Longrightarrow> enabled_run step enabled s es \<Longrightarrow> \<exists>s'. run_steps step s es = Inr s' \<and> inv s'"
proof (induction es arbitrary: s)
  case (Cons e es)
  from Cons.prems have "enabled s e" by simp
  with Cons.prems(1) obtain s' where s': "step s e = Inr s'" "inv s'"
    using step_safe by blast
  with Cons.prems have "enabled_run step enabled s' es" by simp
  with Cons.IH [OF s'(2)] s'(1) show ?case by simp
qed simp

lemma run_inv:
  assumes always: "\<And>s e. inv s \<Longrightarrow> enabled s e"
  shows "inv s \<Longrightarrow> \<exists>s'. run_steps step s es = Inr s' \<and> inv s'"
proof (induction es arbitrary: s)
  case (Cons e es)
  from step_safe [OF Cons.prems always [OF Cons.prems]] obtain s'
    where s': "step s e = Inr s'" "inv s'" by blast
  with Cons.IH [OF s'(2)] show ?case by simp
qed simp

end

text \<open>
  A component one of whose operations may be called only once: the runs in which it is, from a state in which it was not
  called yet.
\<close>

locale one_shot_steps =
  fixes step :: "'s \<Rightarrow> 'e \<Rightarrow> 's res"
    and inv :: "'s \<Rightarrow> bool"
    and allowed :: "'s \<Rightarrow> 'e \<Rightarrow> bool"
    and unused :: "'s \<Rightarrow> bool"
    and first :: "'e \<Rightarrow> bool"
  assumes later_safe: "inv s \<Longrightarrow> allowed s e \<Longrightarrow> \<not> first e \<Longrightarrow> \<exists>s'. step s e = Inr s' \<and> inv s'"
    and first_safe: "unused s \<Longrightarrow> allowed s e \<Longrightarrow> first e \<Longrightarrow> \<exists>s'. step s e = Inr s' \<and> inv s'"
    and before_safe: "unused s \<Longrightarrow> allowed s e \<Longrightarrow> \<not> first e \<Longrightarrow> \<exists>s'. step s e = Inr s' \<and> unused s'"
    and unused_inv: "unused s \<Longrightarrow> inv s"
begin

lemma run_later:
  "inv s \<Longrightarrow> enabled_run step allowed s es \<Longrightarrow> filter first es = [] \<Longrightarrow> \<exists>s'. run_steps step s es = Inr s' \<and> inv s'"
proof (induction es arbitrary: s)
  case (Cons e es)
  then have e: "allowed s e" "\<not> first e" "filter first es = []" by (simp_all split: if_splits)
  from later_safe [OF Cons.prems(1) e(1,2)] obtain s' where "step s e = Inr s'" "inv s'" by blast
  with Cons.IH [of s'] Cons.prems(2) e(3) show ?case by simp
qed simp

lemma run_once:
  "unused s \<Longrightarrow> enabled_run step allowed s es \<Longrightarrow> length (filter first es) \<le> 1 \<Longrightarrow>
   \<exists>s'. run_steps step s es = Inr s' \<and> inv s'"
proof (induction es arbitrary: s)
  case Nil
  then show ?case using unused_inv by simp
next
  case (Cons e es)
  then have e: "allowed s e" by simp
  show ?case
  proof (cases "first e")
    case True
    from first_safe [OF Cons.prems(1) e True] obtain s' where "step s e = Inr s'" "inv s'" by blast
    with run_later [of s' es] Cons.prems(2,3) True show ?thesis by simp
  next
    case False
    from before_safe [OF Cons.prems(1) e False] obtain s' where "step s e = Inr s'" "unused s'" by blast
    with Cons.IH [of s'] Cons.prems(2,3) False show ?thesis by simp
  qed
qed

end

text \<open>
  The contract of an implementation: \<open>astep\<close> is the specification, \<open>None\<close> where it makes no promise;
  every promised step is made by the implementation and commutes with the abstraction.
\<close>

fun run_spec :: "('a \<Rightarrow> 'e \<Rightarrow> 'a option) \<Rightarrow> 'a \<Rightarrow> 'e list \<Rightarrow> 'a option" where
  "run_spec astep a [] = Some a"
| "run_spec astep a (e # es) = Option.bind (astep a e) (\<lambda>a'. run_spec astep a' es)"

locale forward_simulation =
  fixes step :: "'s \<Rightarrow> 'e \<Rightarrow> 's res"
    and astep :: "'a \<Rightarrow> 'e \<Rightarrow> 'a option"
    and inv :: "'s \<Rightarrow> bool"
    and abs :: "'s \<Rightarrow> 'a"
  assumes sim: "inv s \<Longrightarrow> astep (abs s) e = Some a' \<Longrightarrow> \<exists>s'. step s e = Inr s' \<and> inv s' \<and> abs s' = a'"
begin

lemma run_sim:
  "inv s \<Longrightarrow> run_spec astep (abs s) es = Some a' \<Longrightarrow>
   \<exists>s'. run_steps step s es = Inr s' \<and> inv s' \<and> abs s' = a'"
proof (induction es arbitrary: s)
  case (Cons e es)
  from Cons.prems(2) obtain a1 where a1: "astep (abs s) e = Some a1" "run_spec astep a1 es = Some a'"
    by (auto simp: bind_eq_Some_conv)
  from sim [OF Cons.prems(1) a1(1)] obtain s1 where
    s1: "step s e = Inr s1" "inv s1" "abs s1 = a1" by blast
  from Cons.IH [OF s1(2)] a1(2) s1 show ?case by simp
qed simp

end

section \<open>Searching, as std::find and std::search do\<close>

text \<open>
  Both return the end of the range when there is no match; positions are indices from the start
  of the range, so "not found" is the length.
\<close>

fun std_find :: "'a \<Rightarrow> 'a list \<Rightarrow> nat" where
  "std_find c [] = 0"
| "std_find c (x # xs) = (if x = c then 0 else Suc (std_find c xs))"

lemma std_find_le [simp]: "std_find c xs \<le> length xs"
  by (induction xs) auto

lemma std_find_length_iff: "std_find c xs = length xs \<longleftrightarrow> c \<notin> set xs"
  by (induction xs) auto

lemma std_find_append_notin: "c \<notin> set xs \<Longrightarrow> std_find c (xs @ c # ys) = length xs"
  by (induction xs) auto

lemma take_std_find: "take (std_find c xs) xs = takeWhile (\<lambda>x. x \<noteq> c) xs"
  by (induction xs) auto

lemma dropWhile_std_find: "dropWhile (\<lambda>x. x \<noteq> c) xs = drop (std_find c xs) xs"
  by (induction xs) auto

lemma nth_std_find: "std_find c xs < length xs \<Longrightarrow> xs ! std_find c xs = c"
  by (induction xs) auto

fun is_prefix :: "'a list \<Rightarrow> 'a list \<Rightarrow> bool" where
  "is_prefix [] ys = True"
| "is_prefix (x # xs) [] = False"
| "is_prefix (x # xs) (y # ys) = (x = y \<and> is_prefix xs ys)"

lemma is_prefix_iff: "is_prefix xs ys \<longleftrightarrow> (\<exists>zs. ys = xs @ zs)"
  by (induction xs ys rule: is_prefix.induct) auto

lemma is_prefix_shorten:
  "is_prefix xs (us @ vs) \<Longrightarrow> length xs \<le> length us \<Longrightarrow> is_prefix xs us"
  by (induction xs us rule: is_prefix.induct) auto

fun std_search :: "'a list \<Rightarrow> 'a list \<Rightarrow> nat" where
  "std_search pat [] = 0"
| "std_search pat (x # xs) =
    (if is_prefix pat (x # xs) then 0 else Suc (std_search pat xs))"

lemma std_search_le [simp]: "std_search pat xs \<le> length xs"
  by (induction xs) auto

lemma std_search_found:
  assumes "pat \<noteq> []" and "std_search pat xs < length xs"
  shows "is_prefix pat (drop (std_search pat xs) xs)"
  using assms(2) by (induction xs) (auto split: if_splits)

lemma std_search_first:
  "i < std_search pat xs \<Longrightarrow> \<not> is_prefix pat (drop i xs)"
proof (induction xs arbitrary: i)
  case (Cons x xs)
  then show ?case by (cases i) (auto split: if_splits)
qed simp

lemma std_search_none:
  assumes "pat \<noteq> []" and "std_search pat xs = length xs"
  shows "\<not> is_prefix pat (drop i xs)"
proof (cases "i < length xs")
  case True
  with assms(2) show ?thesis using std_search_first [of i pat xs] by simp
next
  case False
  with assms(1) show ?thesis by (cases pat) auto
qed

lemma std_search_eqI:
  assumes "pat \<noteq> []" and "i < length xs" and "is_prefix pat (drop i xs)"
    and "\<And>j. j < i \<Longrightarrow> \<not> is_prefix pat (drop j xs)"
  shows "std_search pat xs = i"
proof (rule antisym)
  show "std_search pat xs \<le> i"
    using assms(3) std_search_first [of i pat xs] by (meson not_le)
  show "i \<le> std_search pat xs"
  proof (rule ccontr)
    assume "\<not> i \<le> std_search pat xs"
    then have "std_search pat xs < i" by simp
    moreover from this assms(2) have "std_search pat xs < length xs" by simp
    ultimately show False
      using assms(1,4) std_search_found by blast
  qed
qed

section \<open>Decimal printing and snprintf\<close>

definition digit_char :: "nat \<Rightarrow> char" where
  "digit_char d = char_of (48 + d)"

lemma digit_char_simps [simp]:
  "digit_char 0 = CHR ''0''" "digit_char (Suc 0) = CHR ''1''" "digit_char 2 = CHR ''2''"
  "digit_char 3 = CHR ''3''" "digit_char 4 = CHR ''4''" "digit_char 5 = CHR ''5''"
  "digit_char 6 = CHR ''6''" "digit_char 7 = CHR ''7''" "digit_char 8 = CHR ''8''"
  "digit_char 9 = CHR ''9''"
  by code_simp+

fun show_nat :: "nat \<Rightarrow> string" where
  "show_nat n = (if n < 10 then [digit_char n] else show_nat (n div 10) @ [digit_char (n mod 10)])"

declare show_nat.simps [simp del]

lemma show_nat_code [simp]:
  "n < 10 \<Longrightarrow> show_nat n = [digit_char n]"
  "10 \<le> n \<Longrightarrow> show_nat n = show_nat (n div 10) @ [digit_char (n mod 10)]"
  by (simp_all add: show_nat.simps [of n])

definition show_int :: "int \<Rightarrow> string" where
  "show_int i = (if i < 0 then CHR ''-'' # show_nat (nat (- i)) else show_nat (nat i))"

text \<open>\<^verbatim>\<open>snprintf(buf, size, ...)\<close> keeps at most \<^verbatim>\<open>size - 1\<close> characters and a terminating 0.\<close>

definition snprintf_out :: "nat \<Rightarrow> string \<Rightarrow> string" where
  "snprintf_out n s = take (n - 1) s"

lemma snprintf_out_fits: "length s < n \<Longrightarrow> snprintf_out n s = s"
  by (simp add: snprintf_out_def)

fun read_nat_from :: "nat \<Rightarrow> string \<Rightarrow> nat" where
  "read_nat_from acc [] = acc"
| "read_nat_from acc (c # cs) = read_nat_from (10 * acc + (of_char c - 48)) cs"

lemma read_nat_from_append:
  "read_nat_from acc (xs @ ys) = read_nat_from (read_nat_from acc xs) ys"
  by (induction xs arbitrary: acc) auto

lemma of_char_digit_char [simp]: "d < 10 \<Longrightarrow> (of_char (digit_char d) :: nat) = 48 + d"
  by (simp add: digit_char_def)

lemma read_show_nat: "read_nat_from 0 (show_nat n) = n"
proof (induction n rule: less_induct)
  case (less n)
  show ?case
  proof (cases "n < 10")
    case False
    then have "read_nat_from 0 (show_nat (n div 10)) = n div 10"
      by (intro less.IH) simp
    with False show ?thesis by (simp add: read_nat_from_append)
  qed simp
qed

lemma show_nat_inj: "show_nat m = show_nat n \<Longrightarrow> m = n"
  by (metis read_show_nat)

lemma length_show_nat_le: "n < 10 ^ Suc k \<Longrightarrow> length (show_nat n) \<le> Suc k"
proof (induction k arbitrary: n)
  case (Suc k)
  show ?case
  proof (cases "n < 10")
    case False
    have "n div 10 < 10 ^ Suc k"
      using Suc.prems by (simp add: less_mult_imp_div_less mult.commute)
    then have "length (show_nat (n div 10)) \<le> Suc k" by (rule Suc.IH)
    with False show ?thesis by simp
  qed simp
qed simp

lemma set_show_nat: "c \<in> set (show_nat n) \<Longrightarrow> 48 \<le> (of_char c :: nat) \<and> (of_char c :: nat) < 58"
proof (induction n rule: less_induct)
  case (less n)
  show ?case
  proof (cases "n < 10")
    case True
    with less.prems show ?thesis by simp
  next
    case False
    show ?thesis
    proof (cases "c \<in> set (show_nat (n div 10))")
      case True
      with False show ?thesis by (intro less.IH) auto
    next
      case notin: False
      with less.prems False have "c = digit_char (n mod 10)" by simp
      then show ?thesis by simp
    qed
  qed
qed

end
