(* ===== verification/Channel.thy ===== *)
theory Channel
  imports Prelude
begin

text \<open>
  The class \<open>Channel\<close> (\<^verbatim>\<open>src/src/Channel.hpp\<close>, \<^verbatim>\<open>src/src/Channel.cpp\<close>): the events a file descriptor is
  watched for, the events the last poll reported, and the dispatch of callbacks in \<^verbatim>\<open>handleEvent\<close>. A
  callback is a value of a type \<open>'cb\<close>; running it is a parameter of \<open>handleEvent\<close>, which works on any state
  \<open>'w\<close> that contains the channel.
\<close>

unbundle bit_operations_syntax

section \<open>Model\<close>

type_synonym flags = "32 word"

definition POLLIN :: flags where "POLLIN = 0x001"
definition POLLPRI :: flags where "POLLPRI = 0x002"
definition POLLOUT :: flags where "POLLOUT = 0x004"
definition POLLERR :: flags where "POLLERR = 0x008"
definition POLLHUP :: flags where "POLLHUP = 0x010"
definition POLLNVAL :: flags where "POLLNVAL = 0x020"
definition POLLRDHUP :: flags where "POLLRDHUP = 0x2000"

lemmas poll_flag_defs = POLLIN_def POLLPRI_def POLLOUT_def POLLERR_def POLLHUP_def POLLNVAL_def
  POLLRDHUP_def

definition kNoneEvent :: flags where "kNoneEvent = 0"
definition kReadEvent :: flags where "kReadEvent = POLLIN OR POLLPRI"
definition kWriteEvent :: flags where "kWriteEvent = POLLOUT"

record 'cb channel =
  ch_fd :: int
  ch_events :: flags
  ch_revents :: flags
  ch_index :: int
  ch_eventHandling :: bool
  ch_readCallback :: "'cb option"
  ch_writeCallback :: "'cb option"
  ch_errorCallback :: "'cb option"
  ch_closeCallback :: "'cb option"

definition new_Channel :: "int \<Rightarrow> 'cb channel" where
  "new_Channel fd = \<lparr>ch_fd = fd, ch_events = 0, ch_revents = 0, ch_index = -1, ch_eventHandling = False,
     ch_readCallback = None, ch_writeCallback = None, ch_errorCallback = None, ch_closeCallback = None\<rparr>"

definition setReadCallback :: "'cb \<Rightarrow> 'cb channel \<Rightarrow> 'cb channel" where
  "setReadCallback cb c = c\<lparr>ch_readCallback := Some cb\<rparr>"

definition setWriteCallback :: "'cb \<Rightarrow> 'cb channel \<Rightarrow> 'cb channel" where
  "setWriteCallback cb c = c\<lparr>ch_writeCallback := Some cb\<rparr>"

definition setErrorCallback :: "'cb \<Rightarrow> 'cb channel \<Rightarrow> 'cb channel" where
  "setErrorCallback cb c = c\<lparr>ch_errorCallback := Some cb\<rparr>"

definition setCloseCallback :: "'cb \<Rightarrow> 'cb channel \<Rightarrow> 'cb channel" where
  "setCloseCallback cb c = c\<lparr>ch_closeCallback := Some cb\<rparr>"

lemmas set_callback_defs = setReadCallback_def setWriteCallback_def setErrorCallback_def setCloseCallback_def

definition destroy_Channel :: "'cb channel \<Rightarrow> unit res" where
  "destroy_Channel c = guard (\<not> ch_eventHandling c) (AssertFail ''!eventHandling_'') (Inr ())"

definition isNoneEvent :: "'cb channel \<Rightarrow> bool" where
  "isNoneEvent c \<longleftrightarrow> ch_events c = kNoneEvent"

definition isWriting :: "'cb channel \<Rightarrow> bool" where
  "isWriting c \<longleftrightarrow> ch_events c AND kWriteEvent \<noteq> 0"

text \<open>The new value of \<^verbatim>\<open>events_\<close> in the four interest setters; each then calls \<^verbatim>\<open>update()\<close>.\<close>

definition ev_enableReading :: "flags \<Rightarrow> flags" where "ev_enableReading e = e OR kReadEvent"
definition ev_enableWriting :: "flags \<Rightarrow> flags" where "ev_enableWriting e = e OR kWriteEvent"
definition ev_disableWriting :: "flags \<Rightarrow> flags" where "ev_disableWriting e = e AND NOT kWriteEvent"
definition ev_disableAll :: "flags \<Rightarrow> flags" where "ev_disableAll e = kNoneEvent"

definition call_if :: "bool \<Rightarrow> ('cb \<Rightarrow> 'w \<Rightarrow> 'w res) \<Rightarrow> 'cb option \<Rightarrow> 'w \<Rightarrow> 'w res" where
  "call_if b run cb w = (if b then (case cb of Some f \<Rightarrow> run f w | None \<Rightarrow> Inr w) else Inr w)"

text \<open>
  \<^verbatim>\<open>Channel::handleEvent\<close>: \<open>get\<close> and \<open>put\<close> read and change the channel inside the state, \<open>run\<close> calls a
  callback and \<open>run_read\<close> a read callback with the receive time.
\<close>

definition handleEvent ::
  "('w \<Rightarrow> 'cb channel) \<Rightarrow> (('cb channel \<Rightarrow> 'cb channel) \<Rightarrow> 'w \<Rightarrow> 'w) \<Rightarrow>
   ('cb \<Rightarrow> 'w \<Rightarrow> 'w res) \<Rightarrow> ('cb \<Rightarrow> time_point \<Rightarrow> 'w \<Rightarrow> 'w res) \<Rightarrow> time_point \<Rightarrow> 'w \<Rightarrow> 'w res" where
  "handleEvent get put run run_read receiveTime w0 =
    (let w = put (\<lambda>c. c\<lparr>ch_eventHandling := True\<rparr>) w0 in
     rbind (call_if (ch_revents (get w) AND POLLHUP \<noteq> 0 \<and> ch_revents (get w) AND POLLIN = 0)
              run (ch_closeCallback (get w)) w) (\<lambda>w.
     rbind (call_if (ch_revents (get w) AND (POLLERR OR POLLNVAL) \<noteq> 0)
              run (ch_errorCallback (get w)) w) (\<lambda>w.
     rbind (call_if (ch_revents (get w) AND (POLLIN OR POLLPRI OR POLLRDHUP) \<noteq> 0)
              (\<lambda>f. run_read f receiveTime) (ch_readCallback (get w)) w) (\<lambda>w.
     rbind (call_if (ch_revents (get w) AND POLLOUT \<noteq> 0)
              run (ch_writeCallback (get w)) w) (\<lambda>w.
     Inr (put (\<lambda>c. c\<lparr>ch_eventHandling := False\<rparr>) w))))))"

section \<open>Interest flags\<close>

lemma isWriting_iff: "isWriting c \<longleftrightarrow> bit (ch_events c) 2"
  using and_exp_eq_0_iff_not_bit [of "ch_events c" 2]
  by (simp add: isWriting_def kWriteEvent_def POLLOUT_def)

text \<open>The only values \<^verbatim>\<open>events_\<close> takes: no interest, reading, writing, both.\<close>

definition valid_events :: "flags \<Rightarrow> bool" where
  "valid_events e \<longleftrightarrow> e = 0 \<or> e = 3 \<or> e = 4 \<or> e = 7"

lemmas ev_defs = ev_enableReading_def ev_enableWriting_def ev_disableWriting_def ev_disableAll_def
  kReadEvent_def kWriteEvent_def kNoneEvent_def poll_flag_defs

lemma valid_events_closed:
  assumes "valid_events e"
  shows "valid_events (ev_enableReading e)" "valid_events (ev_enableWriting e)"
    "valid_events (ev_disableWriting e)" "valid_events (ev_disableAll e)"
  using assms by (auto simp: valid_events_def ev_defs)

lemma valid_events_0 [simp]: "valid_events 0" "valid_events kNoneEvent"
  by (simp_all add: valid_events_def kNoneEvent_def)

lemma isWriting_set_events:
  "isWriting (c\<lparr>ch_events := ev_enableWriting e\<rparr>)"
  "\<not> isWriting (c\<lparr>ch_events := ev_disableWriting e\<rparr>)"
  "\<not> isWriting (c\<lparr>ch_events := ev_disableAll e\<rparr>)"
  "isWriting (c\<lparr>ch_events := ev_enableReading e\<rparr>) = isWriting (c\<lparr>ch_events := e\<rparr>)"
  by (simp_all add: isWriting_iff ev_defs bit_or_iff bit_and_iff bit_not_iff)

section \<open>Dispatch\<close>

text \<open>Which callbacks an event calls, in order: close, error, read, write.\<close>

datatype 'cb call = Call 'cb | CallRead 'cb

definition fired :: "'cb channel \<Rightarrow> 'cb call list" where
  "fired c =
    (let r = ch_revents c; add = (\<lambda>b k cb. if b then map k (case cb of None \<Rightarrow> [] | Some f \<Rightarrow> [f]) else []) in
     add (r AND POLLHUP \<noteq> 0 \<and> r AND POLLIN = 0) Call (ch_closeCallback c) @
     add (r AND (POLLERR OR POLLNVAL) \<noteq> 0) Call (ch_errorCallback c) @
     add (r AND (POLLIN OR POLLPRI OR POLLRDHUP) \<noteq> 0) CallRead (ch_readCallback c) @
     add (r AND POLLOUT \<noteq> 0) Call (ch_writeCallback c))"

fun run_calls :: "('cb \<Rightarrow> 'w \<Rightarrow> 'w res) \<Rightarrow> ('cb \<Rightarrow> time_point \<Rightarrow> 'w \<Rightarrow> 'w res) \<Rightarrow> time_point \<Rightarrow>
    'cb call list \<Rightarrow> 'w \<Rightarrow> 'w res" where
  "run_calls run run_read t [] w = Inr w"
| "run_calls run run_read t (Call f # cs) w = rbind (run f w) (run_calls run run_read t cs)"
| "run_calls run run_read t (CallRead f # cs) w = rbind (run_read f t w) (run_calls run run_read t cs)"

lemma run_calls_append:
  "run_calls run rr t (xs @ ys) w = rbind (run_calls run rr t xs w) (run_calls run rr t ys)"
proof (induction xs arbitrary: w)
  case (Cons x xs)
  have "run_calls run rr t (xs @ ys) = (\<lambda>w. rbind (run_calls run rr t xs w) (run_calls run rr t ys))"
    by (rule ext) (rule Cons.IH)
  then show ?case by (cases x) (simp_all add: rbind_assoc)
qed simp

text \<open>
  The contract between \<open>handleEvent\<close> and its surroundings: \<open>get\<close> sees what \<open>put\<close> stores, and callbacks
  change neither the reported events nor which callbacks are set.
\<close>

definition same_hooks :: "'cb channel \<Rightarrow> 'cb channel \<Rightarrow> bool" where
  "same_hooks c d \<longleftrightarrow> ch_revents c = ch_revents d \<and> ch_readCallback c = ch_readCallback d \<and>
     ch_writeCallback c = ch_writeCallback d \<and> ch_errorCallback c = ch_errorCallback d \<and>
     ch_closeCallback c = ch_closeCallback d"

locale channel_world =
  fixes get :: "'w \<Rightarrow> 'cb channel"
    and put :: "('cb channel \<Rightarrow> 'cb channel) \<Rightarrow> 'w \<Rightarrow> 'w"
    and run :: "'cb \<Rightarrow> 'w \<Rightarrow> 'w res"
    and run_read :: "'cb \<Rightarrow> time_point \<Rightarrow> 'w \<Rightarrow> 'w res"
    and winv :: "'w \<Rightarrow> bool"
  assumes get_put: "winv w \<Longrightarrow> get (put f w) = f (get w)"
    and put_inv: "winv w \<Longrightarrow> winv (put (\<lambda>c. c\<lparr>ch_eventHandling := b\<rparr>) w)"
    and run_hooks: "winv w \<Longrightarrow> run cb w = Inr w' \<Longrightarrow> winv w' \<and> same_hooks (get w') (get w)"
    and read_hooks: "winv w \<Longrightarrow> run_read cb t w = Inr w' \<Longrightarrow> winv w' \<and> same_hooks (get w') (get w)"
begin

lemma call_if_hooks:
  assumes "call_if b g cb w = Inr w'" and "winv w"
    and "\<And>f w'. g f w = Inr w' \<Longrightarrow> winv w' \<and> same_hooks (get w') (get w)"
  shows "winv w' \<and> same_hooks (get w') (get w)"
  using assms by (auto simp: call_if_def same_hooks_def split: if_splits option.splits)

lemma call_if_cong:
  assumes v: "winv v" "same_hooks (get v) c"
    and g: "\<And>f u. g f v = Inr u \<Longrightarrow> winv u \<and> same_hooks (get u) (get v)"
    and k: "\<And>u. winv u \<Longrightarrow> same_hooks (get u) c \<Longrightarrow> k u = k' u"
  shows "rbind (call_if b g cb v) k = rbind (call_if b g cb v) k'"
proof (cases "call_if b g cb v")
  case (Inr u)
  have "winv u \<and> same_hooks (get u) (get v)" by (rule call_if_hooks [OF Inr v(1)]) (rule g)
  with v(2) k Inr show ?thesis by (auto simp: same_hooks_def)
qed simp

lemmas run_cong = call_if_cong [where g = run, OF _ _ run_hooks]
lemmas read_cong = call_if_cong [where g = "\<lambda>f. run_read f t" for t, OF _ _ read_hooks]

lemma handleEvent_fired:
  assumes w: "winv w"
  shows "handleEvent get put run run_read t w =
    rbind (run_calls run run_read t (fired (get w)) (put (\<lambda>c. c\<lparr>ch_eventHandling := True\<rparr>) w)) (\<lambda>w'.
    Inr (put (\<lambda>c. c\<lparr>ch_eventHandling := False\<rparr>) w'))"
proof -
  let ?w = "put (\<lambda>c. c\<lparr>ch_eventHandling := True\<rparr>) w"
  have w0: "winv ?w" "same_hooks (get ?w) (get w)"
    using get_put [OF w] put_inv [OF w] by (simp_all add: same_hooks_def)
  have calls: "run_calls run run_read t (if b then map Call (case cb of None \<Rightarrow> [] | Some f \<Rightarrow> [f]) else []) v =
      call_if b run cb v"
    "run_calls run run_read t (if b then map CallRead (case cb of None \<Rightarrow> [] | Some f \<Rightarrow> [f]) else []) v =
      call_if b (\<lambda>f. run_read f t) cb v" for b cb v
    by (auto simp: call_if_def rbind_def split: option.splits sum.splits)
  have hooks: "ch_revents (get v) = ch_revents (get w)" "ch_errorCallback (get v) = ch_errorCallback (get w)"
    "ch_readCallback (get v) = ch_readCallback (get w)" "ch_writeCallback (get v) = ch_writeCallback (get w)"
    "ch_closeCallback (get v) = ch_closeCallback (get w)"
    if "same_hooks (get v) (get w)" for v
    using that by (simp_all add: same_hooks_def)
  show ?thesis
    unfolding handleEvent_def fired_def Let_def run_calls_append calls rbind_assoc hooks [OF w0(2)]
    apply (rule run_cong [OF w0 w0(1)], assumption)
    subgoal for u1
      apply (simp only: hooks)
      apply (rule run_cong, assumption+)
      subgoal for u2
        apply (simp only: hooks)
        apply (rule read_cong, assumption+)
        apply (simp only: hooks)
        done
      done
    done
qed

end

end
