(* ===== verification/Pollers.thy ===== *)
theory Pollers
  imports Channel
begin

text \<open>
  The two pollers: \<open>EPoller\<close> (\<^verbatim>\<open>src/src/EPoller.hpp\<close>, \<^verbatim>\<open>EPoller.cpp\<close>), which the event loop uses, and
  \<open>Poller\<close> (\<^verbatim>\<open>src/src/Poller.hpp\<close>, \<^verbatim>\<open>Poller.cpp\<close>). Channels are objects on a heap indexed by their address.
  The interest list \<open>epoll_ctl\<close> maintains is part of the state, and \<open>ep_refuses\<close> says which calls the
  kernel refuses for other reasons (\<^verbatim>\<open>EBADF\<close>, \<^verbatim>\<open>ENOMEM\<close>, \<^verbatim>\<open>ENOSPC\<close>). What clients rely on is the locale
  \<open>poller_contract\<close>, which both pollers implement; they differ in when interest may be set again.
\<close>

section \<open>EPoller\<close>

datatype epoll_op = EPOLL_CTL_ADD | EPOLL_CTL_MOD | EPOLL_CTL_DEL

definition kNew :: int where "kNew = -1"
definition kAdded :: int where "kAdded = 1"
definition kDeleted :: int where "kDeleted = 2"

definition kInitEventListSize :: nat where "kInitEventListSize = 16"

record 'cb epoller =
  ep_heap :: "nat \<Rightarrow> 'cb channel option"
  ep_channels :: "int \<Rightarrow> nat option"
  ep_interest :: "int \<Rightarrow> (flags \<times> nat) option"
  ep_events_size :: nat
  ep_refuses :: "epoll_op \<Rightarrow> int \<Rightarrow> bool"

definition new_EPoller :: "(nat \<Rightarrow> 'cb channel option) \<Rightarrow> int \<Rightarrow> (epoll_op \<Rightarrow> int \<Rightarrow> bool) \<Rightarrow> 'cb epoller res" where
  "new_EPoller heap epollfd refuses =
    guard (0 \<le> epollfd) (LogFatal ''EPoller::EPoller'')
      (Inr \<lparr>ep_heap = heap, ep_channels = Map.empty, ep_interest = Map.empty,
        ep_events_size = kInitEventListSize, ep_refuses = refuses\<rparr>)"

definition ep_chan :: "'cb epoller \<Rightarrow> nat \<Rightarrow> 'cb channel res" where
  "ep_chan w p = (case ep_heap w p of
     None \<Rightarrow> Inl (UndefinedBehaviour ''no channel at this address'') | Some c \<Rightarrow> Inr c)"

definition ep_put :: "nat \<Rightarrow> 'cb channel \<Rightarrow> 'cb epoller \<Rightarrow> 'cb epoller" where
  "ep_put p c w = w\<lparr>ep_heap := (ep_heap w)(p \<mapsto> c)\<rparr>"

text \<open>\<^verbatim>\<open>epoll_ctl(2)\<close>: \<open>None\<close> is an error return.\<close>

definition epoll_ctl :: "'cb epoller \<Rightarrow> epoll_op \<Rightarrow> int \<Rightarrow> flags \<times> nat \<Rightarrow> 'cb epoller option" where
  "epoll_ctl w op fd event =
    (if ep_refuses w op fd then None
     else case op of
       EPOLL_CTL_ADD \<Rightarrow> if ep_interest w fd = None
         then Some (w\<lparr>ep_interest := (ep_interest w)(fd \<mapsto> event)\<rparr>) else None
     | EPOLL_CTL_MOD \<Rightarrow> if ep_interest w fd \<noteq> None
         then Some (w\<lparr>ep_interest := (ep_interest w)(fd \<mapsto> event)\<rparr>) else None
     | EPOLL_CTL_DEL \<Rightarrow> if ep_interest w fd \<noteq> None
         then Some (w\<lparr>ep_interest := (ep_interest w)(fd := None)\<rparr>) else None)"

definition ep_update :: "epoll_op \<Rightarrow> nat \<Rightarrow> 'cb epoller \<Rightarrow> 'cb epoller res" where
  "ep_update op p w =
    rbind (ep_chan w p) (\<lambda>c.
    case epoll_ctl w op (ch_fd c) (ch_events c, p) of
      Some w' \<Rightarrow> Inr w'
    | None \<Rightarrow> if op = EPOLL_CTL_DEL then Inr w else Inl (LogFatal ''epoll_ctl''))"

definition ep_updateChannel :: "bool \<Rightarrow> nat \<Rightarrow> 'cb epoller \<Rightarrow> 'cb epoller res" where
  "ep_updateChannel in_loop p w =
    assertInLoopThread in_loop
   (rbind (ep_chan w p) (\<lambda>c.
    let index = ch_index c; fd = ch_fd c in
    if index = kNew \<or> index = kDeleted then
      rbind (if index = kNew then
               guard (ep_channels w fd = None) (AssertFail ''channels_.find(fd) == channels_.end()'')
                 (Inr (w\<lparr>ep_channels := (ep_channels w)(fd \<mapsto> p)\<rparr>))
             else
               guard (ep_channels w fd \<noteq> None) (AssertFail ''channels_.find(fd) != channels_.end()'')
              (guard (ep_channels w fd = Some p) (AssertFail ''channels_[fd] == channel'') (Inr w))) (\<lambda>w.
      ep_update EPOLL_CTL_ADD p (ep_put p (c\<lparr>ch_index := kAdded\<rparr>) w))
    else
      guard (ep_channels w fd \<noteq> None) (AssertFail ''channels_.find(fd) != channels_.end()'')
     (guard (ep_channels w fd = Some p) (AssertFail ''channels_[fd] == channel'')
     (guard (index = kAdded) (AssertFail ''index == kAdded'')
     (if isNoneEvent c then
        rbind (ep_update EPOLL_CTL_DEL p w) (\<lambda>w. Inr (ep_put p (c\<lparr>ch_index := kDeleted\<rparr>) w))
      else ep_update EPOLL_CTL_MOD p w)))))"

definition ep_removeChannel :: "bool \<Rightarrow> nat \<Rightarrow> 'cb epoller \<Rightarrow> 'cb epoller res" where
  "ep_removeChannel in_loop p w =
    assertInLoopThread in_loop
   (rbind (ep_chan w p) (\<lambda>c.
    let fd = ch_fd c; index = ch_index c in
    guard (ep_channels w fd \<noteq> None) (AssertFail ''channels_.find(fd) != channels_.end()'')
   (guard (ep_channels w fd = Some p) (AssertFail ''channels_[fd] == channel'')
   (guard (isNoneEvent c) (AssertFail ''channel->isNoneEvent()'')
   (guard (index = kAdded \<or> index = kDeleted) (AssertFail ''index == kAdded || index == kDeleted'')
   (rbind (let w1 = w\<lparr>ep_channels := (ep_channels w)(fd := None)\<rparr> in
           if index = kAdded then ep_update EPOLL_CTL_DEL p w1 else Inr w1) (\<lambda>w.
    Inr (ep_put p (c\<lparr>ch_index := kNew\<rparr>) w))))))))"

text \<open>What \<^verbatim>\<open>epoll_wait(2)\<close> returns: an error, or the ready events with the registered pointers.\<close>

datatype wait_result = WaitErr | WaitOk "(flags \<times> nat) list"

fun ep_fill :: "(flags \<times> nat) list \<Rightarrow> nat list \<Rightarrow> 'cb epoller \<Rightarrow> (nat list \<times> 'cb epoller) res" where
  "ep_fill [] active w = Inr (active, w)"
| "ep_fill ((ev, p) # evs) active w =
    rbind (ep_chan w p) (\<lambda>c.
    guard (ep_channels w (ch_fd c) \<noteq> None) (AssertFail ''it != channels_.end()'')
   (guard (ep_channels w (ch_fd c) = Some p) (AssertFail ''it->second == channel'')
   (ep_fill evs (active @ [p]) (ep_put p (c\<lparr>ch_revents := ev\<rparr>) w))))"

definition ep_fillActiveChannels :: "(flags \<times> nat) list \<Rightarrow> nat list \<Rightarrow> 'cb epoller \<Rightarrow> (nat list \<times> 'cb epoller) res" where
  "ep_fillActiveChannels evs active w =
    guard (length evs \<le> ep_events_size w) (AssertFail ''numEvents <= events_.size()'') (ep_fill evs active w)"

definition ep_poll :: "wait_result \<Rightarrow> nat list \<Rightarrow> 'cb epoller \<Rightarrow> (nat list \<times> 'cb epoller) res" where
  "ep_poll r active w =
    (case r of
       WaitErr \<Rightarrow> Inr (active, w)
     | WaitOk evs \<Rightarrow>
         if 0 < length evs then
           rbind (ep_fillActiveChannels evs active w) (\<lambda>(active', w').
           Inr (active', if length evs = ep_events_size w'
                         then w'\<lparr>ep_events_size := ep_events_size w' * 2\<rparr> else w'))
         else Inr (active, w))"

section \<open>Poller\<close>

record pollfd =
  pfd_fd :: int
  pfd_events :: "16 word"
  pfd_revents :: "16 word"

record 'cb poller =
  pl_heap :: "nat \<Rightarrow> 'cb channel option"
  pl_channels :: "int \<Rightarrow> nat option"
  pl_pollfds :: "pollfd list"

definition new_Poller :: "(nat \<Rightarrow> 'cb channel option) \<Rightarrow> 'cb poller" where
  "new_Poller heap = \<lparr>pl_heap = heap, pl_channels = Map.empty, pl_pollfds = []\<rparr>"

definition pl_chan :: "'cb poller \<Rightarrow> nat \<Rightarrow> 'cb channel res" where
  "pl_chan w p = (case pl_heap w p of
     None \<Rightarrow> Inl (UndefinedBehaviour ''no channel at this address'') | Some c \<Rightarrow> Inr c)"

definition pl_put :: "nat \<Rightarrow> 'cb channel \<Rightarrow> 'cb poller \<Rightarrow> 'cb poller" where
  "pl_put p c w = w\<lparr>pl_heap := (pl_heap w)(p \<mapsto> c)\<rparr>"

text \<open>
  \<^verbatim>\<open>updateChannel\<close>: a slot is set to ignored by storing \<^verbatim>\<open>-fd-1\<close> in its descriptor; nothing stores \<^verbatim>\<open>fd\<close>
  back.
\<close>

definition pl_updateChannel :: "bool \<Rightarrow> nat \<Rightarrow> 'cb poller \<Rightarrow> 'cb poller res" where
  "pl_updateChannel in_loop p w =
    assertInLoopThread in_loop
   (rbind (pl_chan w p) (\<lambda>c.
    let fd = ch_fd c in
    if ch_index c < 0 then
      guard (pl_channels w fd = None) (AssertFail ''channels_.find(fd) == channels_.end()'')
       (let fds = pl_pollfds w @ [\<lparr>pfd_fd = fd, pfd_events = ucast (ch_events c), pfd_revents = 0\<rparr>];
            idx = int (length fds) - 1
        in Inr (pl_put p (c\<lparr>ch_index := idx\<rparr>)
             (w\<lparr>pl_pollfds := fds, pl_channels := (pl_channels w)(fd \<mapsto> p)\<rparr>)))
    else
      guard (pl_channels w fd \<noteq> None) (AssertFail ''channels_.find(fd) != channels_.end()'')
     (guard (pl_channels w fd = Some p) (AssertFail ''channels_[fd] == channel'')
     (let idx = nat (ch_index c) in
      guard (idx < length (pl_pollfds w)) (AssertFail ''0 <= idx && idx < pollfds_.size()'')
     (let pfd = pl_pollfds w ! idx in
      guard (pfd_fd pfd = fd \<or> pfd_fd pfd = - fd - 1) (AssertFail ''pfd.fd == fd || pfd.fd == -fd-1'')
     (let pfd1 = pfd\<lparr>pfd_events := ucast (ch_events c), pfd_revents := 0\<rparr>;
          pfd2 = (if isNoneEvent c then pfd1\<lparr>pfd_fd := - fd - 1\<rparr> else pfd1)
      in Inr (w\<lparr>pl_pollfds := (pl_pollfds w)[idx := pfd2]\<rparr>)))))))"

definition pl_removeChannel :: "bool \<Rightarrow> nat \<Rightarrow> 'cb poller \<Rightarrow> 'cb poller res" where
  "pl_removeChannel in_loop p w =
    assertInLoopThread in_loop
   (rbind (pl_chan w p) (\<lambda>c.
    let fd = ch_fd c in
    guard (pl_channels w fd \<noteq> None) (AssertFail ''channels_.find(fd) != channels_.end()'')
   (guard (pl_channels w fd = Some p) (AssertFail ''channels_[fd] == channel'')
   (guard (isNoneEvent c) (AssertFail ''channel->isNoneEvent()'')
   (guard (0 \<le> ch_index c \<and> nat (ch_index c) < length (pl_pollfds w)) (AssertFail ''0 <= idx && idx < pollfds_.size()'')
   (let idx = nat (ch_index c); fds = pl_pollfds w; pfd = fds ! idx in
    guard (pfd_fd pfd = - fd - 1 \<and> scast (pfd_events pfd) = ch_events c) (AssertFail ''pfd.fd == -fd-1 && pfd.events == events'')
   (let w1 = w\<lparr>pl_channels := (pl_channels w)(fd := None)\<rparr> in
    if idx = length fds - 1 then Inr (w1\<lparr>pl_pollfds := butlast fds\<rparr>)
    else
      (let lst = pfd_fd (last fds); channelAtEnd = (if lst < 0 then - lst - 1 else lst);
           w2 = w1\<lparr>pl_pollfds := butlast (fds[idx := last fds, length fds - 1 := pfd])\<rparr> in
       case pl_channels w1 channelAtEnd of
         None \<Rightarrow> Inl (UndefinedBehaviour ''null channel'')
       | Some q \<Rightarrow> rbind (pl_chan w2 q) (\<lambda>d. Inr (pl_put q (d\<lparr>ch_index := int idx\<rparr>) w2))))))))))"

text \<open>
  \<^verbatim>\<open>fillActiveChannels\<close> walks the slots until \<open>n\<close> of them had events. \<^verbatim>\<open>poll(2)\<close> writes the \<^verbatim>\<open>revents\<close> of
  the slots; its return value is the number of slots with events.
\<close>

fun pl_fill :: "pollfd list \<Rightarrow> int \<Rightarrow> nat list \<Rightarrow> 'cb poller \<Rightarrow> (nat list \<times> 'cb poller) res" where
  "pl_fill [] n active w = Inr (active, w)"
| "pl_fill (pfd # pfds) n active w =
    (if n \<le> 0 then Inr (active, w)
     else if 0 < sint (pfd_revents pfd) then
       (case pl_channels w (pfd_fd pfd) of
          None \<Rightarrow> Inl (AssertFail ''ch != channels_.end()'')
        | Some p \<Rightarrow> rbind (pl_chan w p) (\<lambda>c.
            pl_fill pfds (n - 1) (active @ [p]) (pl_put p (c\<lparr>ch_revents := scast (pfd_revents pfd)\<rparr>) w)))
     else pl_fill pfds n active w)"

definition pl_poll :: "int \<Rightarrow> 16 word list \<Rightarrow> nat list \<Rightarrow> 'cb poller \<Rightarrow> (nat list \<times> 'cb poller) res" where
  "pl_poll numEvents revs active w =
    (let fds = map2 (\<lambda>pfd r. pfd\<lparr>pfd_revents := r\<rparr>) (pl_pollfds w) revs;
         w1 = w\<lparr>pl_pollfds := fds\<rparr>
     in if 0 < numEvents then pl_fill fds numEvents active w1 else Inr (active, w1))"

section \<open>Setting the interest of a channel\<close>

text \<open>
  \<^verbatim>\<open>enableReading\<close>, \<^verbatim>\<open>enableWriting\<close>, \<^verbatim>\<open>disableWriting\<close> and \<^verbatim>\<open>disableAll\<close> all assign \<^verbatim>\<open>events_\<close> and call
  \<^verbatim>\<open>update\<close>, which hands the channel to the poller of its loop.
\<close>

definition ep_set_events :: "bool \<Rightarrow> (flags \<Rightarrow> flags) \<Rightarrow> nat \<Rightarrow> 'cb epoller \<Rightarrow> 'cb epoller res" where
  "ep_set_events in_loop f p w =
    rbind (ep_chan w p) (\<lambda>c. ep_updateChannel in_loop p (ep_put p (c\<lparr>ch_events := f (ch_events c)\<rparr>) w))"

definition pl_set_events :: "bool \<Rightarrow> (flags \<Rightarrow> flags) \<Rightarrow> nat \<Rightarrow> 'cb poller \<Rightarrow> 'cb poller res" where
  "pl_set_events in_loop f p w =
    rbind (pl_chan w p) (\<lambda>c. pl_updateChannel in_loop p (pl_put p (c\<lparr>ch_events := f (ch_events c)\<rparr>) w))"

section \<open>The contract\<close>

text \<open>
  \<open>chan\<close> are the channel objects, \<open>reg\<close> the registered ones by descriptor, \<open>watched\<close> the events the kernel
  is asked to report for a descriptor. Interest may be set when \<open>can_set\<close> holds; a registered channel
  can always be silenced, and a silenced channel can be removed.
\<close>

locale poller_contract =
  fixes inv :: "'s \<Rightarrow> bool"
    and chan :: "'s \<Rightarrow> nat \<Rightarrow> 'cb channel option"
    and reg :: "'s \<Rightarrow> int \<Rightarrow> nat option"
    and watched :: "'s \<Rightarrow> int \<Rightarrow> flags"
    and can_set :: "'s \<Rightarrow> nat \<Rightarrow> flags \<Rightarrow> bool"
    and set_ev :: "(flags \<Rightarrow> flags) \<Rightarrow> nat \<Rightarrow> 's \<Rightarrow> 's res"
    and silenced :: "'s \<Rightarrow> nat \<Rightarrow> bool"
    and remove :: "nat \<Rightarrow> 's \<Rightarrow> 's res"
  assumes set_law: "inv s \<Longrightarrow> chan s p = Some c \<Longrightarrow> can_set s p (f (ch_events c)) \<Longrightarrow>
      \<exists>s' c'. set_ev f p s = Inr s' \<and> inv s' \<and> watched s' = (watched s)(ch_fd c := f (ch_events c)) \<and>
        reg s' = (reg s)(ch_fd c \<mapsto> p) \<and> chan s' = (chan s)(p \<mapsto> c') \<and> ch_fd c' = ch_fd c \<and>
        ch_events c' = f (ch_events c) \<and> same_hooks c' c"
    and silence_law: "inv s \<Longrightarrow> chan s p = Some c \<Longrightarrow> reg s (ch_fd c) = Some p \<Longrightarrow> can_set s p 0"
    and silenced_law: "inv s \<Longrightarrow> chan s p = Some c \<Longrightarrow> reg s (ch_fd c) = Some p \<Longrightarrow>
      set_ev (\<lambda>_. 0) p s = Inr s' \<Longrightarrow> silenced s' p"
    and remove_law: "inv s \<Longrightarrow> chan s p = Some c \<Longrightarrow> reg s (ch_fd c) = Some p \<Longrightarrow> silenced s p \<Longrightarrow>
      \<exists>s' c'. remove p s = Inr s' \<and> inv s' \<and> watched s' = (watched s)(ch_fd c := 0) \<and>
        reg s' = (reg s)(ch_fd c := None) \<and> chan s' p = Some c' \<and> ch_fd c' = ch_fd c \<and>
        same_hooks c' c"
begin

text \<open>Closing down a registered channel, \<^verbatim>\<open>disableAll\<close> and then \<^verbatim>\<open>removeChannel\<close>, cannot fail.\<close>

lemma close_down:
  assumes "inv s" and "chan s p = Some c" and "reg s (ch_fd c) = Some p"
  shows "\<exists>s1 s2 c1. set_ev (\<lambda>_. 0) p s = Inr s1 \<and> chan s1 p = Some c1 \<and> ch_fd c1 = ch_fd c \<and>
    remove p s1 = Inr s2 \<and> inv s2 \<and> watched s2 = (watched s)(ch_fd c := 0) \<and>
    reg s2 = (reg s)(ch_fd c := None)"
proof -
  from set_law [of s p c "\<lambda>_. 0"] silence_law assms obtain s1 c1 where
    s1: "set_ev (\<lambda>_. 0) p s = Inr s1" "inv s1" "watched s1 = (watched s)(ch_fd c := 0)"
      "reg s1 = (reg s)(ch_fd c \<mapsto> p)" "chan s1 = (chan s)(p \<mapsto> c1)" "ch_fd c1 = ch_fd c" by blast
  from silenced_law [OF assms s1(1)] have "silenced s1 p" .
  with remove_law [of s1 p c1] s1 obtain s2 where
    "remove p s1 = Inr s2" "inv s2" "watched s2 = (watched s1)(ch_fd c := 0)"
    "reg s2 = (reg s1)(ch_fd c := None)" by auto
  with s1 show ?thesis by auto
qed

text \<open>A poller watches a descriptor for exactly what its channel last asked for.\<close>

lemma set_twice:
  assumes "inv s" and "chan s p = Some c" and "can_set s p (f (ch_events c))"
    and "\<And>s' c'. set_ev f p s = Inr s' \<Longrightarrow> chan s' p = Some c' \<Longrightarrow> can_set s' p (g (ch_events c'))"
  shows "\<exists>s1 s2. set_ev f p s = Inr s1 \<and> set_ev g p s1 = Inr s2 \<and> inv s2 \<and>
    watched s2 (ch_fd c) = g (f (ch_events c))"
proof -
  from set_law [of s p c f] assms(1-3) obtain s1 c1 where
    s1: "set_ev f p s = Inr s1" "inv s1" "chan s1 = (chan s)(p \<mapsto> c1)" "ch_fd c1 = ch_fd c"
      "ch_events c1 = f (ch_events c)" by blast
  from s1(3) have c1: "chan s1 p = Some c1" by simp
  from set_law [of s1 p c1 g, OF s1(2) c1 assms(4) [OF s1(1) c1]] s1 show ?thesis by auto
qed

end

section \<open>EPoller implements it\<close>

definition ep_inv :: "'cb epoller \<Rightarrow> bool" where
  "ep_inv w \<longleftrightarrow>
    (\<forall>fd p. ep_channels w fd = Some p \<longrightarrow> (\<exists>c. ep_heap w p = Some c \<and> ch_fd c = fd \<and>
       (ch_index c = kAdded \<and> ep_interest w fd = Some (ch_events c, p) \<or>
        ch_index c = kDeleted \<and> ep_interest w fd = None \<and> ch_events c = 0))) \<and>
    (\<forall>p c. ep_heap w p = Some c \<longrightarrow> ep_channels w (ch_fd c) \<noteq> Some p \<longrightarrow> ch_index c = kNew) \<and>
    (\<forall>fd. ep_channels w fd = None \<longrightarrow> ep_interest w fd = None) \<and>
    (\<forall>op fd. \<not> ep_refuses w op fd)"

definition ep_watched :: "'cb epoller \<Rightarrow> int \<Rightarrow> flags" where
  "ep_watched w fd = (case ep_interest w fd of None \<Rightarrow> 0 | Some (e, p) \<Rightarrow> e)"

definition ep_can_set :: "'cb epoller \<Rightarrow> nat \<Rightarrow> flags \<Rightarrow> bool" where
  "ep_can_set w p e \<longleftrightarrow> (case ep_heap w p of None \<Rightarrow> False
     | Some c \<Rightarrow> ep_channels w (ch_fd c) = None \<or> ep_channels w (ch_fd c) = Some p)"

definition ep_silenced :: "'cb epoller \<Rightarrow> nat \<Rightarrow> bool" where
  "ep_silenced w p \<longleftrightarrow> (case ep_heap w p of None \<Rightarrow> False | Some c \<Rightarrow> isNoneEvent c)"

lemmas k_defs = kNew_def kAdded_def kDeleted_def

lemma ep_invD:
  assumes "ep_inv w" and "ep_channels w fd = Some p" and "ep_heap w p = Some c"
  shows "ch_fd c = fd" and "ch_index c = kAdded \<or> ch_index c = kDeleted"
    and "ch_index c = kAdded \<Longrightarrow> ep_interest w fd = Some (ch_events c, p)"
    and "ch_index c = kDeleted \<Longrightarrow> ep_interest w fd = None \<and> ch_events c = 0"
  using assms unfolding ep_inv_def by (fastforce simp: k_defs)+

lemma ep_inv_parts:
  assumes "ep_inv w"
  shows "ep_channels w fd = Some p \<Longrightarrow> \<exists>c. ep_heap w p = Some c \<and> ch_fd c = fd"
    and "ep_heap w p = Some c \<Longrightarrow> ep_channels w (ch_fd c) \<noteq> Some p \<Longrightarrow> ch_index c = kNew"
    and "ep_channels w fd = None \<Longrightarrow> ep_interest w fd = None"
    and "\<not> ep_refuses w op fd"
  using assms unfolding ep_inv_def by blast+

text \<open>The invariant after a change at one channel \<open>p\<close> and its descriptor only.\<close>

lemma ep_inv_at:
  assumes inv: "ep_inv w" and c: "ep_heap w p = Some c"
    and own: "ep_channels w (ch_fd c) = None \<or> ep_channels w (ch_fd c) = Some p"
    and fd: "ch_fd c' = ch_fd c"
    and new: "y = Some p \<and> (ch_index c' = kAdded \<and> x = Some (ch_events c', p) \<or>
        ch_index c' = kDeleted \<and> x = None \<and> ch_events c' = 0) \<or>
      y = None \<and> x = None \<and> ch_index c' = kNew"
  shows "ep_inv (w\<lparr>ep_heap := (ep_heap w)(p \<mapsto> c'), ep_channels := (ep_channels w)(ch_fd c := y),
    ep_interest := (ep_interest w)(ch_fd c := x)\<rparr>)" (is "ep_inv ?w")
  unfolding ep_inv_def
proof (intro conjI allI impI)
  fix g q assume g: "ep_channels ?w g = Some q"
  show "\<exists>d. ep_heap ?w q = Some d \<and> ch_fd d = g \<and>
      (ch_index d = kAdded \<and> ep_interest ?w g = Some (ch_events d, q) \<or>
       ch_index d = kDeleted \<and> ep_interest ?w g = None \<and> ch_events d = 0)"
  proof (cases "g = ch_fd c")
    case True
    with g new fd show ?thesis by auto
  next
    case False
    with g have "ep_channels w g = Some q" by simp
    moreover from this ep_inv_parts(1) [OF inv, of g q] c False have "q \<noteq> p" by auto
    ultimately show ?thesis using inv False unfolding ep_inv_def by simp
  qed
next
  fix q d assume d: "ep_heap ?w q = Some d" "ep_channels ?w (ch_fd d) \<noteq> Some q"
  show "ch_index d = kNew"
  proof (cases "q = p")
    case True
    with d new fd show ?thesis by auto
  next
    case False
    with d own have "ep_heap w q = Some d" "ep_channels w (ch_fd d) \<noteq> Some q"
      by (auto split: if_splits)
    with ep_inv_parts(2) [OF inv] show ?thesis by blast
  qed
next
  fix g assume "ep_channels ?w g = None"
  with new ep_inv_parts(3) [OF inv] show "ep_interest ?w g = None" by (auto split: if_splits)
next
  fix op g show "\<not> ep_refuses ?w op g" using ep_inv_parts(4) [OF inv] by simp
qed

lemma ep_set_events_ok:
  assumes inv: "ep_inv w" and c: "ep_heap w p = Some c"
    and own: "ep_channels w (ch_fd c) = None \<or> ep_channels w (ch_fd c) = Some p"
    and e_def: "e = f (ch_events c)"
  shows "\<exists>idx x. ep_set_events True f p w =
      Inr (w\<lparr>ep_heap := (ep_heap w)(p \<mapsto> c\<lparr>ch_events := e, ch_index := idx\<rparr>),
        ep_channels := (ep_channels w)(ch_fd c := Some p), ep_interest := (ep_interest w)(ch_fd c := x)\<rparr>) \<and>
    (idx = kAdded \<and> x = Some (e, p) \<or> idx = kDeleted \<and> x = None \<and> e = 0)"
proof -
  have nr: "\<not> ep_refuses w op g" for op g using ep_inv_parts(4) [OF inv] .
  consider (new) "ep_channels w (ch_fd c) = None" "ch_index c = kNew" "ep_interest w (ch_fd c) = None"
    | (deleted) "ep_channels w (ch_fd c) = Some p" "ch_index c = kDeleted" "ep_interest w (ch_fd c) = None"
    | (added) "ep_channels w (ch_fd c) = Some p" "ch_index c = kAdded"
        "ep_interest w (ch_fd c) = Some (ch_events c, p)"
    using own ep_invD [OF inv _ c, of "ch_fd c"] ep_inv_parts(2,3) [OF inv] c by auto
  then show ?thesis
  proof cases
    case new
    then show ?thesis
      by (intro exI [of _ kAdded] exI [of _ "Some (e, p)"])
        (simp add: ep_set_events_def ep_chan_def c ep_updateChannel_def ep_put_def ep_update_def
          epoll_ctl_def nr e_def Let_def)
  next
    case deleted
    then have "(ep_channels w)(ch_fd c := Some p) = ep_channels w" by auto
    with deleted show ?thesis
      by (intro exI [of _ kAdded] exI [of _ "Some (e, p)"])
        (simp add: ep_set_events_def ep_chan_def c ep_updateChannel_def ep_put_def ep_update_def
          epoll_ctl_def nr e_def Let_def k_defs)
  next
    case added
    then have same: "(ep_channels w)(ch_fd c := Some p) = ep_channels w" by auto
    show ?thesis
    proof (cases "e = 0")
      case True
      with added same show ?thesis
        by (intro exI [of _ kDeleted] exI [of _ None])
          (simp add: ep_set_events_def ep_chan_def c ep_updateChannel_def ep_put_def ep_update_def
            epoll_ctl_def nr e_def Let_def k_defs isNoneEvent_def kNoneEvent_def)
    next
      case False
      from added(2) have idx: "c\<lparr>ch_events := x, ch_index := 1\<rparr> = c\<lparr>ch_events := x\<rparr>" for x
        by (cases c) (simp add: kAdded_def)
      with False added same show ?thesis
        by (intro exI [of _ kAdded] exI [of _ "Some (e, p)"])
          (simp add: ep_set_events_def ep_chan_def c ep_updateChannel_def ep_put_def ep_update_def
            epoll_ctl_def nr e_def Let_def k_defs idx isNoneEvent_def kNoneEvent_def)
    qed
  qed
qed

lemma ep_removeChannel_ok:
  assumes inv: "ep_inv w" and c: "ep_heap w p = Some c"
    and reg: "ep_channels w (ch_fd c) = Some p" and none: "isNoneEvent c"
  shows "ep_removeChannel True p w =
    Inr (w\<lparr>ep_heap := (ep_heap w)(p \<mapsto> c\<lparr>ch_index := kNew\<rparr>),
      ep_channels := (ep_channels w)(ch_fd c := None), ep_interest := (ep_interest w)(ch_fd c := None)\<rparr>)"
proof -
  have nr: "\<not> ep_refuses w op g" for op g using ep_inv_parts(4) [OF inv] .
  consider (deleted) "ch_index c = kDeleted" "ep_interest w (ch_fd c) = None"
    | (added) "ch_index c = kAdded" "ep_interest w (ch_fd c) = Some (ch_events c, p)"
    using ep_invD [OF inv reg c] by auto
  then show ?thesis
  proof cases
    case deleted
    then have "(ep_interest w)(ch_fd c := None) = ep_interest w" by auto
    with deleted reg none show ?thesis
      by (simp add: ep_removeChannel_def ep_chan_def c Let_def ep_put_def k_defs)
  next
    case added
    with reg none show ?thesis
      by (simp add: ep_removeChannel_def ep_chan_def c Let_def ep_put_def ep_update_def epoll_ctl_def nr)
  qed
qed

lemma ep_watched_upd:
  "ep_watched (w\<lparr>ep_heap := h, ep_channels := m, ep_interest := (ep_interest w)(fd := x)\<rparr>) =
   (ep_watched w)(fd := case x of None \<Rightarrow> 0 | Some (e, p) \<Rightarrow> e)"
  by (auto simp: ep_watched_def)

interpretation epc: poller_contract ep_inv ep_heap ep_channels ep_watched ep_can_set
  "ep_set_events True" ep_silenced "ep_removeChannel True"
proof
  fix w :: "'a epoller" and p c f
  assume A: "ep_inv w" "ep_heap w p = Some c" "ep_can_set w p (f (ch_events c))"
  then have own: "ep_channels w (ch_fd c) = None \<or> ep_channels w (ch_fd c) = Some p"
    by (simp add: ep_can_set_def)
  from ep_set_events_ok [OF A(1,2) own refl, of f] obtain idx x where
    w': "ep_set_events True f p w =
      Inr (w\<lparr>ep_heap := (ep_heap w)(p \<mapsto> c\<lparr>ch_events := f (ch_events c), ch_index := idx\<rparr>),
        ep_channels := (ep_channels w)(ch_fd c := Some p), ep_interest := (ep_interest w)(ch_fd c := x)\<rparr>)"
      (is "_ = Inr ?w")
    and x: "idx = kAdded \<and> x = Some (f (ch_events c), p) \<or> idx = kDeleted \<and> x = None \<and> f (ch_events c) = 0"
    by blast
  have "ep_inv ?w" using x by (intro ep_inv_at [OF A(1,2) own]) auto
  moreover have "ep_watched ?w = (ep_watched w)(ch_fd c := f (ch_events c))"
    using x by (auto simp: ep_watched_upd)
  ultimately show "\<exists>w' c'. ep_set_events True f p w = Inr w' \<and> ep_inv w' \<and>
      ep_watched w' = (ep_watched w)(ch_fd c := f (ch_events c)) \<and>
      ep_channels w' = (ep_channels w)(ch_fd c \<mapsto> p) \<and> ep_heap w' = (ep_heap w)(p \<mapsto> c') \<and>
      ch_fd c' = ch_fd c \<and> ch_events c' = f (ch_events c) \<and> same_hooks c' c"
    using w' by (auto simp: same_hooks_def)
next
  fix w :: "'a epoller" and p c
  assume "ep_inv w" "ep_heap w p = Some c" "ep_channels w (ch_fd c) = Some p"
  then show "ep_can_set w p 0" by (simp add: ep_can_set_def)
next
  fix w w' :: "'a epoller" and p c
  assume A: "ep_inv w" "ep_heap w p = Some c" "ep_channels w (ch_fd c) = Some p"
    "ep_set_events True (\<lambda>_. 0) p w = Inr w'"
  from ep_set_events_ok [OF A(1,2) disjI2 [OF A(3)] refl, of "\<lambda>_. 0"] A(4)
  show "ep_silenced w' p" by (auto simp: ep_silenced_def isNoneEvent_def kNoneEvent_def)
next
  fix w :: "'a epoller" and p c
  assume A: "ep_inv w" "ep_heap w p = Some c" "ep_channels w (ch_fd c) = Some p" "ep_silenced w p"
  then have none: "isNoneEvent c" by (simp add: ep_silenced_def)
  show "\<exists>w' c'. ep_removeChannel True p w = Inr w' \<and> ep_inv w' \<and>
      ep_watched w' = (ep_watched w)(ch_fd c := 0) \<and> ep_channels w' = (ep_channels w)(ch_fd c := None) \<and>
      ep_heap w' p = Some c' \<and> ch_fd c' = ch_fd c \<and> same_hooks c' c"
    unfolding ep_removeChannel_ok [OF A(1,2,3) none]
    using ep_inv_at [OF A(1,2) disjI2 [OF A(3)], of "c\<lparr>ch_index := kNew\<rparr>" None None]
    by (auto simp: ep_watched_upd same_hooks_def)
qed

section \<open>Polling with epoll\<close>

text \<open>
  What \<^verbatim>\<open>epoll_wait\<close> may report: at most as many events as the array holds, each for a registered
  descriptor and with the pointer stored there, one event per descriptor.
\<close>

definition epoll_reports :: "'cb epoller \<Rightarrow> (flags \<times> nat) list \<Rightarrow> bool" where
  "epoll_reports w evs \<longleftrightarrow> length evs \<le> ep_events_size w \<and> distinct (map snd evs) \<and>
    (\<forall>ev \<in> set evs. \<exists>fd e. ep_interest w fd = Some (e, snd ev))"

definition with_revents :: "(flags \<times> nat) list \<Rightarrow> (nat \<Rightarrow> 'cb channel option) \<Rightarrow> nat \<Rightarrow> 'cb channel option" where
  "with_revents evs h p =
    (case map_of (map prod.swap evs) p of None \<Rightarrow> h p | Some ev \<Rightarrow> map_option (\<lambda>c. c\<lparr>ch_revents := ev\<rparr>) (h p))"

lemma with_revents_Cons:
  assumes "p \<notin> set (map snd evs)" and "h p = Some c"
  shows "with_revents evs (h(p \<mapsto> c\<lparr>ch_revents := ev\<rparr>)) = with_revents ((ev, p) # evs) h"
proof
  fix q show "with_revents evs (h(p \<mapsto> c\<lparr>ch_revents := ev\<rparr>)) q = with_revents ((ev, p) # evs) h q"
  proof (cases "q = p")
    case True
    from assms(1) have "map_of (map prod.swap evs) p = None" by (force simp: map_of_eq_None_iff)
    with True assms(2) show ?thesis by (simp add: with_revents_def)
  next
    case False
    then show ?thesis by (simp add: with_revents_def split: option.split)
  qed
qed

lemma ep_inv_interest:
  assumes inv: "ep_inv w" and i: "ep_interest w fd = Some (e, p)"
  shows "\<exists>c. ep_heap w p = Some c \<and> ep_channels w (ch_fd c) = Some p"
proof -
  from ep_inv_parts(3) [OF inv, of fd] i obtain q where q: "ep_channels w fd = Some q" by fastforce
  with ep_inv_parts(1) [OF inv] obtain c where c: "ep_heap w q = Some c" "ch_fd c = fd" by blast
  from ep_invD [OF inv q c(1)] i have "q = p" by auto
  with c q show ?thesis by auto
qed

text \<open>A channel that does not exist yet may be created in a consistent poller.\<close>

lemma ep_inv_new:
  assumes "ep_inv w" and "ep_heap w p = None" and "ch_index ch = kNew"
  shows "ep_inv (ep_put p ch w)"
proof -
  have "ep_channels w fd \<noteq> Some p" for fd using assms(1,2) by (fastforce simp: ep_inv_def)
  with assms show ?thesis unfolding ep_inv_def ep_put_def by (auto split: if_splits)
qed

lemma ep_inv_revents: "ep_inv w \<Longrightarrow> ep_heap w p = Some c \<Longrightarrow> ep_inv (ep_put p (c\<lparr>ch_revents := r\<rparr>) w)"
  unfolding ep_inv_def ep_put_def by (auto; metis option.inject)

lemma ep_inv_flag: "ep_inv w \<Longrightarrow> ep_heap w p = Some c \<Longrightarrow> ep_inv (ep_put p (c\<lparr>ch_eventHandling := b\<rparr>) w)"
  unfolding ep_inv_def ep_put_def by (auto; metis option.inject)

lemma ep_fill_ok:
  assumes "ep_inv w" and "distinct (map snd evs)"
    and "\<forall>ev \<in> set evs. \<exists>fd e. ep_interest w fd = Some (e, snd ev)"
  shows "ep_fill evs active w = Inr (active @ map snd evs, w\<lparr>ep_heap := with_revents evs (ep_heap w)\<rparr>) \<and>
    ep_inv (w\<lparr>ep_heap := with_revents evs (ep_heap w)\<rparr>)"
  using assms
proof (induction evs arbitrary: active w)
  case Nil
  then show ?case by (simp add: with_revents_def)
next
  case (Cons x evs)
  obtain ev p where x: "x = (ev, p)" by (cases x)
  from Cons.prems(3) x obtain fd e where "ep_interest w fd = Some (e, p)" by auto
  from ep_inv_interest [OF Cons.prems(1) this] obtain c where
    c: "ep_heap w p = Some c" "ep_channels w (ch_fd c) = Some p" by blast
  let ?w = "ep_put p (c\<lparr>ch_revents := ev\<rparr>) w"
  have "with_revents evs (ep_heap ?w) = with_revents (x # evs) (ep_heap w)"
    using Cons.prems(2) c x by (simp add: ep_put_def with_revents_Cons)
  moreover have "ep_fill evs (active @ [p]) ?w =
      Inr ((active @ [p]) @ map snd evs, ?w\<lparr>ep_heap := with_revents evs (ep_heap ?w)\<rparr>) \<and>
    ep_inv (?w\<lparr>ep_heap := with_revents evs (ep_heap ?w)\<rparr>)"
    using Cons.prems by (intro Cons.IH ep_inv_revents c) (auto simp: ep_put_def)
  ultimately show ?case by (simp add: x ep_chan_def c ep_put_def)
qed

lemma ep_poll_ok:
  assumes inv: "ep_inv w" and rep: "epoll_reports w evs"
  shows "\<exists>w'. ep_poll (WaitOk evs) active w = Inr (active @ map snd evs, w') \<and> ep_inv w' \<and>
    ep_heap w' = with_revents evs (ep_heap w) \<and> ep_channels w' = ep_channels w \<and>
    ep_interest w' = ep_interest w \<and>
    ep_events_size w' = (if evs \<noteq> [] \<and> length evs = ep_events_size w then 2 * ep_events_size w else ep_events_size w)"
proof (cases "evs = []")
  case True
  with inv show ?thesis by (auto simp: ep_poll_def with_revents_def)
next
  case False
  have sz: "ep_inv (v\<lparr>ep_events_size := n\<rparr>) = ep_inv v" for v :: "'a epoller" and n by (simp add: ep_inv_def)
  from rep ep_fill_ok [OF inv, of evs active] have
    "ep_fill evs active w = Inr (active @ map snd evs, w\<lparr>ep_heap := with_revents evs (ep_heap w)\<rparr>)"
    "ep_inv (w\<lparr>ep_heap := with_revents evs (ep_heap w)\<rparr>)" "length evs \<le> ep_events_size w"
    by (auto simp: epoll_reports_def)
  with False show ?thesis by (simp add: ep_poll_def ep_fillActiveChannels_def sz)
qed

text \<open>
  C27: On a consistent poller, when \<^verbatim>\<open>epoll_wait\<close> reports events for registered descriptors, \<^verbatim>\<open>poll\<close> fails
  none of its assertions, appends exactly the reported channels in order, stores the reported events in
  them and in no other channel, keeps the registrations, and doubles the event array exactly when it was full.
\<close>

theorem ep_poll_active:
  assumes "ep_inv w" and "epoll_reports w evs"
  shows "\<exists>w'. ep_poll (WaitOk evs) active w = Inr (active @ map snd evs, w') \<and> ep_inv w' \<and>
    ep_heap w' = with_revents evs (ep_heap w) \<and> ep_channels w' = ep_channels w \<and>
    ep_interest w' = ep_interest w \<and>
    ep_events_size w' = (if evs \<noteq> [] \<and> length evs = ep_events_size w then 2 * ep_events_size w else ep_events_size w)"
  using assms by (rule ep_poll_ok)

text \<open>
  On a consistent epoll poller a registered channel can always be closed down: \<^verbatim>\<open>disableAll\<close> followed by
  \<^verbatim>\<open>removeChannel\<close> fails no assertion and leaves a consistent poller that neither knows nor watches the descriptor.
\<close>

theorem ep_close_down:
  assumes "ep_inv w" and "ep_heap w p = Some c" and "ep_channels w (ch_fd c) = Some p"
  shows "\<exists>w1 w2. ep_set_events True ev_disableAll p w = Inr w1 \<and> ep_removeChannel True p w1 = Inr w2 \<and>
    ep_inv w2 \<and> ep_watched w2 = (ep_watched w)(ch_fd c := 0) \<and> ep_channels w2 = (ep_channels w)(ch_fd c := None)"
proof -
  have "ev_disableAll = (\<lambda>_. 0)" by (auto simp: ev_disableAll_def kNoneEvent_def)
  with epc.close_down [OF assms] show ?thesis by auto
qed

section \<open>Poller implements the contract too\<close>

text \<open>
  Slot \<open>i\<close> belongs to the registered channel whose index is \<open>i\<close>; it holds the channel's descriptor, or
  \<^verbatim>\<open>-fd-1\<close> while the channel is silenced. \<open>slot_ok\<close> relates a slot and its channel.
\<close>

definition slot_ok :: "pollfd \<Rightarrow> 'cb channel \<Rightarrow> bool" where
  "slot_ok pfd c \<longleftrightarrow> pfd_events pfd = ucast (ch_events c) \<and>
    (pfd_fd pfd = ch_fd c \<or> pfd_fd pfd = - ch_fd c - 1 \<and> ch_events c = 0)"

definition slot_key :: "pollfd \<Rightarrow> int" where
  "slot_key pfd = (if pfd_fd pfd < 0 then - pfd_fd pfd - 1 else pfd_fd pfd)"

definition pl_inv :: "'cb poller \<Rightarrow> bool" where
  "pl_inv w \<longleftrightarrow>
    (\<forall>fd p. pl_channels w fd = Some p \<longrightarrow> 0 \<le> fd \<and> (\<exists>c i. pl_heap w p = Some c \<and> ch_fd c = fd \<and>
       valid_events (ch_events c) \<and> ch_index c = int i \<and> i < length (pl_pollfds w) \<and>
       slot_ok (pl_pollfds w ! i) c)) \<and>
    (\<forall>i < length (pl_pollfds w). \<exists>p c. pl_channels w (slot_key (pl_pollfds w ! i)) = Some p \<and>
       pl_heap w p = Some c \<and> ch_index c = int i)"

definition pl_watched :: "'cb poller \<Rightarrow> int \<Rightarrow> flags" where
  "pl_watched w fd =
    (case find (\<lambda>pfd. pfd_fd pfd = fd) (pl_pollfds w) of
       Some pfd \<Rightarrow> if 0 \<le> fd then ucast (pfd_events pfd) else 0
     | None \<Rightarrow> 0)"

definition pl_can_set :: "'cb poller \<Rightarrow> nat \<Rightarrow> flags \<Rightarrow> bool" where
  "pl_can_set w p e \<longleftrightarrow> valid_events e \<and> (case pl_heap w p of None \<Rightarrow> False
     | Some c \<Rightarrow> 0 \<le> ch_fd c \<and>
        (ch_index c < 0 \<and> pl_channels w (ch_fd c) = None \<or>
         pl_channels w (ch_fd c) = Some p \<and> (pfd_fd (pl_pollfds w ! nat (ch_index c)) = ch_fd c \<or> e = 0)))"

definition pl_silenced :: "'cb poller \<Rightarrow> nat \<Rightarrow> bool" where
  "pl_silenced w p \<longleftrightarrow> (case pl_heap w p of None \<Rightarrow> False
     | Some c \<Rightarrow> isNoneEvent c \<and> pfd_fd (pl_pollfds w ! nat (ch_index c)) = - ch_fd c - 1)"

lemma ucast_valid: "valid_events e \<Longrightarrow> ucast (ucast e :: 16 word) = e \<and> scast (ucast e :: 16 word) = e"
  by (auto simp: valid_events_def) 

lemma slot_key_ok: "slot_ok pfd c \<Longrightarrow> 0 \<le> ch_fd c \<Longrightarrow> slot_key pfd = ch_fd c"
  by (auto simp: slot_ok_def slot_key_def)

lemma pl_inv_channel:
  assumes "pl_inv w" and "pl_channels w fd = Some p"
  obtains c i where "0 \<le> fd" "pl_heap w p = Some c" "ch_fd c = fd" "valid_events (ch_events c)"
    "ch_index c = int i" "i < length (pl_pollfds w)" "slot_ok (pl_pollfds w ! i) c"
  using assms unfolding pl_inv_def by blast

lemma pl_inv_slot:
  assumes "pl_inv w" and "i < length (pl_pollfds w)"
  obtains p c where "pl_channels w (ch_fd c) = Some p" "pl_heap w p = Some c" "ch_index c = int i"
    "slot_ok (pl_pollfds w ! i) c" "0 \<le> ch_fd c" "valid_events (ch_events c)"
proof -
  from assms obtain p c where p: "pl_channels w (slot_key (pl_pollfds w ! i)) = Some p"
    "pl_heap w p = Some c" "ch_index c = int i" unfolding pl_inv_def by blast
  with pl_inv_channel [OF assms(1) p(1)] that show thesis by fastforce
qed

lemma pl_inv_unique:
  assumes "pl_inv w" and "pl_channels w fd = Some p" and "pl_heap w p = Some c"
    and "pl_channels w fd' = Some p'" and "pl_heap w p' = Some c'" and "ch_index c' = ch_index c"
  shows "fd' = fd" "p' = p"
proof -
  obtain i where i: "0 \<le> fd" "ch_fd c = fd" "ch_index c = int i" "slot_ok (pl_pollfds w ! i) c"
    using pl_inv_channel [OF assms(1,2)] assms(3) by (metis option.inject)
  obtain i' where i': "0 \<le> fd'" "ch_fd c' = fd'" "ch_index c' = int i'" "slot_ok (pl_pollfds w ! i') c'"
    using pl_inv_channel [OF assms(1,4)] assms(5) by (metis option.inject)
  from i i' assms(6) slot_key_ok [OF i(4)] slot_key_ok [OF i'(4)] show "fd' = fd" by simp
  with assms(2,4) show "p' = p" by simp
qed

lemma find_slot:
  assumes inv: "pl_inv w" and i: "i < length (pl_pollfds w)" "pfd_fd (pl_pollfds w ! i) = fd" and "0 \<le> fd"
  shows "find (\<lambda>pfd. pfd_fd pfd = fd) (pl_pollfds w) = Some (pl_pollfds w ! i)"
proof -
  have uniq: "j = i" if j: "j < length (pl_pollfds w)" "pfd_fd (pl_pollfds w ! j) = fd" for j
  proof -
    from pl_inv_slot [OF inv i(1)] obtain p c where c: "pl_channels w (ch_fd c) = Some p"
      "pl_heap w p = Some c" "ch_index c = int i" "slot_ok (pl_pollfds w ! i) c" "0 \<le> ch_fd c" by blast
    from pl_inv_slot [OF inv j(1)] obtain q d where d: "pl_channels w (ch_fd d) = Some q"
      "pl_heap w q = Some d" "ch_index d = int j" "slot_ok (pl_pollfds w ! j) d" "0 \<le> ch_fd d" by blast
    from c d i j \<open>0 \<le> fd\<close> have "ch_fd c = ch_fd d"
      using slot_key_ok [OF c(4,5)] slot_key_ok [OF d(4,5)] by (simp add: slot_key_def)
    with c d show ?thesis by simp
  qed
  have "pfd_fd (pl_pollfds w ! j) \<noteq> fd" if "j < i" for j using uniq [of j] that i(1) by auto
  with i show ?thesis unfolding find_Some_iff by blast
qed

lemma pl_watched_reg:
  assumes inv: "pl_inv w" and reg: "pl_channels w fd = Some p" and c: "pl_heap w p = Some c"
  shows "pl_watched w fd = ch_events c"
proof -
  obtain i where i: "0 \<le> fd" "ch_fd c = fd" "valid_events (ch_events c)" "ch_index c = int i"
    "i < length (pl_pollfds w)" "slot_ok (pl_pollfds w ! i) c"
    using pl_inv_channel [OF inv reg] c by (metis option.inject)
  show ?thesis
  proof (cases "pfd_fd (pl_pollfds w ! i) = fd")
    case True
    with i find_slot [OF inv i(5) True i(1)] show ?thesis
      by (simp add: pl_watched_def slot_ok_def ucast_valid)
  next
    case False
    have "pfd_fd pfd \<noteq> fd" if pfd: "pfd \<in> set (pl_pollfds w)" for pfd
    proof
      assume fd: "pfd_fd pfd = fd"
      from pfd obtain j where j: "j < length (pl_pollfds w)" "pfd = pl_pollfds w ! j"
        by (auto simp: in_set_conv_nth)
      from pl_inv_slot [OF inv j(1)] obtain q d where d: "pl_channels w (ch_fd d) = Some q"
        "pl_heap w q = Some d" "ch_index d = int j" "slot_ok (pl_pollfds w ! j) d" "0 \<le> ch_fd d" by blast
      with fd j i have "ch_fd d = fd" using slot_key_ok [OF d(4,5)] by (simp add: slot_key_def)
      with d reg c i j fd False show False by simp
    qed
    then have "find (\<lambda>pfd. pfd_fd pfd = fd) (pl_pollfds w) = None" by (simp add: find_None_iff)
    with False i show ?thesis by (auto simp: pl_watched_def slot_ok_def)
  qed
qed

lemma pl_watched_unreg:
  assumes inv: "pl_inv w" and reg: "pl_channels w fd = None"
  shows "pl_watched w fd = 0"
proof (cases "find (\<lambda>pfd. pfd_fd pfd = fd) (pl_pollfds w)")
  case (Some pfd)
  then obtain i where i: "i < length (pl_pollfds w)" "pfd_fd (pl_pollfds w ! i) = fd"
    by (auto simp: find_Some_iff)
  have "\<not> 0 \<le> fd"
  proof
    assume "0 \<le> fd"
    with i pl_inv_slot [OF inv i(1)] slot_key_ok reg show False by (metis option.discI slot_key_def not_less)
  qed
  with Some show ?thesis by (simp add: pl_watched_def)
qed (simp add: pl_watched_def)

lemma pl_watched_set:
  assumes inv: "pl_inv w" "pl_inv w'" and c: "pl_heap w p = Some c" and fd: "ch_fd c' = ch_fd c"
    and reg: "pl_channels w' = (pl_channels w)(ch_fd c \<mapsto> p)" and heap: "pl_heap w' = (pl_heap w)(p \<mapsto> c')"
  shows "pl_watched w' = (pl_watched w)(ch_fd c := ch_events c')"
proof
  fix g show "pl_watched w' g = ((pl_watched w)(ch_fd c := ch_events c')) g"
  proof (cases "g = ch_fd c")
    case True
    with pl_watched_reg [OF inv(2), of g p c'] reg heap show ?thesis by simp
  next
    case False
    show ?thesis
    proof (cases "pl_channels w g")
      case None
      with False reg pl_watched_unreg [OF inv(1) None] pl_watched_unreg [OF inv(2)] show ?thesis by simp
    next
      case (Some q)
      then obtain d where d: "pl_heap w q = Some d" "ch_fd d = g" by (rule pl_inv_channel [OF inv(1)])
      with False c have "q \<noteq> p" by auto
      with False Some d reg heap pl_watched_reg [OF inv(1) Some d(1)] pl_watched_reg [OF inv(2), of g q d]
      show ?thesis by simp
    qed
  qed
qed

lemma pl_inv_new:
  assumes inv: "pl_inv w" and c: "pl_heap w p = Some c" and un: "pl_channels w (ch_fd c) = None"
    and fd: "0 \<le> ch_fd c" "ch_fd c' = ch_fd c" and e: "valid_events (ch_events c')"
    and idx: "ch_index c' = int (length (pl_pollfds w))"
  shows "pl_inv (w\<lparr>pl_heap := (pl_heap w)(p \<mapsto> c'), pl_channels := (pl_channels w)(ch_fd c \<mapsto> p),
    pl_pollfds := pl_pollfds w @ [\<lparr>pfd_fd = ch_fd c, pfd_events = ucast (ch_events c'), pfd_revents = 0\<rparr>]\<rparr>)"
    (is "pl_inv ?w")
  unfolding pl_inv_def
proof (intro conjI allI impI)
  fix g q assume g: "pl_channels ?w g = Some q"
  have "0 \<le> g \<and> (\<exists>d i. pl_heap ?w q = Some d \<and> ch_fd d = g \<and> valid_events (ch_events d) \<and>
      ch_index d = int i \<and> i < length (pl_pollfds ?w) \<and> slot_ok (pl_pollfds ?w ! i) d)"
  proof (cases "g = ch_fd c")
    case True
    with g fd e idx show ?thesis by (auto simp: slot_ok_def)
  next
    case False
    with g have "pl_channels w g = Some q" by simp
    then obtain d i where d: "0 \<le> g" "pl_heap w q = Some d" "ch_fd d = g" "valid_events (ch_events d)"
      "ch_index d = int i" "i < length (pl_pollfds w)" "slot_ok (pl_pollfds w ! i) d"
      by (rule pl_inv_channel [OF inv])
    with False c have "q \<noteq> p" by auto
    with d show ?thesis by (auto simp: nth_append)
  qed
  then show "0 \<le> g" and "\<exists>d i. pl_heap ?w q = Some d \<and> ch_fd d = g \<and> valid_events (ch_events d) \<and>
      ch_index d = int i \<and> i < length (pl_pollfds ?w) \<and> slot_ok (pl_pollfds ?w ! i) d" by blast+
next
  fix i assume i: "i < length (pl_pollfds ?w)"
  show "\<exists>q d. pl_channels ?w (slot_key (pl_pollfds ?w ! i)) = Some q \<and> pl_heap ?w q = Some d \<and> ch_index d = int i"
  proof (cases "i = length (pl_pollfds w)")
    case True
    with fd idx show ?thesis by (simp add: slot_key_def)
  next
    case False
    with i have i': "i < length (pl_pollfds w)" by simp
    then obtain q d where d: "pl_channels w (ch_fd d) = Some q" "pl_heap w q = Some d" "ch_index d = int i"
      "slot_ok (pl_pollfds w ! i) d" "0 \<le> ch_fd d" by (rule pl_inv_slot [OF inv])
    with un c have "ch_fd d \<noteq> ch_fd c" "q \<noteq> p" by auto
    with d i' slot_key_ok [OF d(4,5)] show ?thesis by (simp add: nth_append)
  qed
qed

lemma pl_inv_upd:
  assumes inv: "pl_inv w" and c: "pl_heap w p = Some c" and reg: "pl_channels w (ch_fd c) = Some p"
    and fd: "ch_fd c' = ch_fd c" and e: "valid_events (ch_events c')"
    and idx: "ch_index c' = ch_index c" "ch_index c = int i" and slot: "slot_ok pfd c'"
  shows "pl_inv (w\<lparr>pl_heap := (pl_heap w)(p \<mapsto> c'), pl_pollfds := (pl_pollfds w)[i := pfd]\<rparr>)"
    (is "pl_inv ?w")
proof -
  from pl_inv_channel [OF inv reg] c idx have i: "0 \<le> ch_fd c" "i < length (pl_pollfds w)"
    by (metis option.inject of_nat_eq_iff)+
  show ?thesis
    unfolding pl_inv_def
  proof (intro conjI allI impI)
    fix g q assume g: "pl_channels ?w g = Some q"
    then have g': "pl_channels w g = Some q" by simp
    then obtain d j where d: "0 \<le> g" "pl_heap w q = Some d" "ch_fd d = g" "valid_events (ch_events d)"
      "ch_index d = int j" "j < length (pl_pollfds w)" "slot_ok (pl_pollfds w ! j) d"
      by (rule pl_inv_channel [OF inv])
    then show "0 \<le> g" by simp
    show "\<exists>d i. pl_heap ?w q = Some d \<and> ch_fd d = g \<and> valid_events (ch_events d) \<and>
        ch_index d = int i \<and> i < length (pl_pollfds ?w) \<and> slot_ok (pl_pollfds ?w ! i) d"
    proof (cases "q = p")
      case True
      with d c fd e idx i slot show ?thesis by auto
    next
      case False
      have "j \<noteq> i"
      proof
        assume "j = i"
        with idx d(5) have "ch_index d = ch_index c" by simp
        from pl_inv_unique(2) [OF inv reg c g' d(2) this] False show False by simp
      qed
      with False d show ?thesis by auto
    qed
  next
    fix j assume j: "j < length (pl_pollfds ?w)"
    show "\<exists>q d. pl_channels ?w (slot_key (pl_pollfds ?w ! j)) = Some q \<and> pl_heap ?w q = Some d \<and> ch_index d = int j"
    proof (cases "j = i")
      case True
      with i idx reg slot_key_ok [OF slot] fd show ?thesis by simp
    next
      case False
      from j have "j < length (pl_pollfds w)" by simp
      then obtain q d where d: "pl_channels w (ch_fd d) = Some q" "pl_heap w q = Some d" "ch_index d = int j"
        "slot_ok (pl_pollfds w ! j) d" "0 \<le> ch_fd d" by (rule pl_inv_slot [OF inv])
      with False c idx have "q \<noteq> p" by auto
      with False d slot_key_ok [OF d(4,5)] show ?thesis by simp
    qed
  qed
qed

lemma pl_set_events_ok:
  assumes inv: "pl_inv w" and c: "pl_heap w p = Some c" and can: "pl_can_set w p e"
    and e_def: "e = f (ch_events c)"
  shows "\<exists>w' c'. pl_set_events True f p w = Inr w' \<and> pl_inv w' \<and> pl_channels w' = (pl_channels w)(ch_fd c \<mapsto> p) \<and>
    pl_heap w' = (pl_heap w)(p \<mapsto> c') \<and> ch_fd c' = ch_fd c \<and> ch_events c' = e \<and> same_hooks c' c \<and>
    (pl_channels w (ch_fd c) = Some p \<longrightarrow> e = 0 \<longrightarrow>
      pfd_fd (pl_pollfds w' ! nat (ch_index c')) = - ch_fd c - 1)"
proof -
  from can c have valid: "valid_events e" and fd: "0 \<le> ch_fd c" by (simp_all add: pl_can_set_def)
  from can c consider (new) "ch_index c < 0" "pl_channels w (ch_fd c) = None"
    | (old) "pl_channels w (ch_fd c) = Some p" by (auto simp: pl_can_set_def)
  then show ?thesis
  proof cases
    case new
    let ?c = "c\<lparr>ch_events := e, ch_index := int (length (pl_pollfds w))\<rparr>"
    let ?w = "w\<lparr>pl_heap := (pl_heap w)(p \<mapsto> ?c), pl_channels := (pl_channels w)(ch_fd c \<mapsto> p),
      pl_pollfds := pl_pollfds w @ [\<lparr>pfd_fd = ch_fd c, pfd_events = ucast e, pfd_revents = 0\<rparr>]\<rparr>"
    have "pl_inv ?w" using pl_inv_new [OF inv c new(2) fd, of ?c] valid by simp
    moreover have "pl_set_events True f p w = Inr ?w" using new
      by (simp add: pl_set_events_def pl_chan_def c pl_put_def pl_updateChannel_def Let_def e_def)
    ultimately show ?thesis using new by (intro exI [of _ ?w] exI [of _ ?c]) (simp add: same_hooks_def)
  next
    case old
    let ?c = "c\<lparr>ch_events := e\<rparr>"
    obtain i where i: "ch_index c = int i" "i < length (pl_pollfds w)" "slot_ok (pl_pollfds w ! i) c"
      using pl_inv_channel [OF inv old] c by (metis option.inject)
    let ?pfd1 = "(pl_pollfds w ! i)\<lparr>pfd_events := ucast e, pfd_revents := 0\<rparr>"
    let ?pfd = "if e = 0 then ?pfd1\<lparr>pfd_fd := - ch_fd c - 1\<rparr> else ?pfd1"
    have "slot_ok ?pfd ?c" using can c i old by (auto simp: slot_ok_def pl_can_set_def)
    with pl_inv_upd [OF inv c old, of ?c i ?pfd] valid i have
      "pl_inv (w\<lparr>pl_heap := (pl_heap w)(p \<mapsto> ?c), pl_pollfds := (pl_pollfds w)[i := ?pfd]\<rparr>)" (is "pl_inv ?w") by simp
    moreover have "pl_set_events True f p w = Inr ?w" using i old
      by (auto simp: pl_set_events_def pl_chan_def c pl_put_def pl_updateChannel_def Let_def e_def
        isNoneEvent_def kNoneEvent_def slot_ok_def)
    ultimately show ?thesis using old i by (auto simp: same_hooks_def)
  qed
qed

text \<open>Removal moves the last slot into the freed one and tells its channel.\<close>

lemma pl_inv_remove:
  assumes inv: "pl_inv w" and c: "pl_heap w p = Some c" and reg: "pl_channels w (ch_fd c) = Some p"
    and i: "ch_index c = int i" and n: "length (pl_pollfds w) = Suc k"
    and q: "pl_channels w (ch_fd d) = Some q" "pl_heap w q = Some d" "ch_index d = int k"
    and slot: "slot_ok (last (pl_pollfds w)) d"
  shows "pl_inv (w\<lparr>pl_heap := (pl_heap w)(q \<mapsto> d\<lparr>ch_index := int i\<rparr>),
    pl_channels := (pl_channels w)(ch_fd c := None),
    pl_pollfds := (butlast (pl_pollfds w))[i := last (pl_pollfds w)]\<rparr>)" (is "pl_inv ?w")
  unfolding pl_inv_def
proof (intro conjI allI impI)
  fix g r assume "pl_channels ?w g = Some r"
  then have g: "g \<noteq> ch_fd c" "pl_channels w g = Some r" by (auto split: if_splits)
  from g(2) obtain d' j where d': "0 \<le> g" "pl_heap w r = Some d'" "ch_fd d' = g" "valid_events (ch_events d')"
    "ch_index d' = int j" "j < length (pl_pollfds w)" "slot_ok (pl_pollfds w ! j) d'"
    by (rule pl_inv_channel [OF inv])
  then show "0 \<le> g" by simp
  have "j \<noteq> i" using pl_inv_unique(1) [OF inv reg c g(2) d'(2)] d'(5) i g(1) by auto
  show "\<exists>d i. pl_heap ?w r = Some d \<and> ch_fd d = g \<and> valid_events (ch_events d) \<and>
      ch_index d = int i \<and> i < length (pl_pollfds ?w) \<and> slot_ok (pl_pollfds ?w ! i) d"
  proof (cases "j = k")
    case True
    with pl_inv_unique(2) [OF inv q(1,2) g(2) d'(2)] q d' have "r = q" "d' = d" by auto
    moreover from pl_inv_channel [OF inv reg] c i have "i < length (pl_pollfds w)"
      by (metis option.inject of_nat_eq_iff)
    ultimately show ?thesis using True \<open>j \<noteq> i\<close> d' slot n by (auto simp: slot_ok_def)
  next
    case False
    with q d' have "r \<noteq> q" by auto
    with False \<open>j \<noteq> i\<close> d' n show ?thesis by (auto simp: nth_butlast)
  qed
next
  fix j assume "j < length (pl_pollfds ?w)"
  with n have j: "j < k" by simp
  show "\<exists>r d'. pl_channels ?w (slot_key (pl_pollfds ?w ! j)) = Some r \<and> pl_heap ?w r = Some d' \<and> ch_index d' = int j"
  proof (cases "j = i")
    case True
    have "ch_fd d \<noteq> ch_fd c" using reg q c i j True by auto
    moreover have "slot_key (last (pl_pollfds w)) = ch_fd d"
      using slot_key_ok [OF slot] pl_inv_channel [OF inv q(1)] q(2) by metis
    ultimately show ?thesis using True j n q by simp
  next
    case False
    from j n have j': "j < length (pl_pollfds w)" by simp
    then obtain r d' where d': "pl_channels w (ch_fd d') = Some r" "pl_heap w r = Some d'" "ch_index d' = int j"
      "slot_ok (pl_pollfds w ! j) d'" "0 \<le> ch_fd d'" by (rule pl_inv_slot [OF inv])
    with q j have "r \<noteq> q" by auto
    moreover have "ch_fd d' \<noteq> ch_fd c" using reg c d' i False by auto
    ultimately show ?thesis using False j n d' slot_key_ok [OF d'(4,5)] by (simp add: nth_butlast)
  qed
qed

lemma pl_removeChannel_ok:
  assumes inv: "pl_inv w" and c: "pl_heap w p = Some c" and reg: "pl_channels w (ch_fd c) = Some p"
    and silenced: "pl_silenced w p"
  shows "\<exists>q d i. pl_removeChannel True p w = Inr (w\<lparr>pl_heap := (pl_heap w)(q \<mapsto> d\<lparr>ch_index := int i\<rparr>),
      pl_channels := (pl_channels w)(ch_fd c := None),
      pl_pollfds := (butlast (pl_pollfds w))[i := last (pl_pollfds w)]\<rparr>) \<and>
    pl_inv (w\<lparr>pl_heap := (pl_heap w)(q \<mapsto> d\<lparr>ch_index := int i\<rparr>),
      pl_channels := (pl_channels w)(ch_fd c := None),
      pl_pollfds := (butlast (pl_pollfds w))[i := last (pl_pollfds w)]\<rparr>) \<and> pl_heap w q = Some d"
proof -
  from silenced c have none: "isNoneEvent c"
    and ignored: "pfd_fd (pl_pollfds w ! nat (ch_index c)) = - ch_fd c - 1" by (simp_all add: pl_silenced_def)
  obtain i where i: "0 \<le> ch_fd c" "ch_index c = int i" "i < length (pl_pollfds w)" "slot_ok (pl_pollfds w ! i) c"
    using pl_inv_channel [OF inv reg] c by (metis option.inject)
  then obtain k where n: "length (pl_pollfds w) = Suc k" by (cases "length (pl_pollfds w)") auto
  then have lst: "last (pl_pollfds w) = pl_pollfds w ! k" by (metis diff_Suc_1 last_conv_nth length_0_conv nat.simps(3))
  from n have "k < length (pl_pollfds w)" by simp
  then obtain q d where q: "pl_channels w (ch_fd d) = Some q"
    "pl_heap w q = Some d" "ch_index d = int k" "slot_ok (pl_pollfds w ! k) d" "0 \<le> ch_fd d"
    by (rule pl_inv_slot [OF inv])
  have ev: "scast (pfd_events (pl_pollfds w ! i)) = ch_events c"
    using i(4) none by (simp add: slot_ok_def isNoneEvent_def kNoneEvent_def)
  have pos: "\<not> - ch_fd c - 1 = ch_fd c" using i(1) by presburger
  let ?w = "w\<lparr>pl_heap := (pl_heap w)(q \<mapsto> d\<lparr>ch_index := int i\<rparr>),
      pl_channels := (pl_channels w)(ch_fd c := None),
      pl_pollfds := (butlast (pl_pollfds w))[i := last (pl_pollfds w)]\<rparr>"
  have "pl_inv ?w" using q lst by (intro pl_inv_remove [OF inv c reg i(2) n q(1-3)]) simp
  moreover have "pl_removeChannel True p w = Inr ?w"
  proof (cases "i = k")
    case True
    with i(2) q(3) have "ch_index d = ch_index c" by simp
    from pl_inv_unique(2) [OF inv reg c q(1,2) this] have "q = p" .
    with q(2) c have "d = c" by simp
    from i(2) have "c\<lparr>ch_index := int i\<rparr> = c" by (cases c) simp
    with \<open>q = p\<close> \<open>d = c\<close> c have same: "(pl_heap w)(q \<mapsto> d\<lparr>ch_index := int i\<rparr>) = pl_heap w"
      by (simp add: fun_upd_idem)
    have "(butlast (pl_pollfds w))[i := last (pl_pollfds w)] = butlast (pl_pollfds w)"
      using True n by (simp add: list_update_beyond)
    with True i(2,3) n none ignored ev reg show ?thesis unfolding same
      by (simp add: pl_removeChannel_def pl_chan_def c Let_def)
  next
    case False
    have key: "(if pfd_fd (pl_pollfds w ! k) < 0 then - pfd_fd (pl_pollfds w ! k) - 1 else pfd_fd (pl_pollfds w ! k)) = ch_fd d"
      using slot_key_ok [OF q(4,5)] by (simp add: slot_key_def)
    have "ch_fd d \<noteq> ch_fd c" using reg q c i False by auto
    moreover have "butlast ((pl_pollfds w)[i := pl_pollfds w ! k, k := pl_pollfds w ! i]) =
        (butlast (pl_pollfds w))[i := pl_pollfds w ! k]"
      using n False i by (simp add: butlast_list_update)
    ultimately show ?thesis using False i n q key none ignored ev reg
      by (simp add: pl_removeChannel_def pl_chan_def c Let_def lst pl_put_def)
  qed
  ultimately show ?thesis using q(2) by blast
qed

lemma pl_watched_remove:
  assumes inv: "pl_inv w" "pl_inv w'" and reg: "pl_channels w' = (pl_channels w)(fd := None)"
    and heap: "pl_heap w' = (pl_heap w)(q \<mapsto> d\<lparr>ch_index := i\<rparr>)" "pl_heap w q = Some d"
  shows "pl_watched w' = (pl_watched w)(fd := 0)"
proof
  fix g show "pl_watched w' g = ((pl_watched w)(fd := 0)) g"
  proof (cases "pl_channels w' g")
    case None
    with pl_watched_unreg [OF inv(2) None] pl_watched_unreg [OF inv(1), of g] reg show ?thesis by (auto split: if_splits)
  next
    case (Some r)
    with reg have g: "g \<noteq> fd" "pl_channels w g = Some r" by (auto split: if_splits)
    from g(2) obtain c where c: "pl_heap w r = Some c" by (rule pl_inv_channel [OF inv(1)])
    with heap obtain c' where c': "pl_heap w' r = Some c'" "ch_events c' = ch_events c" by (cases "r = q") auto
    from pl_watched_reg [OF inv(2) Some c'(1)] pl_watched_reg [OF inv(1) g(2) c] c' g show ?thesis by simp
  qed
qed

interpretation plc: poller_contract pl_inv pl_heap pl_channels pl_watched pl_can_set
  "pl_set_events True" pl_silenced "pl_removeChannel True"
proof
  fix w :: "'a poller" and p c f
  assume A: "pl_inv w" "pl_heap w p = Some c" "pl_can_set w p (f (ch_events c))"
  from pl_set_events_ok [OF A, of f] obtain w' c' where
    w': "pl_set_events True f p w = Inr w'" "pl_inv w'" "pl_channels w' = (pl_channels w)(ch_fd c \<mapsto> p)"
      "pl_heap w' = (pl_heap w)(p \<mapsto> c')" "ch_fd c' = ch_fd c" "ch_events c' = f (ch_events c)" "same_hooks c' c"
    by blast
  from pl_watched_set [OF A(1) w'(2) A(2) w'(5,3,4)] w'
  show "\<exists>w' c'. pl_set_events True f p w = Inr w' \<and> pl_inv w' \<and>
      pl_watched w' = (pl_watched w)(ch_fd c := f (ch_events c)) \<and>
      pl_channels w' = (pl_channels w)(ch_fd c \<mapsto> p) \<and> pl_heap w' = (pl_heap w)(p \<mapsto> c') \<and>
      ch_fd c' = ch_fd c \<and> ch_events c' = f (ch_events c) \<and> same_hooks c' c" by auto
next
  fix w :: "'a poller" and p c
  assume A: "pl_inv w" "pl_heap w p = Some c" "pl_channels w (ch_fd c) = Some p"
  from A(1,3) have "0 \<le> ch_fd c" by (rule pl_inv_channel)
  with A show "pl_can_set w p 0" by (simp add: pl_can_set_def)
next
  fix w w' :: "'a poller" and p c
  assume A: "pl_inv w" "pl_heap w p = Some c" "pl_channels w (ch_fd c) = Some p"
    "pl_set_events True (\<lambda>_. 0) p w = Inr w'"
  from A(1,3) have "0 \<le> ch_fd c" by (rule pl_inv_channel)
  with A have "pl_can_set w p 0" by (simp add: pl_can_set_def)
  from pl_set_events_ok [OF A(1,2) this, of "\<lambda>_. 0"] A(3,4)
  show "pl_silenced w' p" by (auto simp: pl_silenced_def isNoneEvent_def kNoneEvent_def)
next
  fix w :: "'a poller" and p c
  assume A: "pl_inv w" "pl_heap w p = Some c" "pl_channels w (ch_fd c) = Some p" "pl_silenced w p"
  from pl_removeChannel_ok [OF A] obtain w' q d i where
    w': "pl_removeChannel True p w = Inr w'" "pl_inv w'" "pl_channels w' = (pl_channels w)(ch_fd c := None)"
      "pl_heap w' = (pl_heap w)(q \<mapsto> d\<lparr>ch_index := int i\<rparr>)" "pl_heap w q = Some d" by fastforce
  from w' A(2) obtain c' where "pl_heap w' p = Some c'" "ch_fd c' = ch_fd c" "same_hooks c' c"
    by (cases "p = q") (auto simp: same_hooks_def)
  with w' pl_watched_remove [OF A(1) w'(2-5)]
  show "\<exists>w' c'. pl_removeChannel True p w = Inr w' \<and> pl_inv w' \<and>
      pl_watched w' = (pl_watched w)(ch_fd c := 0) \<and> pl_channels w' = (pl_channels w)(ch_fd c := None) \<and>
      pl_heap w' p = Some c' \<and> ch_fd c' = ch_fd c \<and> same_hooks c' c" by blast
qed

section \<open>Polling with poll\<close>

abbreviation has_events :: "pollfd \<Rightarrow> bool" where "has_events pfd \<equiv> pfd_revents pfd \<noteq> 0"

definition pl_reported :: "(int \<Rightarrow> nat option) \<Rightarrow> pollfd list \<Rightarrow> (flags \<times> nat) list" where
  "pl_reported m pfds = map (\<lambda>pfd. (scast (pfd_revents pfd), the (m (pfd_fd pfd)))) (filter has_events pfds)"

text \<open>
  What \<^verbatim>\<open>poll\<close> may write: no events for an ignored slot (a negative descriptor), and only flags below the sign
  bit; it returns the number of slots with events.
\<close>

definition poll_reports :: "'cb poller \<Rightarrow> 16 word list \<Rightarrow> bool" where
  "poll_reports w revs \<longleftrightarrow> length revs = length (pl_pollfds w) \<and>
    (\<forall>i < length revs. revs ! i \<noteq> 0 \<longrightarrow> 0 \<le> pfd_fd (pl_pollfds w ! i) \<and> 0 < sint (revs ! i))"

lemma pl_fill_ok:
  assumes "\<forall>pfd \<in> set (filter has_events pfds). 0 < sint (pfd_revents pfd) \<and>
      (\<exists>p \<in> dom (pl_heap w). pl_channels w (pfd_fd pfd) = Some p)"
    and "distinct (map snd (pl_reported (pl_channels w) pfds))"
    and "n = int (length (filter has_events pfds))"
  shows "pl_fill pfds n active w = Inr (active @ map snd (pl_reported (pl_channels w) pfds),
    w\<lparr>pl_heap := with_revents (pl_reported (pl_channels w) pfds) (pl_heap w)\<rparr>)"
  using assms
proof (induction pfds arbitrary: n active w)
  case Nil
  have "with_revents [] (pl_heap w) = pl_heap w" by (rule ext) (simp add: with_revents_def)
  then show ?case by (simp add: pl_reported_def)
next
  case (Cons pfd pfds)
  show ?case
  proof (cases "has_events pfd")
    case True
    with Cons.prems obtain p c where p: "pl_channels w (pfd_fd pfd) = Some p" "pl_heap w p = Some c"
      "0 < sint (pfd_revents pfd)" "0 < n" by auto
    let ?r = "pl_reported (pl_channels w) pfds"
    let ?w = "pl_put p (c\<lparr>ch_revents := scast (pfd_revents pfd)\<rparr>) w"
    have rep: "pl_reported (pl_channels w) (pfd # pfds) = (scast (pfd_revents pfd), p) # ?r"
      using True p by (simp add: pl_reported_def)
    have "pl_fill pfds (n - 1) (active @ [p]) ?w = Inr ((active @ [p]) @ map snd (pl_reported (pl_channels ?w) pfds),
        ?w\<lparr>pl_heap := with_revents (pl_reported (pl_channels ?w) pfds) (pl_heap ?w)\<rparr>)"
    proof (rule Cons.IH)
      have "dom (pl_heap ?w) = dom (pl_heap w)" using p(2) by (auto simp: pl_put_def)
      moreover have "pl_channels ?w = pl_channels w" by (simp add: pl_put_def)
      ultimately show "\<forall>pfd \<in> set (filter has_events pfds). 0 < sint (pfd_revents pfd) \<and>
          (\<exists>p \<in> dom (pl_heap ?w). pl_channels ?w (pfd_fd pfd) = Some p)"
        using Cons.prems(1) by simp
    qed (use Cons.prems True rep in \<open>simp_all add: pl_put_def\<close>)
    moreover have "with_revents ?r (pl_heap ?w) = with_revents ((scast (pfd_revents pfd), p) # ?r) (pl_heap w)"
      using Cons.prems(2) rep p(2) by (simp add: pl_put_def with_revents_Cons)
    ultimately show ?thesis using p by (simp add: rep pl_chan_def pl_put_def)
  next
    case False
    then have rep: "pl_reported (pl_channels w) (pfd # pfds) = pl_reported (pl_channels w) pfds"
      by (simp add: pl_reported_def)
    show ?thesis
    proof (cases "n = 0")
      case True
      with False Cons.prems(3) have "filter has_events pfds = []" by (simp add: filter_empty_conv)
      moreover have "with_revents [] (pl_heap w) = pl_heap w" by (rule ext) (simp add: with_revents_def)
      ultimately show ?thesis using True rep by (simp add: pl_reported_def)
    next
      case n: False
      from Cons.IH [of w n active] Cons.prems False rep
      have "pl_fill pfds n active w = Inr (active @ map snd (pl_reported (pl_channels w) pfds),
          w\<lparr>pl_heap := with_revents (pl_reported (pl_channels w) pfds) (pl_heap w)\<rparr>)" by auto
      with n False Cons.prems(3) show ?thesis by (simp add: rep)
    qed
  qed
qed

lemma pl_inv_fds_distinct:
  assumes inv: "pl_inv w" and same: "map pfd_fd fds = map pfd_fd (pl_pollfds w)"
    and pos: "\<forall>pfd \<in> set (filter has_events fds). 0 \<le> pfd_fd pfd"
  shows "distinct (map snd (pl_reported (pl_channels w) fds))"
    and "\<forall>pfd \<in> set (filter has_events fds). \<exists>p \<in> dom (pl_heap w). pl_channels w (pfd_fd pfd) = Some p"
proof -
  have len: "length fds = length (pl_pollfds w)" using same map_eq_imp_length_eq by blast
  have fd: "pfd_fd (fds ! i) = pfd_fd (pl_pollfds w ! i)" if "i < length fds" for i
    using that same len by (metis nth_map)
  have owner: "\<exists>p c. pl_channels w (pfd_fd (fds ! i)) = Some p \<and> pl_heap w p = Some c \<and> ch_index c = int i"
    if i: "i < length fds" "has_events (fds ! i)" for i
  proof -
    from i len have "i < length (pl_pollfds w)" by simp
    then obtain p c where p: "pl_channels w (ch_fd c) = Some p" "pl_heap w p = Some c" "ch_index c = int i"
      "slot_ok (pl_pollfds w ! i) c" "0 \<le> ch_fd c" by (rule pl_inv_slot [OF inv])
    with i pos have "0 \<le> pfd_fd (pl_pollfds w ! i)" by (simp add: fd [symmetric])
    with slot_key_ok [OF p(4,5)] p fd [OF i(1)] show ?thesis by (auto simp: slot_key_def)
  qed
  show "\<forall>pfd \<in> set (filter has_events fds). \<exists>p \<in> dom (pl_heap w). pl_channels w (pfd_fd pfd) = Some p"
    using owner by (fastforce simp: in_set_conv_nth)
  have "inj_on (\<lambda>i. the (pl_channels w (pfd_fd (fds ! i)))) (set (filter (\<lambda>i. has_events (fds ! i)) [0..<length fds]))"
  proof (rule inj_onI)
    fix i j assume i: "i \<in> set (filter (\<lambda>i. has_events (fds ! i)) [0..<length fds])"
      and j: "j \<in> set (filter (\<lambda>i. has_events (fds ! i)) [0..<length fds])"
      and eq: "the (pl_channels w (pfd_fd (fds ! i))) = the (pl_channels w (pfd_fd (fds ! j)))"
    from owner [of i] owner [of j] i j eq show "i = j" by auto
  qed
  moreover have "map snd (pl_reported (pl_channels w) fds) =
      map (\<lambda>i. the (pl_channels w (pfd_fd (fds ! i)))) (filter (\<lambda>i. has_events (fds ! i)) [0..<length fds])"
  proof -
    have "filter has_events fds = map ((!) fds) (filter (\<lambda>i. has_events (fds ! i)) [0..<length fds])"
      using filter_map [of has_events "(!) fds" "[0..<length fds]"] by (simp add: map_nth comp_def)
    then show ?thesis by (simp add: pl_reported_def comp_def)
  qed
  ultimately show "distinct (map snd (pl_reported (pl_channels w) fds))"
    by (simp add: distinct_map)
qed

text \<open>
  On a consistent \<^verbatim>\<open>Poller\<close>, when \<^verbatim>\<open>poll\<close> marks slots that are not ignored and returns their number,
  \<^verbatim>\<open>Poller::poll\<close> fails no assertion, appends exactly the channels of the marked slots in slot order and
  stores the reported events in them and in no other channel.
\<close>

theorem pl_poll_active:
  assumes inv: "pl_inv w" and rep: "poll_reports w revs"
  shows "\<exists>fds. fds = map2 (\<lambda>pfd r. pfd\<lparr>pfd_revents := r\<rparr>) (pl_pollfds w) revs \<and>
    pl_poll (int (length (filter (\<lambda>r. r \<noteq> 0) revs))) revs active w =
      Inr (active @ map snd (pl_reported (pl_channels w) fds),
        w\<lparr>pl_pollfds := fds, pl_heap := with_revents (pl_reported (pl_channels w) fds) (pl_heap w)\<rparr>)"
proof -
  define fds where "fds = map2 (\<lambda>pfd r. pfd\<lparr>pfd_revents := r\<rparr>) (pl_pollfds w) revs"
  from rep have len: "length revs = length (pl_pollfds w)" by (simp add: poll_reports_def)
  have revs: "map pfd_revents fds = revs" and same_fd: "map pfd_fd fds = map pfd_fd (pl_pollfds w)"
    using len by (auto simp: fds_def intro: nth_equalityI)
  have pos: "0 \<le> pfd_fd pfd \<and> 0 < sint (pfd_revents pfd)" if pfd: "pfd \<in> set (filter has_events fds)" for pfd
  proof -
    from pfd obtain i where "i < length revs" "pfd = fds ! i" "has_events pfd" using len by (auto simp: in_set_conv_nth fds_def)
    with rep len show ?thesis by (auto simp: poll_reports_def fds_def)
  qed
  have n: "length (filter (\<lambda>r. r \<noteq> 0) revs) = length (filter has_events fds)"
    by (subst revs [symmetric]) (simp add: filter_map comp_def)
  note distinct = pl_inv_fds_distinct [OF inv same_fd]
  have "pl_fill fds (int (length (filter has_events fds))) active (w\<lparr>pl_pollfds := fds\<rparr>) =
      Inr (active @ map snd (pl_reported (pl_channels w) fds),
        w\<lparr>pl_pollfds := fds, pl_heap := with_revents (pl_reported (pl_channels w) fds) (pl_heap w)\<rparr>)"
    using pl_fill_ok [of fds "w\<lparr>pl_pollfds := fds\<rparr>" _ active] pos distinct by simp
  moreover have "filter has_events fds = [] \<Longrightarrow> with_revents (pl_reported (pl_channels w) fds) (pl_heap w) = pl_heap w"
    by (rule ext) (simp add: pl_reported_def with_revents_def)
  ultimately have "pl_poll (int (length (filter (\<lambda>r. r \<noteq> 0) revs))) revs active w =
      Inr (active @ map snd (pl_reported (pl_channels w) fds),
        w\<lparr>pl_pollfds := fds, pl_heap := with_revents (pl_reported (pl_channels w) fds) (pl_heap w)\<rparr>)"
    by (cases "filter has_events fds = []") (simp_all add: pl_poll_def n fds_def [symmetric] Let_def pl_reported_def)
  with fds_def show ?thesis by blast
qed

text \<open>
  C30: A \<^verbatim>\<open>Poller\<close> keeps its slot table consistent when a registered channel is closed down: \<^verbatim>\<open>disableAll\<close> and
  then \<^verbatim>\<open>removeChannel\<close>, which moves the last slot into the freed one and renumbers its channel, fail no
  assertion, forget the descriptor and leave what is watched for every other descriptor as it was.
\<close>

theorem pl_close_down:
  assumes "pl_inv w" and "pl_heap w p = Some c" and "pl_channels w (ch_fd c) = Some p"
  shows "\<exists>w1 w2. pl_set_events True ev_disableAll p w = Inr w1 \<and> pl_removeChannel True p w1 = Inr w2 \<and>
    pl_inv w2 \<and> pl_watched w2 = (pl_watched w)(ch_fd c := 0) \<and> pl_channels w2 = (pl_channels w)(ch_fd c := None)"
proof -
  have "ev_disableAll = (\<lambda>_. 0)" by (auto simp: ev_disableAll_def kNoneEvent_def)
  with plc.close_down [OF assms] show ?thesis by auto
qed

text \<open>
  Once a registered channel was silenced no slot holds its descriptor, and no operation of the poller but the removal of
  the channel puts it back: \<^verbatim>\<open>updateChannel\<close> stores a descriptor in a slot only when it appends the slot of a new channel.
\<close>

datatype poller_op = OpSet nat "flags \<Rightarrow> flags" | OpRemove nat | OpPoll int "16 word list"

definition pl_op :: "'cb poller \<Rightarrow> poller_op \<Rightarrow> 'cb poller res" where
  "pl_op w e = (case e of
     OpSet p f \<Rightarrow> pl_set_events True f p w
   | OpRemove p \<Rightarrow> pl_removeChannel True p w
   | OpPoll n revs \<Rightarrow> rbind (pl_poll n revs [] w) (\<lambda>(active, w). Inr w))"

definition pl_fds_valid :: "'cb poller \<Rightarrow> bool" where
  "pl_fds_valid w \<longleftrightarrow> (\<forall>p c. pl_heap w p = Some c \<longrightarrow> 0 \<le> ch_fd c)"

definition pl_ignored :: "int \<Rightarrow> nat \<Rightarrow> 'cb poller \<Rightarrow> bool" where
  "pl_ignored fd p w \<longleftrightarrow> pl_fds_valid w \<and> pl_channels w fd = Some p \<and> (\<forall>pfd \<in> set (pl_pollfds w). pfd_fd pfd \<noteq> fd) \<and>
    (\<exists>c. pl_heap w p = Some c \<and> ch_fd c = fd \<and> 0 \<le> ch_index c)"

lemma pl_ignored_unwatched: "pl_ignored fd p w \<Longrightarrow> pl_watched w fd = 0"
proof -
  assume "pl_ignored fd p w"
  then have "find (\<lambda>pfd. pfd_fd pfd = fd) (pl_pollfds w) = None" unfolding find_None_iff by (auto simp: pl_ignored_def)
  then show ?thesis by (simp add: pl_watched_def)
qed

lemma set_events_ignored:
  assumes "pl_ignored fd p w" and "pl_set_events True f q w = Inr w'"
  shows "pl_ignored fd p w'"
proof -
  from assms(2) obtain d where d: "pl_heap w q = Some d"
    by (auto simp: pl_set_events_def pl_chan_def res_Inr_iffs split: option.splits)
  with assms(1) have fd: "0 \<le> ch_fd d" "q = p \<Longrightarrow> 0 \<le> ch_index d \<and> ch_fd d = fd" "0 \<le> fd"
    by (auto simp: pl_ignored_def pl_fds_valid_def)
  let ?d = "d\<lparr>ch_events := f (ch_events d)\<rparr>"
  show ?thesis
  proof (cases "ch_index d < 0")
    case True
    then have w': "pl_channels w (ch_fd d) = None" "w' = w\<lparr>pl_heap := (pl_heap w)(q \<mapsto> ?d\<lparr>ch_index := int (length (pl_pollfds w))\<rparr>),
        pl_pollfds := pl_pollfds w @ [\<lparr>pfd_fd = ch_fd d, pfd_events = ucast (f (ch_events d)), pfd_revents = 0\<rparr>],
        pl_channels := (pl_channels w)(ch_fd d \<mapsto> q)\<rparr>"
      using assms(2) d by (auto simp: pl_set_events_def pl_updateChannel_def pl_chan_def pl_put_def Let_def res_Inr_iffs)
    with assms(1) True fd show ?thesis by (auto simp: pl_ignored_def pl_fds_valid_def)
  next
    case False
    then obtain v where w': "w' = w\<lparr>pl_heap := (pl_heap w)(q \<mapsto> ?d), pl_pollfds := (pl_pollfds w)[nat (ch_index d) := v]\<rparr>"
      and v: "pfd_fd v = pfd_fd (pl_pollfds w ! nat (ch_index d)) \<or> pfd_fd v = - ch_fd d - 1"
      and idx: "nat (ch_index d) < length (pl_pollfds w)"
      using assms(2) d by (auto simp: pl_set_events_def pl_updateChannel_def pl_chan_def pl_put_def Let_def res_Inr_iffs split: if_splits)
    from idx have "pl_pollfds w ! nat (ch_index d) \<in> set (pl_pollfds w)" by simp
    with v fd(1,3) assms(1) have "pfd_fd v \<noteq> fd" by (auto simp: pl_ignored_def)
    then have "\<forall>pfd \<in> set ((pl_pollfds w)[nat (ch_index d) := v]). pfd_fd pfd \<noteq> fd"
      using assms(1) set_update_subset_insert [of "pl_pollfds w" "nat (ch_index d)" v] by (auto simp: pl_ignored_def)
    with assms(1) fd False show ?thesis by (auto simp: pl_ignored_def pl_fds_valid_def w')
  qed
qed

lemma butlast_swap_subset: "set (butlast (xs[i := last xs, length xs - 1 := x])) \<subseteq> set xs \<union> {x}"
proof -
  have "set (xs[i := last xs]) \<subseteq> set xs"
    by (cases xs rule: rev_cases) (use set_update_subset_insert [of xs i "last xs"] in auto)
  with set_update_subset_insert [of "xs[i := last xs]" "length xs - 1" x] show ?thesis by (auto dest: in_set_butlastD)
qed

lemma removeChannel_ignored:
  assumes ign: "pl_ignored fd p w" and run: "pl_removeChannel True q w = Inr w'" and "q \<noteq> p"
  shows "pl_ignored fd p w'"
proof -
  from run obtain d where d: "pl_heap w q = Some d" "pl_channels w (ch_fd d) = Some q" "nat (ch_index d) < length (pl_pollfds w)"
    by (auto simp: pl_removeChannel_def pl_chan_def Let_def res_Inr_iffs split: option.splits)
  with ign \<open>q \<noteq> p\<close> have other: "ch_fd d \<noteq> fd" by (auto simp: pl_ignored_def)
  let ?i = "nat (ch_index d)" and ?fds = "pl_pollfds w"
  have sub: "set (butlast ?fds) \<subseteq> set ?fds" "set (butlast (?fds[?i := last ?fds, length ?fds - 1 := ?fds ! ?i])) \<subseteq> set ?fds"
    using butlast_swap_subset [of ?fds ?i "?fds ! ?i"] d(3) by (auto dest: in_set_butlastD)
  from run d have "set (pl_pollfds w') \<subseteq> set ?fds \<and> pl_channels w' = (pl_channels w)(ch_fd d := None) \<and>
      (\<forall>r. pl_heap w r = None \<longrightarrow> pl_heap w' r = None) \<and>
      (\<forall>r e. pl_heap w r = Some e \<longrightarrow> (\<exists>e'. pl_heap w' r = Some e' \<and> ch_fd e' = ch_fd e \<and> (0 \<le> ch_index e \<longrightarrow> 0 \<le> ch_index e')))"
    using sub by (auto simp: pl_removeChannel_def pl_chan_def pl_put_def Let_def res_Inr_iffs split: option.splits if_splits)
  moreover from this have "\<forall>r e'. pl_heap w' r = Some e' \<longrightarrow> (\<exists>e. pl_heap w r = Some e \<and> ch_fd e' = ch_fd e)"
    by (metis option.exhaust option.inject option.distinct(1))
  ultimately show ?thesis using ign other unfolding pl_ignored_def pl_fds_valid_def by fastforce
qed

lemma pl_fill_ignored: "pl_ignored fd p w \<Longrightarrow> pl_fill pfds n active w = Inr (active', w') \<Longrightarrow> pl_ignored fd p w'"
proof (induction pfds n active w rule: pl_fill.induct)
  case (2 pfd pfds n active w)
  have "pl_ignored fd p (pl_put q (c\<lparr>ch_revents := r\<rparr>) w)" if "pl_heap w q = Some c" for q c r
    using 2(3) that by (auto simp: pl_ignored_def pl_fds_valid_def pl_put_def)
  with 2(3,4) show ?case
    by (auto simp: pl_chan_def res_Inr_iffs split: if_splits option.splits intro: 2(1,2))
qed simp

lemma poll_ignored:
  assumes ign: "pl_ignored fd p w" and run: "pl_poll n revs active w = Inr (active', w')"
  shows "pl_ignored fd p w'"
proof -
  let ?fds = "map2 (\<lambda>pfd r. pfd\<lparr>pfd_revents := r\<rparr>) (pl_pollfds w) revs"
  have "\<forall>pfd \<in> set ?fds. pfd_fd pfd \<noteq> fd" using ign by (auto simp: pl_ignored_def dest: set_zip_leftD)
  with ign have "pl_ignored fd p (w\<lparr>pl_pollfds := ?fds\<rparr>)" unfolding pl_ignored_def pl_fds_valid_def by simp
  with run show ?thesis by (auto simp: pl_poll_def Let_def split: if_splits dest: pl_fill_ignored)
qed

lemma run_ignored:
  "pl_ignored fd p w \<Longrightarrow> run_steps pl_op w ops = Inr w' \<Longrightarrow> OpRemove p \<notin> set ops \<Longrightarrow> pl_ignored fd p w'"
proof (induction ops arbitrary: w)
  case (Cons e ops)
  from Cons.prems(2) obtain w1 where w1: "pl_op w e = Inr w1" "run_steps pl_op w1 ops = Inr w'" by (auto simp: res_Inr_iffs)
  have "pl_ignored fd p w1" using Cons.prems(1,3) w1(1)
    by (cases e) (auto simp: pl_op_def res_Inr_iffs intro: set_events_ignored removeChannel_ignored poll_ignored)
  with Cons.IH w1(2) Cons.prems(3) show ?case by simp
qed simp

text \<open>Setting the interest of the channel itself keeps succeeding.\<close>

lemma own_updates:
  assumes "pl_heap w p = Some c" and "ch_index c = int i" "i < length (pl_pollfds w)" "pl_channels w (ch_fd c) = Some p"
    and "pfd_fd (pl_pollfds w ! i) = - ch_fd c - 1"
  shows "\<exists>w'. run_steps pl_op w (map (OpSet p) fs) = Inr w' \<and>
    map_option ch_events (pl_heap w' p) = Some (fold (\<lambda>f. f) fs (ch_events c))"
  using assms
proof (induction fs arbitrary: w c)
  case (Cons f fs)
  let ?c = "c\<lparr>ch_events := f (ch_events c)\<rparr>"
  from Cons.prems obtain w1 where w1: "pl_set_events True f p w = Inr w1" "pl_heap w1 p = Some ?c" "pl_channels w1 = pl_channels w"
    "length (pl_pollfds w1) = length (pl_pollfds w)" "pfd_fd (pl_pollfds w1 ! i) = - ch_fd c - 1"
    by (simp add: pl_set_events_def pl_chan_def pl_put_def pl_updateChannel_def Let_def)
  with Cons.IH [of w1 ?c] Cons.prems show ?case by (simp add: pl_op_def)
qed simp

text \<open>
  C33: A registered channel of a \<^verbatim>\<open>Poller\<close> that was once silenced with \<^verbatim>\<open>disableAll\<close> is not watched again as long as it is
  registered: whatever interest is set afterwards, on this channel (\<^verbatim>\<open>enableReading\<close>, \<^verbatim>\<open>enableWriting\<close> or any other, any number
  of times) and on others, whatever polls return and whatever other channels are removed, no slot holds its
  descriptor, so the kernel is asked for nothing on it. The updates of the channel itself succeed and change
  \<^verbatim>\<open>events_\<close>. Every channel object is assumed to have a descriptor that is not negative.
\<close>

theorem pl_reenable_is_lost:
  assumes inv: "pl_inv w" and c: "pl_heap w p = Some c" and reg: "pl_channels w (ch_fd c) = Some p" and fds: "pl_fds_valid w"
  shows "\<exists>w1. pl_set_events True ev_disableAll p w = Inr w1 \<and>
    (\<forall>ops w2. run_steps pl_op w1 ops = Inr w2 \<and> OpRemove p \<notin> set ops \<longrightarrow> pl_watched w2 (ch_fd c) = 0) \<and>
    (\<forall>fs. \<exists>w2. run_steps pl_op w1 (map (OpSet p) fs) = Inr w2 \<and> pl_watched w2 (ch_fd c) = 0 \<and>
      map_option ch_events (pl_heap w2 p) = Some (fold (\<lambda>f. f) fs 0))"
proof -
  have all: "ev_disableAll = (\<lambda>_. 0)" by (auto simp: ev_disableAll_def kNoneEvent_def)
  from plc.silence_law [OF inv c reg] have can: "pl_can_set w p 0" .
  from plc.set_law [OF inv c, of "\<lambda>_. 0"] can obtain w1 c1 where
    w1: "pl_set_events True (\<lambda>_. 0) p w = Inr w1" "pl_inv w1" "pl_channels w1 = (pl_channels w)(ch_fd c \<mapsto> p)"
      "pl_heap w1 = (pl_heap w)(p \<mapsto> c1)" "ch_fd c1 = ch_fd c" "ch_events c1 = 0" by blast
  from w1(3-5) have c1: "pl_heap w1 p = Some c1" and reg1: "pl_channels w1 (ch_fd c1) = Some p" by simp_all
  obtain i where i: "ch_index c1 = int i" "i < length (pl_pollfds w1)"
    using pl_inv_channel [OF w1(2) reg1] c1 by (metis option.inject)
  from plc.silenced_law [OF inv c reg w1(1)] c1 i have slot: "pfd_fd (pl_pollfds w1 ! i) = - ch_fd c1 - 1"
    by (simp add: pl_silenced_def)
  have "\<forall>pfd \<in> set (pl_pollfds w1). pfd_fd pfd \<noteq> ch_fd c1"
  proof (intro ballI notI)
    fix pfd
    assume "pfd \<in> set (pl_pollfds w1)" and fd: "pfd_fd pfd = ch_fd c1"
    then obtain j where j: "j < length (pl_pollfds w1)" "pfd_fd (pl_pollfds w1 ! j) = ch_fd c1" by (auto simp: in_set_conv_nth)
    from j(1) obtain q d where d: "pl_channels w1 (ch_fd d) = Some q" "pl_heap w1 q = Some d"
      "ch_index d = int j" "slot_ok (pl_pollfds w1 ! j) d" "0 \<le> ch_fd d" by (rule pl_inv_slot [OF w1(2)])
    have nonneg: "0 \<le> ch_fd c1" using pl_inv_channel [OF w1(2) reg1] by blast
    with slot_key_ok [OF d(4,5)] j(2) have "ch_fd d = ch_fd c1" by (simp add: slot_key_def)
    with d reg1 c1 i have "j = i" by simp
    with slot j(2) nonneg show False by simp
  qed
  moreover have "pl_fds_valid w1" using fds c w1(4,5) by (auto simp: pl_fds_valid_def)
  ultimately have ign: "pl_ignored (ch_fd c) p w1" using c1 reg1 i(1) w1(5) by (auto simp: pl_ignored_def)
  have "\<forall>ops w2. run_steps pl_op w1 ops = Inr w2 \<and> OpRemove p \<notin> set ops \<longrightarrow> pl_watched w2 (ch_fd c) = 0"
    using run_ignored [OF ign] by (blast intro: pl_ignored_unwatched)
  moreover have "OpRemove p \<notin> set (map (OpSet p) fs)" for fs by auto
  ultimately show ?thesis using own_updates [OF c1 i reg1 slot] w1(1,6) unfolding all by metis
qed

section \<open>Sample states\<close>

definition sample_channel :: "int \<Rightarrow> flags \<Rightarrow> int \<Rightarrow> unit channel" where
  "sample_channel fd e i = (new_Channel fd)\<lparr>ch_events := e, ch_index := i\<rparr>"

definition sample_epoller :: "unit epoller" where
  "sample_epoller = \<lparr>ep_heap = [1 \<mapsto> sample_channel 5 3 kAdded], ep_channels = [5 \<mapsto> 1],
     ep_interest = [5 \<mapsto> (3, 1)], ep_events_size = 1, ep_refuses = (\<lambda>_ _. False)\<rparr>"

definition sample_poller :: "unit poller" where
  "sample_poller = \<lparr>pl_heap = [1 \<mapsto> sample_channel 5 3 0, 2 \<mapsto> sample_channel 6 4 1], pl_channels = [5 \<mapsto> 1, 6 \<mapsto> 2],
     pl_pollfds = [\<lparr>pfd_fd = 5, pfd_events = 3, pfd_revents = 0\<rparr>, \<lparr>pfd_fd = 6, pfd_events = 4, pfd_revents = 0\<rparr>]\<rparr>"

lemma sample_epoller_inv: "ep_inv sample_epoller"
  by (auto simp: ep_inv_def sample_epoller_def sample_channel_def new_Channel_def split: if_splits)

lemma sample_poller_inv: "pl_inv sample_poller"
proof -
  have len: "length (pl_pollfds sample_poller) = 2" by (simp add: sample_poller_def)
  have "slot_ok (pl_pollfds sample_poller ! 0) (sample_channel 5 3 0)"
    "slot_ok (pl_pollfds sample_poller ! 1) (sample_channel 6 4 1)"
    by (simp_all add: slot_ok_def sample_poller_def sample_channel_def new_Channel_def)
  then show ?thesis
    unfolding pl_inv_def len less_2_cases_iff
    by (simp add: sample_poller_def slot_key_def sample_channel_def new_Channel_def valid_events_def)
qed

theorem ep_poll_active_witness:
  "\<exists>w'. ep_poll (WaitOk [(POLLIN, 1)]) [] sample_epoller = Inr ([1], w') \<and> ep_events_size w' = 2"
  using ep_poll_active [OF sample_epoller_inv, of "[(POLLIN, 1)]" "[]"]
  by (force simp: epoll_reports_def sample_epoller_def)

theorem ep_close_down_witness:
  "\<exists>w1 w2. ep_set_events True ev_disableAll 1 sample_epoller = Inr w1 \<and> ep_removeChannel True 1 w1 = Inr w2 \<and>
    ep_channels w2 5 = None"
  using ep_close_down [OF sample_epoller_inv, of 1 "sample_channel 5 3 kAdded"]
  by (force simp: sample_epoller_def sample_channel_def new_Channel_def)

theorem pl_poll_active_witness:
  "\<exists>w'. pl_poll 1 [0, 4] [] sample_poller = Inr ([2], w')"
  using pl_poll_active [OF sample_poller_inv, of "[0, 4]" "[]"]
  by (simp add: poll_reports_def sample_poller_def All_less_Suc pl_reported_def)

theorem pl_close_down_witness:
  "\<exists>w1 w2. pl_set_events True ev_disableAll 1 sample_poller = Inr w1 \<and> pl_removeChannel True 1 w1 = Inr w2 \<and>
    pl_channels w2 5 = None"
  using pl_close_down [OF sample_poller_inv, of 1 "sample_channel 5 3 0"]
  by (force simp: sample_poller_def sample_channel_def new_Channel_def)

theorem pl_reenable_is_lost_witness:
  "\<exists>w1 w2. pl_set_events True ev_disableAll 1 sample_poller = Inr w1 \<and>
    run_steps pl_op w1 [OpSet 1 ev_enableReading, OpSet 1 ev_enableWriting] = Inr w2 \<and>
    map_option ch_events (pl_heap w2 1) = Some (ev_enableWriting (ev_enableReading 0)) \<and> pl_watched w2 5 = 0"
proof -
  have c: "pl_heap sample_poller 1 = Some (sample_channel 5 3 0)" "pl_channels sample_poller (ch_fd (sample_channel 5 3 0)) = Some 1"
    "ch_fd (sample_channel 5 3 0) = 5" by (simp_all add: sample_poller_def sample_channel_def new_Channel_def)
  have "pl_fds_valid sample_poller"
    by (simp add: pl_fds_valid_def sample_poller_def sample_channel_def new_Channel_def)
  from pl_reenable_is_lost [OF sample_poller_inv c(1,2) this] obtain w1 where
    w1: "pl_set_events True ev_disableAll 1 sample_poller = Inr w1"
    "\<forall>fs. \<exists>w2. run_steps pl_op w1 (map (OpSet 1) fs) = Inr w2 \<and> pl_watched w2 5 = 0 \<and>
      map_option ch_events (pl_heap w2 1) = Some (fold (\<lambda>f. f) fs 0)" using c(3) by auto
  from w1(2) [rule_format, of "[ev_enableReading, ev_enableWriting]"] obtain w2 where
    "run_steps pl_op w1 [OpSet 1 ev_enableReading, OpSet 1 ev_enableWriting] = Inr w2" "pl_watched w2 5 = 0"
    "map_option ch_events (pl_heap w2 1) = Some (ev_enableWriting (ev_enableReading 0))"
    by (simp del: run_steps.simps) blast
  with w1(1) show ?thesis by blast
qed

end
