(* ===== verification/EventLoop.thy ===== *)
theory EventLoop
  imports Pollers
begin

text \<open>
  The event loop (\<^verbatim>\<open>src/src/EventLoop.hpp\<close>, \<^verbatim>\<open>EventLoop.cpp\<close>): polling, dispatch to channels, functors queued from
  other threads, the wakeup eventfd. What callbacks and functors do is client code: \<open>run\<close>, \<open>run_read\<close> and
  \<open>run_fn\<close> are arguments. Threads are numbers. The second half models the interleaving of the loop's thread
  with threads that call \<^verbatim>\<open>queueInLoop\<close>, where the lock around \<^verbatim>\<open>pendingFunctors_\<close> and the write to the
  eventfd are separate steps.
\<close>

section \<open>Model\<close>

record ('cb, 'fn) event_loop =
  el_looping :: bool
  el_quit :: bool
  el_callingPendingFunctors :: bool
  el_threadId :: nat
  el_pollReturnTime :: time_point
  el_poller :: "'cb epoller"
  el_wakeupChannel :: nat
  el_activeChannels :: "nat list"
  el_pendingFunctors :: "'fn list"
  el_wakeups :: nat

text \<open>The operations are those of every record that extends this one, as the loop with its timer queue does.\<close>

type_synonym ('cb, 'fn, 'z) eloop = "('cb, 'fn, 'z) event_loop_scheme"

definition isInLoopThread :: "nat \<Rightarrow> ('cb, 'fn, 'z) eloop \<Rightarrow> bool" where
  "isInLoopThread tid s \<longleftrightarrow> el_threadId s = tid"

definition createEventfd :: "int \<Rightarrow> int res" where
  "createEventfd evtfd = guard (0 \<le> evtfd) (LogFatal ''Failed in eventfd'') (Inr evtfd)"

text \<open>
  The constructor, in the thread \<open>tid\<close>: \<open>other\<close> is whether that thread already has a loop, \<open>pw\<close> the address of
  the wakeup channel, \<open>cb\<close> its read callback. The wakeup channel is put into the poller's heap and registered.
\<close>

definition new_EventLoop :: "nat \<Rightarrow> bool \<Rightarrow> 'cb epoller \<Rightarrow> int \<Rightarrow> nat \<Rightarrow> 'cb \<Rightarrow> ('cb, 'fn) event_loop res" where
  "new_EventLoop tid other poller evtfd pw cb =
    rbind (createEventfd evtfd) (\<lambda>wakeupFd.
    guard (\<not> other) (LogFatal ''Another EventLoop exists in this thread'')
   (rbind (ep_set_events True ev_enableReading pw
       (ep_put pw (setReadCallback cb (new_Channel wakeupFd)) poller)) (\<lambda>poller.
    Inr \<lparr>el_looping = False, el_quit = False, el_callingPendingFunctors = False, el_threadId = tid,
         el_pollReturnTime = 0, el_poller = poller, el_wakeupChannel = pw, el_activeChannels = [],
         el_pendingFunctors = [], el_wakeups = 0\<rparr>)))"

definition destroy_EventLoop :: "('cb, 'fn, 'z) eloop \<Rightarrow> unit res" where
  "destroy_EventLoop s = guard (\<not> el_looping s) (AssertFail ''!looping_'') (Inr ())"

text \<open>
  \<^verbatim>\<open>wakeup\<close> adds 1 to the counter of the eventfd, which stops below \<open>2 ^ 64 - 1\<close> (the nonblocking write then
  fails and is logged); \<^verbatim>\<open>handleRead\<close> reads and clears it.
\<close>

definition el_wakeup :: "('cb, 'fn, 'z) eloop \<Rightarrow> ('cb, 'fn, 'z) eloop" where
  "el_wakeup s = (if el_wakeups s + 1 < two64 - 1 then s\<lparr>el_wakeups := el_wakeups s + 1\<rparr> else s)"

definition el_handleRead :: "('cb, 'fn, 'z) eloop \<Rightarrow> ('cb, 'fn, 'z) eloop" where
  "el_handleRead s = s\<lparr>el_wakeups := 0\<rparr>"

text \<open>The two parts of \<^verbatim>\<open>queueInLoop\<close>: under the lock, and after it.\<close>

definition el_push :: "'fn \<Rightarrow> ('cb, 'fn, 'z) eloop \<Rightarrow> ('cb, 'fn, 'z) eloop" where
  "el_push f s = s\<lparr>el_pendingFunctors := el_pendingFunctors s @ [f]\<rparr>"

definition el_wake_if :: "nat \<Rightarrow> ('cb, 'fn, 'z) eloop \<Rightarrow> ('cb, 'fn, 'z) eloop" where
  "el_wake_if tid s = (if \<not> isInLoopThread tid s \<or> el_callingPendingFunctors s then el_wakeup s else s)"

definition queueInLoop :: "nat \<Rightarrow> 'fn \<Rightarrow> ('cb, 'fn, 'z) eloop \<Rightarrow> ('cb, 'fn, 'z) eloop" where
  "queueInLoop tid f s = el_wake_if tid (el_push f s)"

definition runInLoop ::
  "('fn \<Rightarrow> ('cb, 'fn, 'z) eloop \<Rightarrow> ('cb, 'fn, 'z) eloop res) \<Rightarrow> nat \<Rightarrow> 'fn \<Rightarrow> ('cb, 'fn, 'z) eloop \<Rightarrow> ('cb, 'fn, 'z) eloop res" where
  "runInLoop run_fn tid f s = (if isInLoopThread tid s then run_fn f s else Inr (queueInLoop tid f s))"

definition el_quit_call :: "nat \<Rightarrow> ('cb, 'fn, 'z) eloop \<Rightarrow> ('cb, 'fn, 'z) eloop" where
  "el_quit_call tid s = (let s = s\<lparr>el_quit := True\<rparr> in if isInLoopThread tid s then s else el_wakeup s)"

definition el_updateChannel :: "nat \<Rightarrow> nat \<Rightarrow> ('cb, 'fn, 'z) eloop \<Rightarrow> ('cb, 'fn, 'z) eloop res" where
  "el_updateChannel tid p s =
    assertInLoopThread (isInLoopThread tid s)
   (rbind (ep_updateChannel (isInLoopThread tid s) p (el_poller s)) (\<lambda>w. Inr (s\<lparr>el_poller := w\<rparr>)))"

definition el_removeChannel :: "nat \<Rightarrow> nat \<Rightarrow> ('cb, 'fn, 'z) eloop \<Rightarrow> ('cb, 'fn, 'z) eloop res" where
  "el_removeChannel tid p s =
    assertInLoopThread (isInLoopThread tid s)
   (rbind (ep_removeChannel (isInLoopThread tid s) p (el_poller s)) (\<lambda>w. Inr (s\<lparr>el_poller := w\<rparr>)))"

definition el_get :: "nat \<Rightarrow> ('cb, 'fn, 'z) eloop \<Rightarrow> 'cb channel" where
  "el_get p s = (case ep_heap (el_poller s) p of Some c \<Rightarrow> c | None \<Rightarrow> new_Channel (-1))"

definition el_put :: "nat \<Rightarrow> ('cb channel \<Rightarrow> 'cb channel) \<Rightarrow> ('cb, 'fn, 'z) eloop \<Rightarrow> ('cb, 'fn, 'z) eloop" where
  "el_put p g s = s\<lparr>el_poller := ep_put p (g (el_get p s)) (el_poller s)\<rparr>"

fun handle_active ::
  "('cb \<Rightarrow> ('cb, 'fn, 'z) eloop \<Rightarrow> ('cb, 'fn, 'z) eloop res) \<Rightarrow>
   ('cb \<Rightarrow> time_point \<Rightarrow> ('cb, 'fn, 'z) eloop \<Rightarrow> ('cb, 'fn, 'z) eloop res) \<Rightarrow>
   nat list \<Rightarrow> ('cb, 'fn, 'z) eloop \<Rightarrow> ('cb, 'fn, 'z) eloop res" where
  "handle_active run run_read [] s = Inr s"
| "handle_active run run_read (p # ps) s =
    rbind (ep_chan (el_poller s) p) (\<lambda>_.
    rbind (handleEvent (el_get p) (el_put p) run run_read (el_pollReturnTime s) s)
      (handle_active run run_read ps))"

fun run_functors ::
  "('fn \<Rightarrow> ('cb, 'fn, 'z) eloop \<Rightarrow> ('cb, 'fn, 'z) eloop res) \<Rightarrow> 'fn list \<Rightarrow> ('cb, 'fn, 'z) eloop \<Rightarrow> ('cb, 'fn, 'z) eloop res" where
  "run_functors run_fn [] s = Inr s"
| "run_functors run_fn (f # fs) s = rbind (run_fn f s) (run_functors run_fn fs)"

definition doPendingFunctors ::
  "('fn \<Rightarrow> ('cb, 'fn, 'z) eloop \<Rightarrow> ('cb, 'fn, 'z) eloop res) \<Rightarrow> ('cb, 'fn, 'z) eloop \<Rightarrow> ('cb, 'fn, 'z) eloop res" where
  "doPendingFunctors run_fn s =
    (let functors = el_pendingFunctors s;
         s = s\<lparr>el_callingPendingFunctors := True, el_pendingFunctors := []\<rparr>
     in rbind (run_functors run_fn functors s) (\<lambda>s. Inr (s\<lparr>el_callingPendingFunctors := False\<rparr>)))"

text \<open>One pass of the loop body; \<open>r\<close> is what \<^verbatim>\<open>epoll_wait\<close> returned and \<open>now\<close> the time read after it.\<close>

definition loop_body ::
  "('cb \<Rightarrow> ('cb, 'fn, 'z) eloop \<Rightarrow> ('cb, 'fn, 'z) eloop res) \<Rightarrow>
   ('cb \<Rightarrow> time_point \<Rightarrow> ('cb, 'fn, 'z) eloop \<Rightarrow> ('cb, 'fn, 'z) eloop res) \<Rightarrow>
   ('fn \<Rightarrow> ('cb, 'fn, 'z) eloop \<Rightarrow> ('cb, 'fn, 'z) eloop res) \<Rightarrow>
   wait_result \<times> time_point \<Rightarrow> ('cb, 'fn, 'z) eloop \<Rightarrow> ('cb, 'fn, 'z) eloop res" where
  "loop_body run run_read run_fn rn s =
    rbind (ep_poll (fst rn) [] (el_poller s)) (\<lambda>(active, w).
    let s = s\<lparr>el_poller := w, el_activeChannels := active, el_pollReturnTime := snd rn\<rparr> in
    rbind (handle_active run run_read active s) (doPendingFunctors run_fn))"

text \<open>The loop, for as many returns of \<^verbatim>\<open>epoll_wait\<close> as are given; the flag says whether it has stopped.\<close>

fun loop_while ::
  "('cb \<Rightarrow> ('cb, 'fn, 'z) eloop \<Rightarrow> ('cb, 'fn, 'z) eloop res) \<Rightarrow>
   ('cb \<Rightarrow> time_point \<Rightarrow> ('cb, 'fn, 'z) eloop \<Rightarrow> ('cb, 'fn, 'z) eloop res) \<Rightarrow>
   ('fn \<Rightarrow> ('cb, 'fn, 'z) eloop \<Rightarrow> ('cb, 'fn, 'z) eloop res) \<Rightarrow>
   (wait_result \<times> time_point) list \<Rightarrow> ('cb, 'fn, 'z) eloop \<Rightarrow> (bool \<times> ('cb, 'fn, 'z) eloop) res" where
  "loop_while run run_read run_fn rs s =
    (if el_quit s then Inr (True, s\<lparr>el_looping := False\<rparr>)
     else case rs of [] \<Rightarrow> Inr (False, s)
       | r # rs' \<Rightarrow> rbind (loop_body run run_read run_fn r s) (loop_while run run_read run_fn rs'))"

definition loop ::
  "('cb \<Rightarrow> ('cb, 'fn, 'z) eloop \<Rightarrow> ('cb, 'fn, 'z) eloop res) \<Rightarrow>
   ('cb \<Rightarrow> time_point \<Rightarrow> ('cb, 'fn, 'z) eloop \<Rightarrow> ('cb, 'fn, 'z) eloop res) \<Rightarrow>
   ('fn \<Rightarrow> ('cb, 'fn, 'z) eloop \<Rightarrow> ('cb, 'fn, 'z) eloop res) \<Rightarrow>
   nat \<Rightarrow> (wait_result \<times> time_point) list \<Rightarrow> ('cb, 'fn, 'z) eloop \<Rightarrow> (bool \<times> ('cb, 'fn, 'z) eloop) res" where
  "loop run run_read run_fn tid rs s =
    guard (\<not> el_looping s) (AssertFail ''!looping_'')
   (assertInLoopThread (isInLoopThread tid s)
   (loop_while run run_read run_fn rs (s\<lparr>el_looping := True, el_quit := False\<rparr>)))"

declare loop_while.simps [simp del]

section \<open>A quit before the loop starts\<close>

text \<open>Client code that never calls \<^verbatim>\<open>quit\<close>.\<close>

definition no_quit :: "('a \<Rightarrow> ('cb, 'fn, 'z) eloop \<Rightarrow> ('cb, 'fn, 'z) eloop res) \<Rightarrow> bool" where
  "no_quit g \<longleftrightarrow> (\<forall>x s s'. g x s = Inr s' \<longrightarrow> el_quit s' = el_quit s)"

definition no_quit_read :: "('a \<Rightarrow> 't \<Rightarrow> ('cb, 'fn, 'z) eloop \<Rightarrow> ('cb, 'fn, 'z) eloop res) \<Rightarrow> bool" where
  "no_quit_read g \<longleftrightarrow> (\<forall>x t s s'. g x t s = Inr s' \<longrightarrow> el_quit s' = el_quit s)"

lemma call_if_quit: "no_quit g \<Longrightarrow> call_if b g cb s = Inr s' \<Longrightarrow> el_quit s' = el_quit s"
  by (auto simp: call_if_def no_quit_def split: if_splits option.splits)

lemma el_put_quit [simp]: "el_quit (el_put p g s) = el_quit s"
  by (simp add: el_put_def)

lemma handleEvent_quit:
  assumes run: "no_quit run" and read: "no_quit_read run_read"
    and h: "handleEvent (el_get p) (el_put p) run run_read t s = Inr s'"
  shows "el_quit s' = el_quit s"
proof -
  have rd: "no_quit (\<lambda>f. run_read f t)" using read by (simp add: no_quit_def no_quit_read_def)
  from h show ?thesis
    by (auto simp: handleEvent_def Let_def res_Inr_iffs dest!: call_if_quit [OF run] call_if_quit [OF rd])
qed

lemma handle_active_quit:
  assumes "no_quit run" and "no_quit_read run_read"
  shows "handle_active run run_read ps s = Inr s' \<Longrightarrow> el_quit s' = el_quit s"
proof (induction ps arbitrary: s)
  case (Cons p ps)
  then obtain s1 where s1: "handleEvent (el_get p) (el_put p) run run_read (el_pollReturnTime s) s = Inr s1"
    "handle_active run run_read ps s1 = Inr s'" by (auto simp: res_Inr_iffs)
  with Cons.IH [OF s1(2)] handleEvent_quit [OF assms(1) assms(2) s1(1)] show ?case by simp
qed simp

lemma run_functors_quit:
  assumes "no_quit run_fn"
  shows "run_functors run_fn fs s = Inr s' \<Longrightarrow> el_quit s' = el_quit s"
proof (induction fs arbitrary: s)
  case (Cons f fs)
  then obtain s1 where "run_fn f s = Inr s1" "run_functors run_fn fs s1 = Inr s'" by (auto simp: res_Inr_iffs)
  with Cons.IH assms show ?case unfolding no_quit_def by metis
qed simp

lemma loop_body_quit:
  assumes "no_quit run" and "no_quit_read run_read" and "no_quit run_fn"
    and "loop_body run run_read run_fn r s = Inr s'"
  shows "el_quit s' = el_quit s"
  using assms(4) handle_active_quit [OF assms(1,2)] run_functors_quit [OF assms(3)]
  by (fastforce simp: loop_body_def doPendingFunctors_def Let_def res_Inr_iffs split: prod.splits)

lemma loop_while_runs_on:
  assumes "no_quit run" and "no_quit_read run_read" and "no_quit run_fn"
  shows "\<not> el_quit s \<Longrightarrow> loop_while run run_read run_fn rs s = Inr (b, s') \<Longrightarrow> \<not> b"
proof (induction rs arbitrary: s)
  case Nil
  then show ?case by (simp add: loop_while.simps)
next
  case (Cons r rs)
  then obtain s1 where "loop_body run run_read run_fn r s = Inr s1" "loop_while run run_read run_fn rs s1 = Inr (b, s')"
    by (subst (asm) loop_while.simps) (auto simp: res_Inr_iffs)
  with Cons.prems(1) Cons.IH [of s1] loop_body_quit [OF assms, of r s s1] show ?case by simp
qed

text \<open>
  C31: \<^verbatim>\<open>loop\<close> clears \<^verbatim>\<open>quit_\<close> when it starts, so a \<^verbatim>\<open>quit\<close> from another thread that comes before is lost: unless client
  code in the loop quits, no number of returns of the poller makes the loop stop.
\<close>

theorem quit_before_loop_is_lost:
  assumes "no_quit run" and "no_quit_read run_read" and "no_quit run_fn"
  shows "loop run run_read run_fn tid rs (el_quit_call tid' s) \<noteq> Inr (True, s')"
proof
  assume "loop run run_read run_fn tid rs (el_quit_call tid' s) = Inr (True, s')"
  then have "loop_while run run_read run_fn rs ((el_quit_call tid' s)\<lparr>el_looping := True, el_quit := False\<rparr>) = Inr (True, s')"
    by (simp add: loop_def res_Inr_iffs)
  from loop_while_runs_on [OF assms _ this] show False by simp
qed

section \<open>Interleaving of queueInLoop with the loop\<close>

text \<open>
  Where the loop's thread is: blocked in or before \<^verbatim>\<open>poll\<close>; returned from it, with or without a readable
  eventfd; after the channel callbacks; calling functors, the rest of which is listed; out of the loop.
\<close>

datatype 'fn loop_pc = AtPoll | Woken bool | Handled | Calling "'fn list" | Stopped

fun inflight :: "'fn loop_pc \<Rightarrow> 'fn list" where
  "inflight (Calling fs) = fs"
| "inflight _ = []"

text \<open>
  \<open>sys_waiting\<close> are the threads inside \<^verbatim>\<open>queueInLoop\<close> between the unlock and the wakeup; the two halves of \<^verbatim>\<open>quit\<close>, called from
  any thread, are steps of their own; \<open>sys_done\<close> and \<open>sys_all\<close>
  record the functors called and the functors queued so far.
\<close>

record ('cb, 'fn) loop_sys =
  sys_loop :: "('cb, 'fn) event_loop"
  sys_pc :: "'fn loop_pc"
  sys_waiting :: "nat set"
  sys_done :: "'fn list"
  sys_all :: "'fn list"

inductive lstep :: "('fn \<Rightarrow> 'fn list) \<Rightarrow> ('cb, 'fn) loop_sys \<Rightarrow> ('cb, 'fn) loop_sys \<Rightarrow> bool" for beh where
  push: "\<not> isInLoopThread tid (sys_loop S) \<Longrightarrow> tid \<notin> sys_waiting S \<Longrightarrow>
    lstep beh S (S\<lparr>sys_loop := el_push f (sys_loop S), sys_waiting := insert tid (sys_waiting S), sys_all := sys_all S @ [f]\<rparr>)"
| wake: "tid \<in> sys_waiting S \<Longrightarrow>
    lstep beh S (S\<lparr>sys_loop := el_wake_if tid (sys_loop S), sys_waiting := sys_waiting S - {tid}\<rparr>)"
| quit_flag: "lstep beh S (S\<lparr>sys_loop := (sys_loop S)\<lparr>el_quit := True\<rparr>\<rparr>)"
| quit_wakes: "el_quit (sys_loop S) \<Longrightarrow> lstep beh S (S\<lparr>sys_loop := el_wakeup (sys_loop S)\<rparr>)"
| poll_returns: "sys_pc S = AtPoll \<Longrightarrow> lstep beh S (S\<lparr>sys_pc := Woken (0 < el_wakeups (sys_loop S))\<rparr>)"
| callback_queues: "sys_pc S = Woken b \<or> sys_pc S = Handled \<Longrightarrow>
    lstep beh S (S\<lparr>sys_loop := queueInLoop (el_threadId (sys_loop S)) f (sys_loop S), sys_all := sys_all S @ [f]\<rparr>)"
| handled: "sys_pc S = Woken b \<Longrightarrow>
    lstep beh S (S\<lparr>sys_loop := (if b then el_handleRead (sys_loop S) else sys_loop S), sys_pc := Handled\<rparr>)"
| swap_out: "sys_pc S = Handled \<Longrightarrow>
    lstep beh S (S\<lparr>sys_loop := (sys_loop S)\<lparr>el_callingPendingFunctors := True, el_pendingFunctors := []\<rparr>,
      sys_pc := Calling (el_pendingFunctors (sys_loop S))\<rparr>)"
| call: "sys_pc S = Calling (f # fs) \<Longrightarrow>
    lstep beh S (S\<lparr>sys_loop := fold (queueInLoop (el_threadId (sys_loop S))) (beh f) (sys_loop S),
      sys_pc := Calling fs, sys_done := sys_done S @ [f], sys_all := sys_all S @ beh f\<rparr>)"
| finish: "sys_pc S = Calling [] \<Longrightarrow>
    lstep beh S (S\<lparr>sys_loop := (sys_loop S)\<lparr>el_callingPendingFunctors := False\<rparr>,
      sys_pc := (if el_quit (sys_loop S) then Stopped else AtPoll)\<rparr>)"

definition sys_ok :: "('cb, 'fn) loop_sys \<Rightarrow> bool" where
  "sys_ok S \<longleftrightarrow>
    (el_pendingFunctors (sys_loop S) \<noteq> [] \<and> (sys_pc S = AtPoll \<or> (\<exists>fs. sys_pc S = Calling fs)) \<longrightarrow>
      0 < el_wakeups (sys_loop S) \<or> sys_waiting S \<noteq> {}) \<and>
    sys_done S @ inflight (sys_pc S) @ el_pendingFunctors (sys_loop S) = sys_all S \<and>
    (el_callingPendingFunctors (sys_loop S) \<longleftrightarrow> (\<exists>fs. sys_pc S = Calling fs)) \<and>
    (\<forall>tid \<in> sys_waiting S. \<not> isInLoopThread tid (sys_loop S))"

lemma el_wakeup_simps [simp]:
  "0 < el_wakeups (el_wakeup s)" "el_pendingFunctors (el_wakeup s) = el_pendingFunctors s"
  "el_callingPendingFunctors (el_wakeup s) = el_callingPendingFunctors s" "el_threadId (el_wakeup s) = el_threadId s"
  by (auto simp: el_wakeup_def)

lemma queueInLoop_calling:
  assumes "el_callingPendingFunctors s"
  shows "el_pendingFunctors (fold (queueInLoop tid) fs s) = el_pendingFunctors s @ fs"
    and "el_callingPendingFunctors (fold (queueInLoop tid) fs s)"
    and "el_threadId (fold (queueInLoop tid) fs s) = el_threadId s"
    and "fs \<noteq> [] \<or> 0 < el_wakeups s \<Longrightarrow> 0 < el_wakeups (fold (queueInLoop tid) fs s)"
  using assms
proof (induction fs arbitrary: s)
  case (Cons f fs)
  have q: "el_callingPendingFunctors (queueInLoop tid f s)" "0 < el_wakeups (queueInLoop tid f s)"
    "el_pendingFunctors (queueInLoop tid f s) = el_pendingFunctors s @ [f]" "el_threadId (queueInLoop tid f s) = el_threadId s"
    if "el_callingPendingFunctors s" for s :: "('a, 'b, 'c) eloop"
    using that by (simp_all add: queueInLoop_def el_wake_if_def el_push_def)
  {
    case 1
    with Cons.IH(1) q show ?case by simp
  next
    case 2
    with Cons.IH(2) q show ?case by simp
  next
    case 3
    with Cons.IH(3) q show ?case by simp
  next
    case 4
    with Cons.IH(4) q show ?case by simp
  }
qed simp_all

lemma lstep_ok: "lstep beh S S' \<Longrightarrow> sys_ok S \<Longrightarrow> sys_ok S'"
proof (induction rule: lstep.induct)
  case (push tid S f)
  then show ?case by (auto simp: sys_ok_def el_push_def isInLoopThread_def)
next
  case (wake tid S)
  then show ?case by (auto simp: sys_ok_def el_wake_if_def isInLoopThread_def)
next
  case (quit_flag S)
  then show ?case by (auto simp: sys_ok_def isInLoopThread_def)
next
  case (quit_wakes S)
  then show ?case by (auto simp: sys_ok_def isInLoopThread_def)
next
  case (callback_queues S b f)
  then show ?case
    by (auto simp: sys_ok_def queueInLoop_def el_wake_if_def el_push_def isInLoopThread_def)
next
  case (call S f fs)
  then have calling: "el_callingPendingFunctors (sys_loop S)" by (auto simp: sys_ok_def)
  note q = queueInLoop_calling [OF calling, where tid = "el_threadId (sys_loop S)" and fs = "beh f"]
  from call have "0 < el_wakeups (sys_loop S) \<or> sys_waiting S \<noteq> {} \<or> el_pendingFunctors (sys_loop S) = []"
    by (auto simp: sys_ok_def)
  with call q show ?case by (auto simp: sys_ok_def isInLoopThread_def)
next
  case (finish S)
  then show ?case by (auto simp: sys_ok_def isInLoopThread_def)
qed (auto simp: sys_ok_def el_handleRead_def isInLoopThread_def)

definition sys_start :: "('cb, 'fn) event_loop \<Rightarrow> ('cb, 'fn) loop_sys" where
  "sys_start s = \<lparr>sys_loop = s, sys_pc = AtPoll, sys_waiting = {}, sys_done = [], sys_all = []\<rparr>"

lemma sys_reach_ok:
  assumes "(lstep beh)\<^sup>*\<^sup>* (sys_start s) S" and "el_pendingFunctors s = []" and "\<not> el_callingPendingFunctors s"
  shows "sys_ok S"
  using assms(1)
proof (induction rule: rtranclp_induct)
  case base
  from assms(2,3) show ?case by (simp add: sys_ok_def sys_start_def)
next
  case (step T U)
  then show ?case by (metis lstep_ok)
qed

text \<open>
  C9: However the loop's thread interleaves with threads that queue functors (the lock around the vector
  and the wakeup being separate steps, callbacks and functors queueing more functors themselves),
  functors are called exactly once and in the order they were queued; and whenever the loop is about
  to block in \<^verbatim>\<open>poll\<close> with a functor pending, the eventfd is readable or a thread is still on its way to
  write it: no queued functor is left behind by a sleeping loop.
\<close>

theorem no_lost_functor:
  assumes "(lstep beh)\<^sup>*\<^sup>* (sys_start s) S" and "el_pendingFunctors s = []" and "\<not> el_callingPendingFunctors s"
  shows "sys_done S @ inflight (sys_pc S) @ el_pendingFunctors (sys_loop S) = sys_all S \<and>
    (sys_pc S = AtPoll \<and> el_pendingFunctors (sys_loop S) \<noteq> [] \<longrightarrow>
      0 < el_wakeups (sys_loop S) \<or> sys_waiting S \<noteq> {})"
  using sys_reach_ok [OF assms] by (auto simp: sys_ok_def)

text \<open>Every functor queued before a round of the loop is among those it has called or is about to call, once it has started calling.\<close>

definition calling :: "('cb, 'fn) loop_sys \<Rightarrow> bool" where
  "calling S \<longleftrightarrow> (\<exists>fs. sys_pc S = Calling fs)"

definition caught_up :: "'fn list \<Rightarrow> ('cb, 'fn) loop_sys \<Rightarrow> bool" where
  "caught_up fs S \<longleftrightarrow> (\<exists>rest. sys_all S = fs @ rest) \<and>
    (calling S \<longrightarrow> (\<exists>rest. sys_done S @ inflight (sys_pc S) = fs @ rest))"

lemma lstep_caught_up: "lstep beh S S' \<Longrightarrow> sys_ok S \<Longrightarrow> caught_up fs S \<Longrightarrow> caught_up fs S'"
proof (induction rule: lstep.induct)
  case (swap_out S)
  then show ?case by (auto simp: caught_up_def calling_def sys_ok_def)
qed (auto simp: caught_up_def calling_def)

lemma caught_up_run:
  assumes "(lstep beh)\<^sup>*\<^sup>* S T" and "sys_ok S" and "caught_up fs S"
  shows "sys_ok T \<and> caught_up fs T"
  using assms
proof (induction rule: rtranclp_induct)
  case (step T U)
  then show ?case by (metis lstep_ok lstep_caught_up)
qed simp

text \<open>The loop's own steps lead it through the rest of a round.\<close>

lemma run_all_calls: "sys_pc S = Calling fs \<Longrightarrow> \<exists>T. (lstep beh)\<^sup>*\<^sup>* S T \<and> sys_pc T = Calling []"
proof (induction fs arbitrary: S)
  case Nil
  then show ?case by blast
next
  case (Cons f fs)
  let ?T = "S\<lparr>sys_loop := fold (queueInLoop (el_threadId (sys_loop S))) (beh f) (sys_loop S),
      sys_pc := Calling fs, sys_done := sys_done S @ [f], sys_all := sys_all S @ beh f\<rparr>"
  have "lstep beh S ?T" using Cons.prems by (rule lstep.call)
  moreover obtain U where "(lstep beh)\<^sup>*\<^sup>* ?T U" "sys_pc U = Calling []" using Cons.IH [of ?T] by auto
  ultimately show ?case by (meson converse_rtranclp_into_rtranclp)
qed

lemma round_ends: "sys_pc S \<noteq> Stopped \<Longrightarrow> \<exists>T. (lstep beh)\<^sup>*\<^sup>* S T \<and> sys_pc T = Calling []"
proof -
  have handled: "\<exists>T. (lstep beh)\<^sup>*\<^sup>* S T \<and> sys_pc T = Calling []" if "sys_pc S = Handled" for S
    using lstep.swap_out [OF that, of beh] run_all_calls [of "S\<lparr>sys_loop := (sys_loop S)\<lparr>el_callingPendingFunctors := True,
      el_pendingFunctors := []\<rparr>, sys_pc := Calling (el_pendingFunctors (sys_loop S))\<rparr>" _ beh]
    by (auto intro: converse_rtranclp_into_rtranclp)
  have woken: "\<exists>T. (lstep beh)\<^sup>*\<^sup>* S T \<and> sys_pc T = Calling []" if "sys_pc S = Woken b" for S b
    using lstep.handled [OF that, of beh] handled
    by (metis (no_types, lifting) converse_rtranclp_into_rtranclp loop_sys.select_convs(2) loop_sys.surjective loop_sys.update_convs(1,2))
  show "\<exists>T. (lstep beh)\<^sup>*\<^sup>* S T \<and> sys_pc T = Calling []" if "sys_pc S \<noteq> Stopped"
  proof (cases "sys_pc S")
    case AtPoll
    from lstep.poll_returns [OF this, of beh] woken [of "S\<lparr>sys_pc := Woken (0 < el_wakeups (sys_loop S))\<rparr>"] show ?thesis
      by (auto intro: converse_rtranclp_into_rtranclp)
  next
    case (Woken b)
    then show ?thesis by (rule woken)
  next
    case Handled
    then show ?thesis by (rule handled)
  next
    case (Calling fs)
    then show ?thesis by (rule run_all_calls)
  qed (use that in simp)
qed

text \<open>
  C10: A functor is called within one round of the loop. Whatever else happens, when the loop comes to the end of a round
  of functor calls that it had not begun when a functor was queued, that functor has been called, after all those queued
  before it; and until the loop has stopped, its own steps always lead to the end of such a round.
\<close>

theorem functor_called_in_round:
  assumes "(lstep beh)\<^sup>*\<^sup>* (sys_start s) S" and "el_pendingFunctors s = []" and "\<not> el_callingPendingFunctors s"
    and "\<not> calling S" and "sys_pc S \<noteq> Stopped"
  shows "(\<forall>T. (lstep beh)\<^sup>*\<^sup>* S T \<and> sys_pc T = Calling [] \<longrightarrow> (\<exists>later. sys_done T = sys_all S @ later)) \<and>
    (\<exists>T. (lstep beh)\<^sup>*\<^sup>* S T \<and> sys_pc T = Calling [])"
proof -
  have "sys_ok S" "caught_up (sys_all S) S" using sys_reach_ok [OF assms(1-3)] assms(4) by (simp_all add: caught_up_def)
  with caught_up_run [of beh S _ "sys_all S"] have "caught_up (sys_all S) T" if "(lstep beh)\<^sup>*\<^sup>* S T" for T
    using that by blast
  then have "\<exists>later. sys_done T = sys_all S @ later" if "(lstep beh)\<^sup>*\<^sup>* S T" "sys_pc T = Calling []" for T
    using that(1) [THEN \<open>\<And>T. (lstep beh)\<^sup>*\<^sup>* S T \<Longrightarrow> caught_up (sys_all S) T\<close>] that(2) by (simp add: caught_up_def calling_def)
  then show ?thesis using round_ends [OF assms(5)] by blast
qed

section \<open>The wakeup channel\<close>

text \<open>
  The loop's own channel: its read callback is \<^verbatim>\<open>EventLoop::handleRead\<close>, and it has no other callback.
\<close>

definition wakeup_read :: "'cb \<Rightarrow> time_point \<Rightarrow> ('cb, 'fn, 'z) eloop \<Rightarrow> ('cb, 'fn, 'z) eloop res" where
  "wakeup_read cb t s = Inr (el_handleRead s)"

definition no_callback :: "'cb \<Rightarrow> ('cb, 'fn, 'z) eloop \<Rightarrow> ('cb, 'fn, 'z) eloop res" where
  "no_callback cb s = Inr s"

definition chan_alive :: "nat \<Rightarrow> ('cb, 'fn, 'z) eloop \<Rightarrow> bool" where
  "chan_alive p s \<longleftrightarrow> (\<exists>c. ep_heap (el_poller s) p = Some c)"

interpretation wk: channel_world "el_get p" "el_put p" no_callback wakeup_read "chan_alive p" for p
  by unfold_locales
    (auto simp: el_get_def el_put_def ep_put_def chan_alive_def no_callback_def wakeup_read_def el_handleRead_def same_hooks_def)

text \<open>A readable eventfd, dispatched by the loop, clears the counter: the next poll can block again.\<close>

lemma wakeup_dispatch_clears:
  assumes "ep_heap (el_poller s) p = Some c" and "ch_revents c = POLLIN" and "ch_readCallback c = Some cb"
  shows "\<exists>s'. handleEvent (el_get p) (el_put p) no_callback wakeup_read t s = Inr s' \<and> el_wakeups s' = 0"
proof -
  have alive: "chan_alive p s" using assms(1) by (simp add: chan_alive_def)
  have "fired (el_get p s) = [CallRead cb]"
    using assms by (simp add: fired_def el_get_def poll_flag_defs)
  then show ?thesis
    unfolding wk.handleEvent_fired [OF alive] by (simp add: wakeup_read_def el_handleRead_def el_put_def)
qed

section \<open>Sample states\<close>

definition sample_loop :: "(unit, nat) event_loop" where
  "sample_loop = \<lparr>el_looping = False, el_quit = False, el_callingPendingFunctors = False, el_threadId = 1,
     el_pollReturnTime = 0, el_poller = sample_epoller, el_wakeupChannel = 1, el_activeChannels = [],
     el_pendingFunctors = [], el_wakeups = 0\<rparr>"

theorem quit_before_loop_is_lost_witness:
  "(\<forall>s'. loop no_callback (\<lambda>_ _. Inr) (\<lambda>_. Inr) 1 [(WaitErr, 5)] (el_quit_call 2 sample_loop) \<noteq> Inr (True, s')) \<and>
   ok (loop no_callback (\<lambda>_ _. Inr) (\<lambda>_. Inr) 1 [(WaitErr, 5)] (el_quit_call 2 sample_loop))"
proof
  have "no_quit (no_callback :: unit \<Rightarrow> (unit, nat) event_loop \<Rightarrow> _)" "no_quit (\<lambda>_::nat. Inr :: (unit, nat) event_loop \<Rightarrow> _)"
    "no_quit_read (\<lambda>(_::unit) (_::time_point). Inr :: (unit, nat) event_loop \<Rightarrow> _)"
    by (simp_all add: no_quit_def no_quit_read_def no_callback_def)
  then show "\<forall>s'. loop no_callback (\<lambda>_ _. Inr) (\<lambda>_. Inr) 1 [(WaitErr, 5)] (el_quit_call 2 sample_loop) \<noteq> Inr (True, s')"
    by (intro allI quit_before_loop_is_lost)
  show "ok (loop no_callback (\<lambda>_ _. Inr) (\<lambda>_. Inr) 1 [(WaitErr, 5)] (el_quit_call 2 sample_loop))"
    by (simp add: loop_def isInLoopThread_def sample_loop_def el_quit_call_def el_wakeup_def loop_while.simps
      loop_body_def ep_poll_def doPendingFunctors_def)
qed

theorem no_lost_functor_witness:
  "\<exists>S. (lstep (\<lambda>_. []))\<^sup>*\<^sup>* (sys_start sample_loop) S \<and> el_pendingFunctors (sys_loop S) = [42] \<and> sys_pc S = AtPoll \<and>
     (0 < el_wakeups (sys_loop S) \<or> sys_waiting S \<noteq> {})"
proof -
  let ?S = "sys_start sample_loop"
  let ?T = "?S\<lparr>sys_loop := el_push 42 (sys_loop ?S), sys_waiting := insert 2 (sys_waiting ?S), sys_all := sys_all ?S @ [42]\<rparr>"
  have "lstep (\<lambda>_. []) ?S ?T"
    by (rule lstep.push [of 2 ?S "\<lambda>_. []" 42]) (simp_all add: sys_start_def sample_loop_def isInLoopThread_def)
  then have reach: "(lstep (\<lambda>_. []))\<^sup>*\<^sup>* ?S ?T" by simp
  have "el_pendingFunctors (sys_loop ?T) = [42]" "sys_pc ?T = AtPoll"
    by (simp_all add: sys_start_def sample_loop_def el_push_def)
  with no_lost_functor [OF reach] reach show ?thesis by (metis event_loop.select_convs(3,9) list.distinct(1) sample_loop_def)
qed

theorem functor_called_in_round_witness:
  "\<exists>S T later. (lstep (\<lambda>_. []))\<^sup>*\<^sup>* (sys_start sample_loop) S \<and> sys_all S = [42] \<and> (lstep (\<lambda>_. []))\<^sup>*\<^sup>* S T \<and>
    sys_pc T = Calling [] \<and> sys_done T = 42 # later"
proof -
  let ?S = "sys_start sample_loop"
  let ?T = "?S\<lparr>sys_loop := el_push 42 (sys_loop ?S), sys_waiting := insert 2 (sys_waiting ?S), sys_all := sys_all ?S @ [42]\<rparr>"
  have "lstep (\<lambda>_. []) ?S ?T"
    by (rule lstep.push [of 2 ?S "\<lambda>_. []" 42]) (simp_all add: sys_start_def sample_loop_def isInLoopThread_def)
  then have reach: "(lstep (\<lambda>_. []))\<^sup>*\<^sup>* ?S ?T" by simp
  have "\<not> calling ?T" "sys_pc ?T \<noteq> Stopped" "sys_all ?T = [42]" "el_pendingFunctors sample_loop = []" "\<not> el_callingPendingFunctors sample_loop"
    by (simp_all add: calling_def sys_start_def sample_loop_def)
  with functor_called_in_round [OF reach] reach show ?thesis by (metis append_Cons append_Nil)
qed

end
