(* ===== verification/StdContainers.thy ===== *)
theory StdContainers
  imports Prelude "HOL-Library.Char_ord" "HOL-Library.List_Lexorder" "HOL-Library.Product_Lexorder"
begin

text \<open>
  The ordered containers of the C++ library as the sources use them: \<^verbatim>\<open>std::set\<close> as a strictly
  increasing list of its elements and \<^verbatim>\<open>std::map\<close> as a list of pairs with strictly increasing keys, in
  the order iteration visits them. The locales state what their clients rely on.
\<close>

section \<open>std::set\<close>

fun set_insert :: "'a::linorder \<Rightarrow> 'a list \<Rightarrow> 'a list" where
  "set_insert x [] = [x]"
| "set_insert x (y # ys) =
    (if x < y then x # y # ys else if x = y then y # ys else y # set_insert x ys)"

definition set_erase :: "'a \<Rightarrow> 'a list \<Rightarrow> 'a list" where
  "set_erase x xs = filter (\<lambda>y. y \<noteq> x) xs"

text \<open>\<^verbatim>\<open>[begin(), lower_bound(x))\<close> and \<^verbatim>\<open>[lower_bound(x), end())\<close>.\<close>

definition set_below :: "'a::linorder \<Rightarrow> 'a list \<Rightarrow> 'a list" where
  "set_below x xs = takeWhile (\<lambda>y. y < x) xs"

definition set_from :: "'a::linorder \<Rightarrow> 'a list \<Rightarrow> 'a list" where
  "set_from x xs = dropWhile (\<lambda>y. y < x) xs"

abbreviation ordered :: "'a::linorder list \<Rightarrow> bool" where
  "ordered xs \<equiv> sorted_wrt (<) xs"

lemma set_set_insert [simp]: "set (set_insert x xs) = insert x (set xs)"
  by (induction xs) auto

lemma ordered_set_insert: "ordered xs \<Longrightarrow> ordered (set_insert x xs)"
  by (induction xs) auto

lemma length_set_insert: "ordered xs \<Longrightarrow> length (set_insert x xs) = (if x \<in> set xs then length xs else Suc (length xs))"
  by (induction xs) auto

lemma set_set_erase [simp]: "set (set_erase x xs) = set xs - {x}"
  by (auto simp: set_erase_def)

lemma ordered_set_erase: "ordered xs \<Longrightarrow> ordered (set_erase x xs)"
  by (simp add: set_erase_def sorted_wrt_filter)

lemma ordered_distinct: "ordered xs \<Longrightarrow> distinct xs"
  by (induction xs) auto

lemma length_set_erase:
  assumes "ordered xs"
  shows "length (set_erase x xs) = (if x \<in> set xs then length xs - 1 else length xs)"
proof -
  have "card (set (set_erase x xs)) = length (set_erase x xs)"
    by (rule distinct_card [OF ordered_distinct [OF ordered_set_erase [OF assms]]])
  moreover have "card (set xs) = length xs" by (rule distinct_card [OF ordered_distinct [OF assms]])
  ultimately show ?thesis by (auto simp: card_Diff_singleton_if)
qed

lemma set_below_from [simp]: "set_below x xs @ set_from x xs = xs"
  by (simp add: set_below_def set_from_def)

lemma set_set_below: "ordered xs \<Longrightarrow> set (set_below x xs) = {y \<in> set xs. y < x}"
  unfolding set_below_def
proof (induction xs)
  case (Cons a xs)
  then show ?case by (cases "a < x") (auto dest: order.strict_trans)
qed simp

lemma set_set_from: "ordered xs \<Longrightarrow> set (set_from x xs) = {y \<in> set xs. \<not> y < x}"
  unfolding set_from_def
proof (induction xs)
  case (Cons a xs)
  then show ?case by (cases "a < x") (auto dest: order.strict_trans)
qed simp

lemma ordered_below_from:
  assumes "ordered xs"
  shows "ordered (set_below x xs)" "ordered (set_from x xs)"
  using assms sorted_wrt_append [of "(<)" "set_below x xs" "set_from x xs"] by simp_all

lemma ordered_hd_le: "ordered xs \<Longrightarrow> y \<in> set xs \<Longrightarrow> hd xs \<le> y"
  by (cases xs) auto

text \<open>The contract of an ordered set.\<close>

locale ordered_set =
  fixes inv :: "'s \<Rightarrow> bool"
    and elems :: "'s \<Rightarrow> 'a set"
    and ins :: "'a \<Rightarrow> 's \<Rightarrow> 's"
    and del :: "'a \<Rightarrow> 's \<Rightarrow> 's"
    and sz :: "'s \<Rightarrow> nat"
  assumes ins_law: "inv s \<Longrightarrow> inv (ins x s) \<and> elems (ins x s) = insert x (elems s)"
    and del_law: "inv s \<Longrightarrow> inv (del x s) \<and> elems (del x s) = elems s - {x}"
    and sz_law: "inv s \<Longrightarrow> sz s = card (elems s) \<and> finite (elems s)"
begin

lemma sz_ins: "inv s \<Longrightarrow> x \<notin> elems s \<Longrightarrow> sz (ins x s) = Suc (sz s)"
  using ins_law [of s x] sz_law [of s] sz_law [of "ins x s"] by simp

lemma sz_del: "inv s \<Longrightarrow> x \<in> elems s \<Longrightarrow> Suc (sz (del x s)) = sz s"
  using del_law [of s x] sz_law [of s] sz_law [of "del x s"]
  by (metis card.remove)

lemma del_ins: "inv s \<Longrightarrow> x \<notin> elems s \<Longrightarrow> elems (del x (ins x s)) = elems s"
  using ins_law [of s x] del_law [of "ins x s" x] by simp

end

interpretation oset: ordered_set ordered set set_insert set_erase length
  by unfold_locales
    (auto simp: ordered_set_insert ordered_set_erase ordered_distinct distinct_card)

section \<open>std::map\<close>

fun map_put :: "'k::linorder \<Rightarrow> 'v \<Rightarrow> ('k \<times> 'v) list \<Rightarrow> ('k \<times> 'v) list" where
  "map_put k v [] = [(k, v)]"
| "map_put k v ((k', v') # m) =
    (if k < k' then (k, v) # (k', v') # m
     else if k = k' then (k, v) # m
     else (k', v') # map_put k v m)"

definition map_erase :: "'k \<Rightarrow> ('k \<times> 'v) list \<Rightarrow> ('k \<times> 'v) list" where
  "map_erase k m = filter (\<lambda>e. fst e \<noteq> k) m"

abbreviation keys_ordered :: "('k::linorder \<times> 'v) list \<Rightarrow> bool" where
  "keys_ordered m \<equiv> ordered (map fst m)"

lemma set_fst_map_put [simp]: "fst ` set (map_put k v m) = insert k (fst ` set m)"
  by (induction k v m rule: map_put.induct) auto

lemma keys_ordered_map_put: "keys_ordered m \<Longrightarrow> keys_ordered (map_put k v m)"
proof (induction k v m rule: map_put.induct)
  case (2 k v k' v' m)
  then show ?case using set_fst_map_put [of k v m] by (auto dest: order.strict_trans)
qed simp

lemma map_of_map_put: "keys_ordered m \<Longrightarrow> map_of (map_put k v m) = (map_of m)(k \<mapsto> v)"
  by (induction k v m rule: map_put.induct) auto

lemma keys_ordered_map_erase: "keys_ordered m \<Longrightarrow> keys_ordered (map_erase k m)"
  by (simp add: map_erase_def sorted_wrt_map sorted_wrt_filter)

lemma map_of_map_erase: "map_of (map_erase k m) = (map_of m)(k := None)"
  by (induction m) (auto simp: map_erase_def)

text \<open>The contract of an ordered map.\<close>

locale ordered_map =
  fixes inv :: "'m \<Rightarrow> bool"
    and look :: "'m \<Rightarrow> 'k \<Rightarrow> 'v option"
    and put :: "'k \<Rightarrow> 'v \<Rightarrow> 'm \<Rightarrow> 'm"
    and erase :: "'k \<Rightarrow> 'm \<Rightarrow> 'm"
  assumes put_law: "inv m \<Longrightarrow> inv (put k v m) \<and> look (put k v m) = (look m)(k \<mapsto> v)"
    and erase_law: "inv m \<Longrightarrow> inv (erase k m) \<and> look (erase k m) = (look m)(k := None)"
begin

lemma erase_put: "inv m \<Longrightarrow> look m k = None \<Longrightarrow> look (erase k (put k v m)) = look m"
  using put_law [of m k v] erase_law [of "put k v m" k] by auto

lemma put_put: "inv m \<Longrightarrow> k \<noteq> k' \<Longrightarrow> look (put k v (put k' v' m)) = look (put k' v' (put k v m))"
  using put_law by (simp add: fun_upd_twist)

end

interpretation omap: ordered_map keys_ordered map_of map_put map_erase
  by unfold_locales
    (simp_all add: keys_ordered_map_put map_of_map_put keys_ordered_map_erase map_of_map_erase)

lemma keys_ordered_extensional:
  assumes "keys_ordered m" and "keys_ordered m'" and "map_of m = map_of m'"
  shows "m = m'"
proof -
  have eq: "l = map (\<lambda>k. (k, the (map_of l k))) (map fst l)" if "keys_ordered l" for l :: "('a \<times> 'b) list"
  proof (rule nth_equalityI)
    fix i assume "i < length l"
    then have "map_of l (fst (l ! i)) = Some (snd (l ! i))"
      using ordered_distinct [OF that] by (intro map_of_is_SomeI) simp_all
    with \<open>i < length l\<close> show "l ! i = map (\<lambda>k. (k, the (map_of l k))) (map fst l) ! i" by simp
  qed simp
  have "set (map fst m) = dom (map_of m)" "set (map fst m') = dom (map_of m')"
    by (simp_all add: dom_map_of_conv_image_fst)
  with assms have "map fst m = map fst m'" by (intro strict_sorted_equal) simp_all
  with eq [OF assms(1)] eq [OF assms(2)] assms(3) show ?thesis by metis
qed

end
