(* ===== verification/TimerQueue.thy ===== *)
theory TimerQueue
  imports StdContainers "HOL-Library.Log_Nat"
begin

text \<open>
  Timers: \<^verbatim>\<open>src/src/Timer.hpp\<close>, \<^verbatim>\<open>Timer.cpp\<close>, \<^verbatim>\<open>TimerId.hpp\<close>, \<^verbatim>\<open>TimerQueue.hpp\<close>, \<^verbatim>\<open>TimerQueue.cpp\<close>,
  \<^verbatim>\<open>TimeUtil.cpp\<close> and the timer functions of \<^verbatim>\<open>EventLoop.cpp\<close>. The state holds the \<^verbatim>\<open>Timer\<close> objects on a heap (\<open>None\<close>
  is freed memory, so a use after free or a double free is a failure), the two ordered sets, the
  functors of the queue that wait in the event loop, the readings of the clock, and what the timerfd
  was last armed with. A callback does what \<open>beh\<close> says: a list of calls into the queue, which may
  depend on the state it sees. Where \<^verbatim>\<open>new\<close> allocates is an argument of the call.
\<close>

section \<open>Time\<close>

definition MicroSecondsPerSecond :: int where "MicroSecondsPerSecond = 1000 * 1000"

definition i64 :: "int \<Rightarrow> bool" where "i64 x \<longleftrightarrow> - (2 ^ 63) \<le> x \<and> x < 2 ^ 63"

text \<open>
  A \<^verbatim>\<open>double\<close> is the rational it stands for. Rounding a result to 53 significant bits, ties to even
  (normal range), and the conversion to \<^verbatim>\<open>int64_t\<close>, which truncates and is undefined out of range.
\<close>

definition log2_floor :: "rat \<Rightarrow> int" where
  "log2_floor x = (let (a, b) = quotient_of x; k = int (floorlog 2 (nat a)) - int (floorlog 2 (nat b))
    in if 2 powi k \<le> x then k else k - 1)"

definition dbl_round :: "rat \<Rightarrow> rat" where
  "dbl_round x =
    (if x = 0 then 0
     else let y = \<bar>x\<bar>; ulp = 2 powi (log2_floor y - 52); m = y / ulp; f = \<lfloor>m\<rfloor>; d = m - of_int f;
              r = (if d < 1 / 2 \<or> d = 1 / 2 \<and> even f then f else f + 1)
          in sgn x * of_int r * ulp)"

definition int64_of_double :: "rat \<Rightarrow> int res" where
  "int64_of_double x = (let n = (if 0 \<le> x then \<lfloor>x\<rfloor> else \<lceil>x\<rceil>) in
    guard (i64 n) (UndefinedBehaviour ''double to int64_t'') (Inr n))"

definition to_microseconds :: "rat \<Rightarrow> int res" where
  "to_microseconds seconds = int64_of_double (dbl_round (seconds * of_int MicroSecondsPerSecond))"

text \<open>Durations and time points are 64-bit counts of nanoseconds; their sums and differences must not overflow.\<close>

definition tp_plus_us :: "time_point \<Rightarrow> int \<Rightarrow> time_point res" where
  "tp_plus_us t us = guard (i64 (us * 1000) \<and> i64 (t + us * 1000)) (UndefinedBehaviour ''signed overflow'')
     (Inr (t + us * 1000))"

definition tp_minus :: "time_point \<Rightarrow> time_point \<Rightarrow> int res" where
  "tp_minus s t = guard (i64 (s - t)) (UndefinedBehaviour ''signed overflow'') (Inr (s - t))"

text \<open>C++ division and \<^verbatim>\<open>duration_cast\<close> truncate toward zero.\<close>

definition tdiv :: "int \<Rightarrow> int \<Rightarrow> int" where
  "tdiv a b = (if 0 \<le> a then a div b else - (- a div b))"

definition tmod :: "int \<Rightarrow> int \<Rightarrow> int" where
  "tmod a b = a - tdiv a b * b"

record timespec =
  tv_sec :: int
  tv_nsec :: int

definition howMuchTimeFromNow :: "time_point \<Rightarrow> time_point \<Rightarrow> timespec res" where
  "howMuchTimeFromNow now when =
    rbind (tp_minus when now) (\<lambda>d.
    let microseconds = tdiv d 1000;
        microseconds = (if microseconds < 100 then 100 else microseconds)
    in Inr \<lparr>tv_sec = tdiv microseconds MicroSecondsPerSecond,
            tv_nsec = tmod microseconds MicroSecondsPerSecond * 1000\<rparr>)"

text \<open>
  \<^verbatim>\<open>to_string\<close>: \<open>fmt\<close> is the local date and time of a \<^verbatim>\<open>time_t\<close>; the stream pads the remainder on the left
  with zeros to six characters.
\<close>

definition setw0 :: "nat \<Rightarrow> string \<Rightarrow> string" where
  "setw0 n s = replicate (n - length s) CHR ''0'' @ s"

definition tp_to_string :: "(int \<Rightarrow> string) \<Rightarrow> time_point \<Rightarrow> string" where
  "tp_to_string fmt tp = fmt (tdiv tp 1000000000) @ ''.'' @
     setw0 6 (show_int (tmod (tdiv tp 1000) MicroSecondsPerSecond))"

section \<open>Timer and TimerQueue\<close>

record 'cb timer =
  tm_callback :: 'cb
  tm_expiration :: time_point
  tm_interval :: rat
  tm_repeat :: bool
  tm_sequence :: int

type_synonym timer_id = "nat \<times> int"

datatype tq_functor = AddTimerInLoop nat | CancelInLoop timer_id

record 'cb timer_queue =
  tq_heap :: "nat \<Rightarrow> 'cb timer option"
  tq_numCreated :: int
  tq_timers :: "(time_point \<times> nat) list"
  tq_activeTimers :: "(nat \<times> int) list"
  tq_cancelingTimers :: "(nat \<times> int) list"
  tq_callingExpiredTimers :: bool
  tq_pending :: "tq_functor list"
  tq_clock :: "nat \<Rightarrow> time_point"
  tq_ticks :: nat
  tq_armed :: "(time_point \<times> timespec) option"

definition UINTPTR_MAX :: nat where "UINTPTR_MAX = two64 - 1"

definition new_Timer :: "'cb \<Rightarrow> time_point \<Rightarrow> rat \<Rightarrow> int \<Rightarrow> 'cb timer" where
  "new_Timer cb when interval numCreated = \<lparr>tm_callback = cb, tm_expiration = when, tm_interval = interval,
     tm_repeat = (interval > 0), tm_sequence = numCreated + 1\<rparr>"

definition timer_restart :: "time_point \<Rightarrow> 'cb timer \<Rightarrow> 'cb timer res" where
  "timer_restart now tm =
    (if tm_repeat tm then
       rbind (to_microseconds (tm_interval tm)) (\<lambda>us.
       rbind (tp_plus_us now us) (\<lambda>t. Inr (tm\<lparr>tm_expiration := t\<rparr>)))
     else Inr (tm\<lparr>tm_expiration := 0\<rparr>))"

definition createTimerfd :: "int \<Rightarrow> int res" where
  "createTimerfd timerfd = guard (0 \<le> timerfd) (LogFatal ''Failed in timerfd_create'') (Inr timerfd)"

definition new_TimerQueue :: "int \<Rightarrow> (nat \<Rightarrow> time_point) \<Rightarrow> 'cb timer_queue res" where
  "new_TimerQueue timerfd clock = rbind (createTimerfd timerfd) (\<lambda>_.
     Inr \<lparr>tq_heap = Map.empty, tq_numCreated = 0, tq_timers = [], tq_activeTimers = [], tq_cancelingTimers = [],
      tq_callingExpiredTimers = False, tq_pending = [], tq_clock = clock, tq_ticks = 0, tq_armed = None\<rparr>)"

definition tq_now :: "'cb timer_queue \<Rightarrow> time_point \<times> 'cb timer_queue" where
  "tq_now w = (tq_clock w (tq_ticks w), w\<lparr>tq_ticks := Suc (tq_ticks w)\<rparr>)"

definition now_string :: "(int \<Rightarrow> string) \<Rightarrow> 'cb timer_queue \<Rightarrow> string \<times> 'cb timer_queue" where
  "now_string fmt w = (let (now, w) = tq_now w in (tp_to_string fmt now, w))"

definition tq_deref :: "nat \<Rightarrow> 'cb timer_queue \<Rightarrow> 'cb timer res" where
  "tq_deref p w = (case tq_heap w p of
     None \<Rightarrow> Inl (UndefinedBehaviour ''use of a freed timer'') | Some tm \<Rightarrow> Inr tm)"

definition tq_put :: "nat \<Rightarrow> 'cb timer \<Rightarrow> 'cb timer_queue \<Rightarrow> 'cb timer_queue" where
  "tq_put p tm w = w\<lparr>tq_heap := (tq_heap w)(p \<mapsto> tm)\<rparr>"

definition tq_delete :: "nat \<Rightarrow> 'cb timer_queue \<Rightarrow> 'cb timer_queue res" where
  "tq_delete p w = (case tq_heap w p of
     None \<Rightarrow> Inl (UndefinedBehaviour ''double free'')
   | Some _ \<Rightarrow> Inr (w\<lparr>tq_heap := (tq_heap w)(p := None)\<rparr>))"

definition tq_sizes :: "'cb timer_queue \<Rightarrow> bool" where
  "tq_sizes w \<longleftrightarrow> length (tq_timers w) = length (tq_activeTimers w)"

abbreviation sizes_assert :: failure where
  "sizes_assert \<equiv> AssertFail ''timers_.size() == activeTimers_.size()''"

definition resetTimerfd :: "time_point \<Rightarrow> 'cb timer_queue \<Rightarrow> 'cb timer_queue res" where
  "resetTimerfd expiration w =
    (let (now, w) = tq_now w in
     rbind (howMuchTimeFromNow now expiration) (\<lambda>ts. Inr (w\<lparr>tq_armed := Some (now, ts)\<rparr>)))"

text \<open>\<^verbatim>\<open>insert\<close> repeats the thread assertion of its two callers, which is made there.\<close>

definition tq_insert :: "nat \<Rightarrow> 'cb timer_queue \<Rightarrow> (bool \<times> 'cb timer_queue) res" where
  "tq_insert p w =
    guard (tq_sizes w) sizes_assert
   (rbind (tq_deref p w) (\<lambda>tm.
    let when = tm_expiration tm;
        earliestChanged = (tq_timers w = [] \<or> when < fst (hd (tq_timers w)))
    in guard ((when, p) \<notin> set (tq_timers w)) (AssertFail ''result.second'')
      (let w1 = w\<lparr>tq_timers := set_insert (when, p) (tq_timers w)\<rparr> in
       guard ((p, tm_sequence tm) \<notin> set (tq_activeTimers w1)) (AssertFail ''result.second'')
      (let w2 = w1\<lparr>tq_activeTimers := set_insert (p, tm_sequence tm) (tq_activeTimers w1)\<rparr> in
       guard (tq_sizes w2) sizes_assert (Inr (earliestChanged, w2))))))"

definition addTimerInLoop :: "bool \<Rightarrow> nat \<Rightarrow> 'cb timer_queue \<Rightarrow> 'cb timer_queue res" where
  "addTimerInLoop in_loop p w =
    assertInLoopThread in_loop
   (rbind (tq_insert p w) (\<lambda>(earliestChanged, w).
    if earliestChanged then rbind (tq_deref p w) (\<lambda>tm. resetTimerfd (tm_expiration tm) w) else Inr w))"

definition cancelInLoop :: "bool \<Rightarrow> timer_id \<Rightarrow> 'cb timer_queue \<Rightarrow> 'cb timer_queue res" where
  "cancelInLoop in_loop tid w =
    assertInLoopThread in_loop
   (guard (tq_sizes w) sizes_assert
   (rbind (if tid \<in> set (tq_activeTimers w) then
             rbind (tq_deref (fst tid) w) (\<lambda>tm.
             guard ((tm_expiration tm, fst tid) \<in> set (tq_timers w)) (AssertFail ''n == 1'')
               (rbind (tq_delete (fst tid) (w\<lparr>tq_timers := set_erase (tm_expiration tm, fst tid) (tq_timers w)\<rparr>)) (\<lambda>w.
                Inr (w\<lparr>tq_activeTimers := set_erase tid (tq_activeTimers w)\<rparr>))))
           else if tq_callingExpiredTimers w then
             Inr (w\<lparr>tq_cancelingTimers := set_insert tid (tq_cancelingTimers w)\<rparr>)
           else Inr w) (\<lambda>w.
    guard (tq_sizes w) sizes_assert (Inr w))))"

definition tq_run_functor :: "tq_functor \<Rightarrow> 'cb timer_queue \<Rightarrow> 'cb timer_queue res" where
  "tq_run_functor f w = (case f of AddTimerInLoop p \<Rightarrow> addTimerInLoop True p w | CancelInLoop tid \<Rightarrow> cancelInLoop True tid w)"

text \<open>\<^verbatim>\<open>loop_->runInLoop\<close> on the functors of the timer queue: at once in the loop's thread, queued from another.\<close>

definition tq_runInLoop :: "bool \<Rightarrow> tq_functor \<Rightarrow> 'cb timer_queue \<Rightarrow> 'cb timer_queue res" where
  "tq_runInLoop in_loop f w = (if in_loop then tq_run_functor f w else Inr (w\<lparr>tq_pending := tq_pending w @ [f]\<rparr>))"

definition addTimer :: "bool \<Rightarrow> nat \<Rightarrow> 'cb \<Rightarrow> time_point \<Rightarrow> rat \<Rightarrow> 'cb timer_queue \<Rightarrow> (timer_id \<times> 'cb timer_queue) res" where
  "addTimer in_loop p cb when interval w =
    guard (tq_heap w p = None) (UndefinedBehaviour ''new returned an address in use'')
   (let tm = new_Timer cb when interval (tq_numCreated w);
        w1 = tq_put p tm (w\<lparr>tq_numCreated := tq_numCreated w + 1\<rparr>)
    in rbind (tq_runInLoop in_loop (AddTimerInLoop p) w1) (\<lambda>w. Inr ((p, tm_sequence tm), w)))"

definition tq_cancel :: "bool \<Rightarrow> timer_id \<Rightarrow> 'cb timer_queue \<Rightarrow> 'cb timer_queue res" where
  "tq_cancel in_loop tid w = tq_runInLoop in_loop (CancelInLoop tid) w"

fun erase_active :: "(time_point \<times> nat) list \<Rightarrow> 'cb timer_queue \<Rightarrow> 'cb timer_queue res" where
  "erase_active [] w = Inr w"
| "erase_active ((t, p) # es) w =
    rbind (tq_deref p w) (\<lambda>tm.
    guard ((p, tm_sequence tm) \<in> set (tq_activeTimers w)) (AssertFail ''n == 1'')
      (erase_active es (w\<lparr>tq_activeTimers := set_erase (p, tm_sequence tm) (tq_activeTimers w)\<rparr>)))"

definition getExpired :: "time_point \<Rightarrow> 'cb timer_queue \<Rightarrow> ((time_point \<times> nat) list \<times> 'cb timer_queue) res" where
  "getExpired now w =
    guard (tq_sizes w) sizes_assert
   (let expired = set_below (now, UINTPTR_MAX) (tq_timers w); rest = set_from (now, UINTPTR_MAX) (tq_timers w) in
    guard (rest = [] \<or> now < fst (hd rest)) (AssertFail ''it == timers_.end() || now < it->first'')
   (rbind (erase_active expired (w\<lparr>tq_timers := rest\<rparr>)) (\<lambda>w.
    guard (tq_sizes w) sizes_assert (Inr (expired, w)))))"

fun reset_entries :: "time_point \<Rightarrow> (time_point \<times> nat) list \<Rightarrow> 'cb timer_queue \<Rightarrow> 'cb timer_queue res" where
  "reset_entries now [] w = Inr w"
| "reset_entries now ((t, p) # es) w =
    rbind (tq_deref p w) (\<lambda>tm.
    rbind (if tm_repeat tm \<and> (p, tm_sequence tm) \<notin> set (tq_cancelingTimers w) then
             rbind (timer_restart now tm) (\<lambda>tm'.
             rbind (tq_insert p (tq_put p tm' w)) (\<lambda>(_, w). Inr w))
           else tq_delete p w) (reset_entries now es))"

definition tq_reset :: "(time_point \<times> nat) list \<Rightarrow> time_point \<Rightarrow> 'cb timer_queue \<Rightarrow> 'cb timer_queue res" where
  "tq_reset expired now w =
    rbind (reset_entries now expired w) (\<lambda>w.
    rbind (if tq_timers w = [] then Inr 0
           else rbind (tq_deref (snd (hd (tq_timers w))) w) (\<lambda>tm. Inr (tm_expiration tm))) (\<lambda>nextExpire.
    if nextExpire \<noteq> 0 then resetTimerfd nextExpire w else Inr w))"

text \<open>What a callback may do to the queue; it runs in the loop's thread.\<close>

datatype 'cb timer_call =
    CallAdd nat 'cb time_point rat
  | CallCancel timer_id

definition tq_call :: "bool \<Rightarrow> 'cb timer_call \<Rightarrow> 'cb timer_queue \<Rightarrow> 'cb timer_queue res" where
  "tq_call in_loop c w = (case c of
     CallAdd p cb when interval \<Rightarrow> rbind (addTimer in_loop p cb when interval w) (\<lambda>(tid, w). Inr w)
   | CallCancel tid \<Rightarrow> tq_cancel in_loop tid w)"

fun tq_calls :: "'cb timer_call list \<Rightarrow> 'cb timer_queue \<Rightarrow> 'cb timer_queue res" where
  "tq_calls [] w = Inr w"
| "tq_calls (c # cs) w = rbind (tq_call True c w) (tq_calls cs)"

type_synonym 'cb timer_behaviour = "'cb \<Rightarrow> 'cb timer_queue \<Rightarrow> 'cb timer_call list"

fun run_timers :: "'cb timer_behaviour \<Rightarrow> (time_point \<times> nat) list \<Rightarrow> 'cb timer_queue \<Rightarrow> 'cb timer_queue res" where
  "run_timers beh [] w = Inr w"
| "run_timers beh ((t, p) # es) w =
    rbind (tq_deref p w) (\<lambda>tm. rbind (tq_calls (beh (tm_callback tm) w) w) (run_timers beh es))"

text \<open>\<^verbatim>\<open>readTimerfd\<close> consumes the expiration: the one-shot timer is no longer armed.\<close>

definition readTimerfd :: "'cb timer_queue \<Rightarrow> 'cb timer_queue" where
  "readTimerfd w = w\<lparr>tq_armed := None\<rparr>"

definition tq_handleRead :: "'cb timer_behaviour \<Rightarrow> bool \<Rightarrow> 'cb timer_queue \<Rightarrow> 'cb timer_queue res" where
  "tq_handleRead beh in_loop w =
    assertInLoopThread in_loop
   (let (now, w) = tq_now w in
    rbind (getExpired now (readTimerfd w)) (\<lambda>(expired, w).
    rbind (run_timers beh expired (w\<lparr>tq_callingExpiredTimers := True, tq_cancelingTimers := []\<rparr>)) (\<lambda>w.
    tq_reset expired now (w\<lparr>tq_callingExpiredTimers := False\<rparr>))))"

text \<open>\<^verbatim>\<open>~TimerQueue\<close> deletes the timers that are still scheduled.\<close>

fun delete_all :: "(time_point \<times> nat) list \<Rightarrow> 'cb timer_queue \<Rightarrow> 'cb timer_queue res" where
  "delete_all [] w = Inr w"
| "delete_all ((t, p) # es) w = rbind (tq_delete p w) (delete_all es)"

definition destroy_TimerQueue :: "'cb timer_queue \<Rightarrow> 'cb timer_queue res" where
  "destroy_TimerQueue w = delete_all (tq_timers w) w"

text \<open>The interface of \<^verbatim>\<open>EventLoop\<close>.\<close>

definition loop_runAt :: "bool \<Rightarrow> nat \<Rightarrow> 'cb \<Rightarrow> time_point \<Rightarrow> 'cb timer_queue \<Rightarrow> (timer_id \<times> 'cb timer_queue) res" where
  "loop_runAt in_loop p cb time w = addTimer in_loop p cb time 0 w"

definition loop_runAfter :: "bool \<Rightarrow> nat \<Rightarrow> 'cb \<Rightarrow> rat \<Rightarrow> 'cb timer_queue \<Rightarrow> (timer_id \<times> 'cb timer_queue) res" where
  "loop_runAfter in_loop p cb delay w =
    (let (now, w) = tq_now w in
     rbind (to_microseconds delay) (\<lambda>us. rbind (tp_plus_us now us) (\<lambda>t. loop_runAt in_loop p cb t w)))"

definition loop_runEvery :: "bool \<Rightarrow> nat \<Rightarrow> 'cb \<Rightarrow> rat \<Rightarrow> 'cb timer_queue \<Rightarrow> (timer_id \<times> 'cb timer_queue) res" where
  "loop_runEvery in_loop p cb interval w =
    (let (now, w) = tq_now w in
     rbind (to_microseconds interval) (\<lambda>us. rbind (tp_plus_us now us) (\<lambda>t. addTimer in_loop p cb t interval w)))"

definition loop_cancel :: "bool \<Rightarrow> timer_id \<Rightarrow> 'cb timer_queue \<Rightarrow> 'cb timer_queue res" where
  "loop_cancel in_loop tid w = tq_cancel in_loop tid w"

section \<open>Ownership invariant\<close>

text \<open>
  Times the model accepts: readings of the clock and requested expirations after the epoch and far
  from the limits of 64 bits, intervals whose conversion is defined and not too long.
\<close>

definition tp_near :: "time_point \<Rightarrow> bool" where "tp_near t \<longleftrightarrow> 0 < t \<and> t < 2 ^ 61"

definition interval_ok :: "rat \<Rightarrow> bool" where
  "interval_ok i \<longleftrightarrow> (case to_microseconds i of Inl _ \<Rightarrow> False | Inr us \<Rightarrow> 0 \<le> us \<and> us * 1000 < 2 ^ 61)"

definition timer_ok :: "'cb timer \<Rightarrow> bool" where
  "timer_ok tm \<longleftrightarrow> 0 < tm_expiration tm \<and> tm_expiration tm < 2 ^ 62 \<and> interval_ok (tm_interval tm)"

text \<open>
  \<open>F\<close> are the live timers that are not scheduled: expired ones whose callbacks are being run and new ones
  whose \<^verbatim>\<open>addTimerInLoop\<close> is still pending. Every live timer is scheduled or in \<open>F\<close>, never both; the two
  ordered sets describe the same timers; sequence numbers are unique.
\<close>

definition tq_core :: "nat set \<Rightarrow> 'cb timer_queue \<Rightarrow> bool" where
  "tq_core F w \<longleftrightarrow>
    ordered (tq_timers w) \<and> ordered (tq_activeTimers w) \<and>
    (\<forall>t p. (t, p) \<in> set (tq_timers w) \<longrightarrow> (\<exists>tm. tq_heap w p = Some tm \<and> tm_expiration tm = t)) \<and>
    (\<forall>p s. (p, s) \<in> set (tq_activeTimers w) \<longleftrightarrow>
       (\<exists>tm. tq_heap w p = Some tm \<and> tm_sequence tm = s \<and> (tm_expiration tm, p) \<in> set (tq_timers w))) \<and>
    dom (tq_heap w) = snd ` set (tq_timers w) \<union> F \<and> F \<inter> snd ` set (tq_timers w) = {} \<and>
    (\<forall>p tm. tq_heap w p = Some tm \<longrightarrow> p < UINTPTR_MAX \<and> timer_ok tm \<and> tm_sequence tm \<le> tq_numCreated w) \<and>
    (\<forall>p q tm tm'. tq_heap w p = Some tm \<longrightarrow> tq_heap w q = Some tm' \<longrightarrow> tm_sequence tm = tm_sequence tm' \<longrightarrow> p = q) \<and>
    (\<forall>n. tp_near (tq_clock w n))"

lemma tq_coreD:
  assumes "tq_core F w"
  shows "ordered (tq_timers w)" and "ordered (tq_activeTimers w)"
    and "(t, p) \<in> set (tq_timers w) \<Longrightarrow> \<exists>tm. tq_heap w p = Some tm \<and> tm_expiration tm = t"
    and "(p, s) \<in> set (tq_activeTimers w) \<longleftrightarrow>
       (\<exists>tm. tq_heap w p = Some tm \<and> tm_sequence tm = s \<and> (tm_expiration tm, p) \<in> set (tq_timers w))"
    and "dom (tq_heap w) = snd ` set (tq_timers w) \<union> F" and "F \<inter> snd ` set (tq_timers w) = {}"
    and "tq_heap w p = Some tm \<Longrightarrow> p < UINTPTR_MAX \<and> timer_ok tm \<and> tm_sequence tm \<le> tq_numCreated w"
    and "tq_heap w p = Some tm \<Longrightarrow> tq_heap w q = Some tm' \<Longrightarrow> tm_sequence tm = tm_sequence tm' \<Longrightarrow> p = q"
    and "tp_near (tq_clock w n)"
  using assms unfolding tq_core_def by blast+

lemma tq_core_free:
  assumes "tq_core F w" and "p \<in> F"
  obtains tm where "tq_heap w p = Some tm" "p \<notin> snd ` set (tq_timers w)"
    "(t, p) \<notin> set (tq_timers w)" "(p, s) \<notin> set (tq_activeTimers w)"
proof -
  from tq_coreD(5) [OF assms(1)] assms(2) obtain tm where tm: "tq_heap w p = Some tm" by blast
  from tq_coreD(6) [OF assms(1)] assms(2) have p: "p \<notin> snd ` set (tq_timers w)" by blast
  then have "(t, p) \<notin> set (tq_timers w)" by force
  moreover from p tq_coreD(4) [OF assms(1)] have "(p, s) \<notin> set (tq_activeTimers w)" by force
  ultimately show thesis using that tm p by blast
qed

text \<open>The two sets have the same size: an entry and its active timer determine each other.\<close>

lemma tq_core_sizes: "tq_core F w \<Longrightarrow> tq_sizes w"
proof -
  assume core: "tq_core F w"
  let ?f = "\<lambda>(t, p). (p, tm_sequence (the (tq_heap w p)))"
  have "inj_on ?f (set (tq_timers w))"
  proof (rule inj_onI)
    fix x y assume x: "x \<in> set (tq_timers w)" and y: "y \<in> set (tq_timers w)" and eq: "?f x = ?f y"
    then have p: "snd x = snd y" by (auto split: prod.splits)
    obtain tm where "tq_heap w (snd x) = Some tm" "tm_expiration tm = fst x"
      using tq_coreD(3) [OF core, of "fst x" "snd x"] x by auto
    moreover obtain tm' where "tq_heap w (snd y) = Some tm'" "tm_expiration tm' = fst y"
      using tq_coreD(3) [OF core, of "fst y" "snd y"] y by auto
    ultimately show "x = y" using p by (simp add: prod_eq_iff)
  qed
  moreover have "set (tq_activeTimers w) = ?f ` set (tq_timers w)"
  proof (intro set_eqI)
    fix a :: "nat \<times> int"
    obtain p s where a: "a = (p, s)" by (cases a)
    show "a \<in> set (tq_activeTimers w) \<longleftrightarrow> a \<in> ?f ` set (tq_timers w)"
      unfolding a tq_coreD(4) [OF core]
      using tq_coreD(3) [OF core] by (force simp: image_iff)
  qed
  ultimately have "card (set (tq_activeTimers w)) = card (set (tq_timers w))" by (simp add: card_image)
  then show ?thesis
    using oset.sz_law [OF tq_coreD(1) [OF core]] oset.sz_law [OF tq_coreD(2) [OF core]] by (simp add: tq_sizes_def)
qed

text \<open>Fields the core does not look at.\<close>

lemma tq_core_irrelevant [simp]:
  "tq_core F (w\<lparr>tq_armed := a\<rparr>) = tq_core F w"
  "tq_core F (w\<lparr>tq_ticks := n\<rparr>) = tq_core F w"
  "tq_core F (w\<lparr>tq_pending := fs\<rparr>) = tq_core F w"
  "tq_core F (w\<lparr>tq_cancelingTimers := cs\<rparr>) = tq_core F w"
  "tq_core F (w\<lparr>tq_callingExpiredTimers := b\<rparr>) = tq_core F w"
  by (simp_all add: tq_core_def)

lemma tq_core_new:
  assumes core: "tq_core F w" and p: "tq_heap w p = None" "p < UINTPTR_MAX"
    and tm: "timer_ok tm" "tm_sequence tm = tq_numCreated w + 1"
  shows "tq_core (insert p F) (tq_put p tm (w\<lparr>tq_numCreated := tq_numCreated w + 1\<rparr>))"
proof -
  have notin: "p \<notin> snd ` set (tq_timers w)" "p \<notin> F" using tq_coreD(5) [OF core] p(1) by blast+
  have old: "tm_sequence x \<le> tq_numCreated w" if "tq_heap w q = Some x" for q x
    using tq_coreD(7) [OF core that] by simp
  have seq: "tm_sequence x \<noteq> tq_numCreated w + 1" if "tq_heap w q = Some x" for q x
    using old [OF that] by simp
  have t: "(t, p) \<notin> set (tq_timers w)" for t using notin(1) by force
  show ?thesis
    unfolding tq_core_def tq_put_def
  proof (intro conjI allI, goal_cases)
    case (4 q s)
    then show ?case using tq_coreD(4) [OF core, of q s] t p(1) by auto
  next
    case (7 q x)
    show ?case using tq_coreD(7) [OF core, of q x] p(2) tm by auto
  next
    case (8 q r x y)
    show ?case using tq_coreD(8) [OF core, of q x r y] seq tm(2) by (auto split: if_splits)
  qed (use core notin t in \<open>auto simp: tq_core_def\<close>)
qed

lemma tq_core_restart:
  assumes core: "tq_core F w" and p: "p \<in> F" "tq_heap w p = Some tm"
    and tm': "timer_ok tm'" "tm_sequence tm' = tm_sequence tm"
  shows "tq_core F (tq_put p tm' w)"
proof -
  from tq_coreD(6) [OF core] p have t: "(t, p) \<notin> set (tq_timers w)" for t by force
  show ?thesis
    unfolding tq_core_def tq_put_def
  proof (intro conjI allI, goal_cases)
    case (4 q s)
    then show ?case using tq_coreD(4) [OF core, of q s] t by auto
  next
    case (8 q r x y)
    note u = tq_coreD(8) [OF core]
    show ?case
    proof (cases "q = p"; cases "r = p")
      assume "q = p" "r \<noteq> p"
      with u [of p tm r y] p(2) tm'(2) show ?thesis by auto
    next
      assume "q \<noteq> p" "r = p"
      with u [of q x p tm] p(2) tm'(2) show ?thesis by auto
    next
      assume "q \<noteq> p" "r \<noteq> p"
      with u [of q x r y] show ?thesis by auto
    qed simp
  next
    case (7 q x)
    show ?case using tq_coreD(7) [OF core, of q] p(2) tm' by auto
  qed (use core t p in \<open>auto simp: tq_core_def\<close>)
qed

lemma tq_core_delete:
  assumes core: "tq_core F w" and p: "p \<in> F"
  shows "\<exists>w'. tq_delete p w = Inr w' \<and> tq_core (F - {p}) w' \<and> w' = w\<lparr>tq_heap := (tq_heap w)(p := None)\<rparr>"
proof -
  obtain tm where tm: "tq_heap w p = Some tm" "p \<notin> snd ` set (tq_timers w)" using tq_core_free [OF core p] by blast
  then have t: "(t, p) \<notin> set (tq_timers w)" for t by force
  have "tq_core (F - {p}) (w\<lparr>tq_heap := (tq_heap w)(p := None)\<rparr>)"
    unfolding tq_core_def
  proof (intro conjI allI, goal_cases)
    case (4 q s)
    then show ?case using tq_coreD(4) [OF core, of q s] t by auto
  next
    case (8 q r x y)
    show ?case using tq_coreD(8) [OF core, of q x r y] by auto
  qed (use core t tm p in \<open>auto simp: tq_core_def\<close>)
  with tm show ?thesis by (simp add: tq_delete_def)
qed

lemma tq_insert_ok:
  assumes core: "tq_core F w" and p: "p \<in> F"
  shows "\<exists>tm. tq_heap w p = Some tm \<and>
    tq_insert p w = Inr (tq_timers w = [] \<or> tm_expiration tm < fst (hd (tq_timers w)),
      w\<lparr>tq_timers := set_insert (tm_expiration tm, p) (tq_timers w),
        tq_activeTimers := set_insert (p, tm_sequence tm) (tq_activeTimers w)\<rparr>) \<and>
    tq_core (F - {p}) (w\<lparr>tq_timers := set_insert (tm_expiration tm, p) (tq_timers w),
        tq_activeTimers := set_insert (p, tm_sequence tm) (tq_activeTimers w)\<rparr>)"
proof -
  from tq_coreD(5) [OF core] p obtain tm where tm: "tq_heap w p = Some tm" by blast
  from tq_coreD(6) [OF core] p have "p \<notin> snd ` set (tq_timers w)" by blast
  then have t: "(t, p) \<notin> set (tq_timers w)" for t by force
  then have s: "(p, s) \<notin> set (tq_activeTimers w)" for s using tq_coreD(4) [OF core] by blast
  let ?w = "w\<lparr>tq_timers := set_insert (tm_expiration tm, p) (tq_timers w),
        tq_activeTimers := set_insert (p, tm_sequence tm) (tq_activeTimers w)\<rparr>"
  have core': "tq_core (F - {p}) ?w"
    unfolding tq_core_def
  proof (intro conjI allI, goal_cases)
    case (4 q s)
    then show ?case using tq_coreD(4) [OF core, of q s] t tm by auto
  next
    case 6
    then show ?case using tq_coreD(6) [OF core] by auto
  next
    case (8 q r x y)
    show ?case using tq_coreD(8) [OF core, of q x r y] by simp
  qed (use core t tm p in \<open>auto simp: tq_core_def ordered_set_insert\<close>)
  have "tq_insert p w = Inr (tq_timers w = [] \<or> tm_expiration tm < fst (hd (tq_timers w)), ?w)"
    using tq_core_sizes [OF core] tq_core_sizes [OF core'] t s by (simp add: tq_insert_def tq_deref_def tm Let_def)
  with tm core' show ?thesis by blast
qed

lemma tq_cancel_ok:
  assumes core: "tq_core F w"
  shows "\<exists>w'. cancelInLoop True tid w = Inr w' \<and> tq_core F w' \<and>
    (if tid \<in> set (tq_activeTimers w) then
       w' = w\<lparr>tq_heap := (tq_heap w)(fst tid := None),
              tq_timers := filter (\<lambda>e. snd e \<noteq> fst tid) (tq_timers w),
              tq_activeTimers := set_erase tid (tq_activeTimers w)\<rparr>
     else w' = (if tq_callingExpiredTimers w
                then w\<lparr>tq_cancelingTimers := set_insert tid (tq_cancelingTimers w)\<rparr> else w))"
proof (cases "tid \<in> set (tq_activeTimers w)")
  case False
  with core tq_core_sizes [OF core] show ?thesis by (auto simp: cancelInLoop_def tq_sizes_def)
next
  case True
  obtain p s where tid: "tid = (p, s)" by (cases tid)
  with True tq_coreD(4) [OF core] obtain tm where
    tm: "tq_heap w p = Some tm" "tm_sequence tm = s" "(tm_expiration tm, p) \<in> set (tq_timers w)" by blast
  have uniq: "e = (tm_expiration tm, p)" if "e \<in> set (tq_timers w)" "snd e = p" for e
  proof -
    obtain tm' where "tq_heap w (snd e) = Some tm'" "tm_expiration tm' = fst e"
      using tq_coreD(3) [OF core, of "fst e" "snd e"] \<open>e \<in> set (tq_timers w)\<close> by auto
    with that(2) tm(1) show ?thesis by (simp add: prod_eq_iff)
  qed
  have erase: "set_erase (tm_expiration tm, p) (tq_timers w) = filter (\<lambda>e. snd e \<noteq> p) (tq_timers w)"
    unfolding set_erase_def by (intro filter_cong refl) (metis snd_conv uniq)
  let ?w = "w\<lparr>tq_heap := (tq_heap w)(p := None), tq_timers := filter (\<lambda>e. snd e \<noteq> p) (tq_timers w),
              tq_activeTimers := set_erase tid (tq_activeTimers w)\<rparr>"
  have pF: "p \<notin> F" using tq_coreD(6) [OF core] tm(3) by force
  have core': "tq_core F ?w"
    unfolding tq_core_def
  proof (intro conjI allI, goal_cases)
    case (4 q s')
    then show ?case using tq_coreD(4) [OF core, of q s'] tm by (auto simp: tid)
  next
    case 5
    then show ?case using tq_coreD(5) [OF core] pF by auto
  next
    case 6
    then show ?case using tq_coreD(6) [OF core] by auto
  next
    case (8 q r x y)
    show ?case using tq_coreD(8) [OF core, of q x r y] by auto
  qed (use core in \<open>auto simp: tq_core_def ordered_set_erase sorted_wrt_filter\<close>)
  have "cancelInLoop True tid w = Inr ?w"
    using tq_core_sizes [OF core] tq_core_sizes [OF core'] True tm
    by (simp add: cancelInLoop_def tq_deref_def tq_delete_def tid erase tq_sizes_def)
  with core' True show ?thesis by (simp add: tid)
qed

lemma erase_active_ok:
  assumes "\<forall>(t, p) \<in> set es. \<exists>tm. tq_heap w p = Some tm \<and> (p, tm_sequence tm) \<in> set (tq_activeTimers w)"
    and "distinct (map snd es)"
  shows "erase_active es w =
    Inr (w\<lparr>tq_activeTimers := filter (\<lambda>a. fst a \<notin> snd ` set es \<or> snd a \<noteq> tm_sequence (the (tq_heap w (fst a)))) (tq_activeTimers w)\<rparr>)"
  using assms
proof (induction es arbitrary: w)
  case (Cons e es)
  obtain t p where e: "e = (t, p)" by (cases e)
  with Cons.prems(1) obtain tm where tm: "tq_heap w p = Some tm" "(p, tm_sequence tm) \<in> set (tq_activeTimers w)" by auto
  let ?w = "w\<lparr>tq_activeTimers := set_erase (p, tm_sequence tm) (tq_activeTimers w)\<rparr>"
  have "\<forall>(t, q) \<in> set es. \<exists>tm. tq_heap ?w q = Some tm \<and> (q, tm_sequence tm) \<in> set (tq_activeTimers ?w)"
    using Cons.prems e by force
  from Cons.IH [OF this] Cons.prems(2) tm show ?case
    by (simp add: e tq_deref_def set_erase_def) (intro arg_cong [of _ _ "\<lambda>l. w\<lparr>tq_activeTimers := l\<rparr>"] filter_cong, auto)
qed simp

text \<open>\<^verbatim>\<open>getExpired\<close> takes exactly the entries that are due, in order, and leaves the others.\<close>

lemma expired_split:
  assumes core: "tq_core F w"
  shows "set (set_below (now, UINTPTR_MAX) (tq_timers w)) = {e \<in> set (tq_timers w). fst e \<le> now}"
    and "set (set_from (now, UINTPTR_MAX) (tq_timers w)) = {e \<in> set (tq_timers w). now < fst e}"
proof -
  have p: "snd e < UINTPTR_MAX" if "e \<in> set (tq_timers w)" for e
  proof -
    from that have "(fst e, snd e) \<in> set (tq_timers w)" by simp
    with tq_coreD(3) [OF core] obtain tm where "tq_heap w (snd e) = Some tm" by blast
    with tq_coreD(7) [OF core] show ?thesis by blast
  qed
  then have "e < (now, UINTPTR_MAX) \<longleftrightarrow> fst e \<le> now" if "e \<in> set (tq_timers w)" for e
    using p [OF that] by (cases e) (auto simp: less_prod_def)
  then show "set (set_below (now, UINTPTR_MAX) (tq_timers w)) = {e \<in> set (tq_timers w). fst e \<le> now}"
    "set (set_from (now, UINTPTR_MAX) (tq_timers w)) = {e \<in> set (tq_timers w). now < fst e}"
    by (auto simp: set_set_below [OF tq_coreD(1) [OF core]] set_set_from [OF tq_coreD(1) [OF core]])
qed

lemma timers_snd_inj:
  assumes core: "tq_core F w" and "e \<in> set (tq_timers w)" "e' \<in> set (tq_timers w)" "snd e = snd e'"
  shows "e = e'"
proof -
  obtain tm where "tq_heap w (snd e) = Some tm" "tm_expiration tm = fst e"
    using tq_coreD(3) [OF core, of "fst e" "snd e"] assms(2) by auto
  moreover obtain tm' where "tq_heap w (snd e') = Some tm'" "tm_expiration tm' = fst e'"
    using tq_coreD(3) [OF core, of "fst e'" "snd e'"] assms(3) by auto
  ultimately show ?thesis using assms(4) by (simp add: prod_eq_iff)
qed

lemma tq_core_expired:
  fixes now :: time_point
  assumes core: "tq_core F w"
  defines "es \<equiv> set_below (now, UINTPTR_MAX) (tq_timers w)" and "rest \<equiv> set_from (now, UINTPTR_MAX) (tq_timers w)"
  shows "tq_core (F \<union> snd ` set es) (w\<lparr>tq_timers := rest, tq_activeTimers := filter (\<lambda>a. fst a \<notin> snd ` set es \<or>
    snd a \<noteq> tm_sequence (the (tq_heap w (fst a)))) (tq_activeTimers w)\<rparr>)"
proof -
  note split = expired_split [OF core, of now, folded es_def rest_def]
  note ord = ordered_below_from [OF tq_coreD(1) [OF core], of "(now, UINTPTR_MAX)", folded es_def rest_def]
  have both: "p \<notin> snd ` set es" if "(t, p) \<in> set rest" for t p
  proof
    assume "p \<in> snd ` set es"
    then obtain t' where "(t', p) \<in> set es" by auto
    with that split timers_snd_inj [OF core, of "(t', p)" "(t, p)"] show False by auto
  qed
  have dom: "snd ` set (tq_timers w) = snd ` set rest \<union> snd ` set es"
    using split by (auto simp: image_iff not_le intro: le_less_linear)
  show ?thesis unfolding tq_core_def
  proof (intro conjI allI, goal_cases)
    case 2
    then show ?case using tq_coreD(2) [OF core] by (simp add: sorted_wrt_filter)
  next
    case (3 t p)
    show ?case using tq_coreD(3) [OF core, of t p] split(2) by auto
  next
    case (4 p s)
    have "(tm_expiration tm, p) \<in> set rest \<longleftrightarrow> (tm_expiration tm, p) \<in> set (tq_timers w) \<and> p \<notin> snd ` set es"
      if "tq_heap w p = Some tm" for tm
      using both [of "tm_expiration tm" p] split by (force simp: not_le)
    then show ?case using tq_coreD(4) [OF core, of p s] by auto
  next
    case 5
    then show ?case using tq_coreD(5) [OF core] dom by auto
  next
    case 6
    have "q \<notin> F \<union> snd ` set es" if "q \<in> snd ` set rest" for q
    proof -
      from that obtain t where "(t, q) \<in> set rest" by auto
      with both [OF this] tq_coreD(6) [OF core] split(2) show ?thesis by force
    qed
    then show ?case unfolding disjoint_iff by simp blast
  next
    case (8 q r x y)
    show ?case using tq_coreD(8) [OF core, of q x r y] by simp
  qed (use core ord in \<open>auto simp: tq_core_def\<close>)
qed

lemma getExpired_ok:
  assumes core: "tq_core F w"
  shows "\<exists>es w'. getExpired now w = Inr (es, w') \<and> set es = {e \<in> set (tq_timers w). fst e \<le> now} \<and> ordered es \<and>
    set (tq_timers w') = {e \<in> set (tq_timers w). now < fst e} \<and> distinct (map snd es) \<and>
    tq_core (F \<union> snd ` set es) w' \<and> F \<inter> snd ` set es = {} \<and>
    (\<exists>ts as. w' = w\<lparr>tq_timers := ts, tq_activeTimers := as\<rparr>)"
proof -
  let ?es = "set_below (now, UINTPTR_MAX) (tq_timers w)" and ?rest = "set_from (now, UINTPTR_MAX) (tq_timers w)"
  note split = expired_split [OF core, of now]
  note ord = ordered_below_from [OF tq_coreD(1) [OF core], of "(now, UINTPTR_MAX)"]
  have dist: "distinct (map snd ?es)"
    unfolding distinct_map using ordered_distinct [OF ord(1)] timers_snd_inj [OF core] split(1)
    by (auto intro!: inj_onI)
  have act: "\<exists>tm. tq_heap w p = Some tm \<and> (p, tm_sequence tm) \<in> set (tq_activeTimers w)"
    if "(t, p) \<in> set (tq_timers w)" for t p
    using tq_coreD(3) [OF core that] tq_coreD(4) [OF core, of p] that by auto
  let ?f = "\<lambda>a. fst a \<notin> snd ` set ?es \<or> snd a \<noteq> tm_sequence (the (tq_heap w (fst a)))"
  let ?w = "w\<lparr>tq_timers := ?rest, tq_activeTimers := filter ?f (tq_activeTimers w)\<rparr>"
  have ea: "erase_active ?es (w\<lparr>tq_timers := ?rest\<rparr>) = Inr ?w"
    using act split(1) dist by (subst erase_active_ok) auto
  note core' = tq_core_expired [OF core, of now]
  have "?rest = [] \<or> now < fst (hd ?rest)" using split(2) by (metis (mono_tags, lifting) hd_in_set mem_Collect_eq)
  then have "getExpired now w = Inr (?es, ?w)"
    using tq_core_sizes [OF core] tq_core_sizes [OF core'] by (simp add: getExpired_def ea Let_def)
  moreover have "F \<inter> snd ` set ?es = {}" using tq_coreD(6) [OF core] split(1) by auto
  moreover have ex: "\<exists>ts as. ?w = w\<lparr>tq_timers := ts, tq_activeTimers := as\<rparr>" by blast
  ultimately show ?thesis
    using core' ord split dist
    by - (rule exI [of _ ?es], rule exI [of _ ?w], intro conjI ex, simp_all)
qed

lemma to_us_interval:
  assumes "interval_ok i" and "tp_near now"
  obtains us where "to_microseconds i = Inr us" "tp_plus_us now us = Inr (now + us * 1000)"
    "0 \<le> us" "0 < now + us * 1000" "now + us * 1000 < 2 ^ 62"
proof -
  from assms(1) obtain us where us: "to_microseconds i = Inr us" "0 \<le> us" "us * 1000 < 2 ^ 61"
    by (auto simp: interval_ok_def split: sum.splits)
  with assms(2) show thesis by (intro that [of us]) (auto simp: tp_plus_us_def i64_def tp_near_def)
qed

lemma timer_restart_ok:
  assumes "timer_ok tm" and "tp_near now" and "tm_repeat tm"
  shows "\<exists>us. to_microseconds (tm_interval tm) = Inr us \<and>
    timer_restart now tm = Inr (tm\<lparr>tm_expiration := now + us * 1000\<rparr>) \<and> timer_ok (tm\<lparr>tm_expiration := now + us * 1000\<rparr>)"
proof -
  from assms(1) have "interval_ok (tm_interval tm)" by (simp add: timer_ok_def)
  then obtain us where us: "to_microseconds (tm_interval tm) = Inr us" "tp_plus_us now us = Inr (now + us * 1000)"
    "0 < now + us * 1000" "now + us * 1000 < 2 ^ 62" by (rule to_us_interval [OF _ assms(2)])
  with assms show ?thesis by (simp add: timer_restart_def timer_ok_def)
qed

text \<open>The timerfd is armed for an expiration: not before 100 microseconds, and within a microsecond of it.\<close>

abbreviation ts_ns :: "timespec \<Rightarrow> int" where "ts_ns ts \<equiv> tv_sec ts * 1000000000 + tv_nsec ts"

lemma howMuch_ok:
  assumes "0 < when" "when < 2 ^ 62" and "tp_near now"
  shows "\<exists>ts. howMuchTimeFromNow now when = Inr ts \<and> 0 \<le> tv_sec ts \<and> 0 \<le> tv_nsec ts \<and> tv_nsec ts < 1000000000 \<and>
    ts_ns ts = max 100000 ((when - now) div 1000 * 1000)"
proof -
  let ?d = "when - now"
  let ?us = "if tdiv ?d 1000 < 100 then 100 else tdiv ?d 1000"
  have us: "100 \<le> ?us" "?us * 1000 = max 100000 (?d div 1000 * 1000)"
  proof -
    show "100 \<le> ?us" by simp
    show "?us * 1000 = max 100000 (?d div 1000 * 1000)"
    proof (cases "0 \<le> ?d")
      case True
      then have "tdiv ?d 1000 = ?d div 1000" by (simp add: tdiv_def)
      then show ?thesis by simp
    next
      case False
      then have "tdiv ?d 1000 \<le> 0" "?d div 1000 < 0" by (simp_all add: tdiv_def pos_imp_zdiv_nonneg_iff)
      then show ?thesis by simp
    qed
  qed
  have "i64 ?d" using assms by (simp add: i64_def tp_near_def)
  then have run: "howMuchTimeFromNow now when =
      Inr \<lparr>tv_sec = tdiv ?us MicroSecondsPerSecond, tv_nsec = tmod ?us MicroSecondsPerSecond * 1000\<rparr>"
    by (simp add: howMuchTimeFromNow_def tp_minus_def Let_def)
  define us where "us = ?us"
  have "100 \<le> us" "us * 1000 = max 100000 (?d div 1000 * 1000)" using us unfolding us_def by blast+
  moreover have "us div 1000000 * 1000000000 + us mod 1000000 * 1000 = us * 1000" by presburger
  moreover have "0 \<le> us mod 1000000" "us mod 1000000 < 1000000" by simp_all
  ultimately show ?thesis
    unfolding run us_def [symmetric] by (simp add: tdiv_def tmod_def MicroSecondsPerSecond_def minus_div_mult_eq_mod)
qed

lemma resetTimerfd_ok:
  assumes "0 < when" "when < 2 ^ 62" and "\<And>n. tp_near (tq_clock w n)"
  shows "\<exists>t0 ts. resetTimerfd when w = Inr (w\<lparr>tq_ticks := Suc (tq_ticks w), tq_armed := Some (t0, ts)\<rparr>) \<and>
    t0 + ts_ns ts \<le> max when (t0 + 100000)"
proof -
  let ?now = "tq_clock w (tq_ticks w)"
  from howMuch_ok [OF assms(1,2,3)] obtain ts where
    ts: "howMuchTimeFromNow ?now when = Inr ts" "ts_ns ts = max 100000 ((when - ?now) div 1000 * 1000)" by blast
  have "(when - ?now) div 1000 * 1000 \<le> when - ?now" by (simp add: minus_mod_eq_div_mult [symmetric])
  with ts(2) have "?now + ts_ns ts \<le> max when (?now + 100000)" by linarith
  with ts(1) show ?thesis by (intro exI [of _ ?now] exI [of _ ts]) (simp add: resetTimerfd_def tq_now_def)
qed

section \<open>Invariant of the queue with its pending functors\<close>

definition padds :: "tq_functor list \<Rightarrow> nat list" where
  "padds fs = concat (map (\<lambda>f. case f of AddTimerInLoop p \<Rightarrow> [p] | CancelInLoop tid \<Rightarrow> []) fs)"

lemma padds_simps [simp]:
  "padds [] = []" "padds (AddTimerInLoop p # fs) = p # padds fs" "padds (CancelInLoop tid # fs) = padds fs"
  "padds (fs @ gs) = padds fs @ padds gs"
  by (simp_all add: padds_def)

definition tq_inv :: "nat list \<Rightarrow> 'cb timer_queue \<Rightarrow> bool" where
  "tq_inv X w \<longleftrightarrow> tq_core (set X \<union> set (padds (tq_pending w))) w \<and> distinct (X @ padds (tq_pending w))"

definition armed_ok :: "'cb timer_queue \<Rightarrow> bool" where
  "armed_ok w \<longleftrightarrow> (case tq_timers w of [] \<Rightarrow> True
     | e # _ \<Rightarrow> (case tq_armed w of None \<Rightarrow> False | Some (t0, ts) \<Rightarrow> t0 + ts_ns ts \<le> max (fst e) (t0 + 100000)))"

text \<open>What calls made from a callback leave alone: the timers in flight, the clock, the flag.\<close>

definition tq_frame :: "nat set \<Rightarrow> 'cb timer_queue \<Rightarrow> 'cb timer_queue \<Rightarrow> bool" where
  "tq_frame X w w' \<longleftrightarrow> (\<forall>p \<in> X. tq_heap w' p = tq_heap w p) \<and> tq_clock w' = tq_clock w \<and>
    tq_callingExpiredTimers w' = tq_callingExpiredTimers w \<and>
    set (tq_cancelingTimers w) \<subseteq> set (tq_cancelingTimers w')"

lemma tq_frame_refl [simp]: "tq_frame X w w"
  by (simp add: tq_frame_def)

lemma tq_frame_trans: "tq_frame X u v \<Longrightarrow> tq_frame X v w \<Longrightarrow> tq_frame X u w"
  by (auto simp: tq_frame_def)

lemma fst_hd_set_insert:
  "fst (hd (set_insert (t, p) xs)) = (if xs = [] \<or> t < fst (hd xs) then t else fst (hd xs))"
  for t :: "'a::linorder" and p :: "'b::linorder"
  by (cases xs) (auto simp: less_prod_def)

lemma set_insert_not_Nil [simp]: "set_insert x xs \<noteq> []"
  by (cases xs) auto

lemma armed_ok_hd: "armed_ok w \<longleftrightarrow> (tq_timers w \<noteq> [] \<longrightarrow>
    (\<exists>t0 ts. tq_armed w = Some (t0, ts) \<and> t0 + ts_ns ts \<le> max (fst (hd (tq_timers w))) (t0 + 100000)))"
  by (auto simp: armed_ok_def split: list.splits option.splits)

lemma addTimerInLoop_ok:
  assumes core: "tq_core F w" and p: "p \<in> F"
  shows "\<exists>w'. addTimerInLoop True p w = Inr w' \<and> tq_core (F - {p}) w' \<and> tq_heap w' = tq_heap w \<and>
    tq_pending w' = tq_pending w \<and> tq_frame UNIV w w' \<and> tq_numCreated w' = tq_numCreated w \<and>
    (armed_ok w \<longrightarrow> armed_ok w') \<and> (\<exists>t. (t, p) \<in> set (tq_timers w'))"
proof -
  from tq_insert_ok [OF core p] obtain tm w1 where
    tm: "tq_heap w p = Some tm"
    and w1: "w1 = w\<lparr>tq_timers := set_insert (tm_expiration tm, p) (tq_timers w),
        tq_activeTimers := set_insert (p, tm_sequence tm) (tq_activeTimers w)\<rparr>"
    and ins: "tq_insert p w = Inr (tq_timers w = [] \<or> tm_expiration tm < fst (hd (tq_timers w)), w1)"
    and core1: "tq_core (F - {p}) w1" by blast
  have heap1: "tq_heap w1 p = Some tm" using tm w1 by simp
  show ?thesis
  proof (cases "tq_timers w = [] \<or> tm_expiration tm < fst (hd (tq_timers w))")
    case True
    from tq_coreD(7) [OF core tm] have "0 < tm_expiration tm" "tm_expiration tm < 2 ^ 62"
      by (simp_all add: timer_ok_def)
    from resetTimerfd_ok [OF this, of w1] tq_coreD(9) [OF core1] obtain t0 ts where
      r: "resetTimerfd (tm_expiration tm) w1 = Inr (w1\<lparr>tq_ticks := Suc (tq_ticks w1), tq_armed := Some (t0, ts)\<rparr>)"
        "t0 + ts_ns ts \<le> max (tm_expiration tm) (t0 + 100000)" by blast
    with True heap1 ins core1 show ?thesis
      by (auto simp: addTimerInLoop_def tq_deref_def armed_ok_hd fst_hd_set_insert tq_frame_def w1)
  next
    case False
    with ins core1 show ?thesis
      by (auto simp: addTimerInLoop_def armed_ok_hd fst_hd_set_insert tq_frame_def w1)
  qed
qed

lemma cancelInLoop_ok:
  assumes core: "tq_core F w"
  shows "\<exists>w'. cancelInLoop True tid w = Inr w' \<and> tq_core F w' \<and> tq_pending w' = tq_pending w \<and>
    tq_frame F w w' \<and> (armed_ok w \<longrightarrow> armed_ok w')"
proof -
  from tq_cancel_ok [OF core, of tid] obtain w' where w': "cancelInLoop True tid w = Inr w'" "tq_core F w'"
    "if tid \<in> set (tq_activeTimers w) then
       w' = w\<lparr>tq_heap := (tq_heap w)(fst tid := None), tq_timers := filter (\<lambda>e. snd e \<noteq> fst tid) (tq_timers w),
              tq_activeTimers := set_erase tid (tq_activeTimers w)\<rparr>
     else w' = (if tq_callingExpiredTimers w
                then w\<lparr>tq_cancelingTimers := set_insert tid (tq_cancelingTimers w)\<rparr> else w)" by blast
  show ?thesis
  proof (cases "tid \<in> set (tq_activeTimers w)")
    case True
    with w'(3) have eq: "w' = w\<lparr>tq_heap := (tq_heap w)(fst tid := None),
      tq_timers := filter (\<lambda>e. snd e \<noteq> fst tid) (tq_timers w),
      tq_activeTimers := set_erase tid (tq_activeTimers w)\<rparr>" by simp
    from True tq_coreD(4) [OF core, of "fst tid" "snd tid"] tq_coreD(6) [OF core] have "fst tid \<notin> F" by force
    then have "tq_frame F w w'" by (auto simp: tq_frame_def eq)
    moreover have "armed_ok w'" if armed: "armed_ok w"
    proof (cases "tq_timers w' = []")
      case False
      then have mem: "hd (tq_timers w') \<in> set (tq_timers w)" using hd_in_set [OF False] by (simp add: eq)
      then have "tq_timers w \<noteq> []" by auto
      moreover from ordered_hd_le [OF tq_coreD(1) [OF core] mem]
      have "fst (hd (tq_timers w)) \<le> fst (hd (tq_timers w'))" by (auto simp: less_eq_prod_def)
      ultimately show ?thesis using armed by (auto simp: armed_ok_hd eq)
    qed (simp add: armed_ok_hd)
    ultimately show ?thesis using w'(1,2) by (auto simp: eq)
  next
    case False
    with w' show ?thesis by (auto simp: tq_frame_def armed_ok_hd)
  qed
qed

definition call_ok :: "'cb timer_queue \<Rightarrow> 'cb timer_call \<Rightarrow> bool" where
  "call_ok w c = (case c of
     CallAdd p cb when interval \<Rightarrow> tq_heap w p = None \<and> p < UINTPTR_MAX \<and> 0 < when \<and> when < 2 ^ 62 \<and> interval_ok interval
   | CallCancel tid \<Rightarrow> True)"

lemma tq_call_add_ok:
  assumes inv: "tq_inv X w" and ok: "call_ok w (CallAdd p cb t itv)"
  shows "\<exists>w'. tq_call in_loop (CallAdd p cb t itv) w = Inr w' \<and> tq_inv X w' \<and> tq_frame (set X) w w' \<and> (armed_ok w \<longrightarrow> armed_ok w')"
proof -
  let ?tm = "new_Timer cb t itv (tq_numCreated w)"
  let ?w = "tq_put p ?tm (w\<lparr>tq_numCreated := tq_numCreated w + 1\<rparr>)"
  let ?F = "set X \<union> set (padds (tq_pending w))"
  from inv have core: "tq_core ?F w" and dist: "distinct (X @ padds (tq_pending w))" by (simp_all add: tq_inv_def)
  from ok have p: "tq_heap w p = None" "p < UINTPTR_MAX" "timer_ok ?tm"
    by (simp_all add: call_ok_def timer_ok_def new_Timer_def)
  from tq_core_new [OF core p] have core1: "tq_core (insert p ?F) ?w" by (simp add: new_Timer_def)
  have pF: "p \<notin> ?F" using tq_coreD(5) [OF core] p(1) by blast
  have fr: "tq_frame (set X) w ?w" using pF by (auto simp: tq_frame_def tq_put_def)
  have arm: "armed_ok w \<Longrightarrow> armed_ok ?w" by (simp add: armed_ok_hd tq_put_def)
  show ?thesis
  proof (cases in_loop)
    case True
    from addTimerInLoop_ok [OF core1, of p] obtain w' where w': "addTimerInLoop True p ?w = Inr w'"
      "tq_core (insert p ?F - {p}) w'" "tq_pending w' = tq_pending ?w" "tq_frame UNIV ?w w'"
      "armed_ok ?w \<longrightarrow> armed_ok w'" by blast
    from w'(4) have "tq_frame (set X) ?w w'" by (auto simp: tq_frame_def)
    with fr have "tq_frame (set X) w w'" by (rule tq_frame_trans)
    moreover from w'(2,3) pF dist have "tq_inv X w'" by (simp add: tq_inv_def tq_put_def)
    ultimately show ?thesis using w' arm p(1) True
      by (simp add: tq_call_def addTimer_def tq_runInLoop_def tq_run_functor_def)
  next
    case False
    let ?w2 = "?w\<lparr>tq_pending := tq_pending w @ [AddTimerInLoop p]\<rparr>"
    have "tq_inv X ?w2" using core1 pF dist by (auto simp: tq_inv_def insert_commute Un_commute Un_left_commute)
    moreover have "tq_frame (set X) w ?w2" using fr by (simp add: tq_frame_def)
    ultimately show ?thesis using arm p(1) False
      by (simp add: tq_call_def addTimer_def tq_runInLoop_def Let_def tq_put_def armed_ok_hd)
  qed
qed

lemma tq_call_cancel_ok:
  assumes inv: "tq_inv X w"
  shows "\<exists>w'. tq_call in_loop (CallCancel tid) w = Inr w' \<and> tq_inv X w' \<and> tq_frame (set X) w w' \<and> (armed_ok w \<longrightarrow> armed_ok w')"
proof -
  from inv have core: "tq_core (set X \<union> set (padds (tq_pending w))) w"
    and dist: "distinct (X @ padds (tq_pending w))" by (simp_all add: tq_inv_def)
  show ?thesis
  proof (cases in_loop)
    case True
    from cancelInLoop_ok [OF core, of tid] obtain w' where w': "cancelInLoop True tid w = Inr w'"
      "tq_core (set X \<union> set (padds (tq_pending w))) w'" "tq_pending w' = tq_pending w"
      "tq_frame (set X \<union> set (padds (tq_pending w))) w w'" "armed_ok w \<longrightarrow> armed_ok w'" by blast
    then have "tq_frame (set X) w w'" "tq_inv X w'" using dist by (auto simp: tq_frame_def tq_inv_def)
    with w' True show ?thesis
      by (simp add: tq_call_def tq_cancel_def tq_runInLoop_def tq_run_functor_def)
  next
    case False
    with inv show ?thesis
      by (simp add: tq_call_def tq_cancel_def tq_runInLoop_def tq_inv_def tq_frame_def armed_ok_hd)
  qed
qed

lemma tq_call_ok:
  assumes inv: "tq_inv X w" and ok: "call_ok w c"
  shows "\<exists>w'. tq_call in_loop c w = Inr w' \<and> tq_inv X w' \<and> tq_frame (set X) w w' \<and> (armed_ok w \<longrightarrow> armed_ok w')"
  using tq_call_add_ok [OF inv] tq_call_cancel_ok [OF inv] ok by (cases c) blast+

section \<open>Callbacks and reset\<close>

fun calls_ok :: "'cb timer_queue \<Rightarrow> 'cb timer_call list \<Rightarrow> bool" where
  "calls_ok w [] = True"
| "calls_ok w (c # cs) = (call_ok w c \<and> (case tq_call True c w of Inl _ \<Rightarrow> True | Inr w' \<Rightarrow> calls_ok w' cs))"

definition beh_ok :: "'cb timer_behaviour \<Rightarrow> bool" where
  "beh_ok beh \<longleftrightarrow> (\<forall>cb w. calls_ok w (beh cb w))"

lemma tq_calls_ok:
  assumes "tq_inv X w" and "calls_ok w cs"
  shows "\<exists>w'. tq_calls cs w = Inr w' \<and> tq_inv X w' \<and> tq_frame (set X) w w'"
  using assms
proof (induction cs arbitrary: w)
  case (Cons c cs)
  then have "call_ok w c" by simp
  from tq_call_ok [OF Cons.prems(1) this, of True] obtain w1 where
    w1: "tq_call True c w = Inr w1" "tq_inv X w1" "tq_frame (set X) w w1" by blast
  with Cons.prems(2) have "calls_ok w1 cs" by simp
  from Cons.IH [OF w1(2) this] w1 tq_frame_trans [OF w1(3)] show ?case by auto
qed simp

lemma tq_inv_alive: "tq_inv X w \<Longrightarrow> p \<in> set X \<Longrightarrow> \<exists>tm. tq_heap w p = Some tm"
  using tq_coreD(5) [of "set X \<union> set (padds (tq_pending w))" w] by (auto simp: tq_inv_def)

lemma run_timers_ok:
  assumes "beh_ok beh" and "tq_inv X w" and "snd ` set es \<subseteq> set X"
  shows "\<exists>w'. run_timers beh es w = Inr w' \<and> tq_inv X w' \<and> tq_frame (set X) w w'"
  using assms(2,3)
proof (induction es arbitrary: w)
  case (Cons e es)
  obtain t p where e: "e = (t, p)" by (cases e)
  from Cons.prems e tq_inv_alive [OF Cons.prems(1), of p] obtain tm where tm: "tq_heap w p = Some tm" by auto
  from assms(1) have "calls_ok w (beh (tm_callback tm) w)" by (simp add: beh_ok_def)
  from tq_calls_ok [OF Cons.prems(1) this] obtain w1 where
    w1: "tq_calls (beh (tm_callback tm) w) w = Inr w1" "tq_inv X w1" "tq_frame (set X) w w1" by blast
  from Cons.IH [OF w1(2)] Cons.prems(2) w1 tq_frame_trans [OF w1(3)] show ?case
    by (auto simp: e tq_deref_def tm)
qed simp

text \<open>What \<^verbatim>\<open>reset\<close> makes of an expired timer: restarted from \<open>now\<close>, or deleted.\<close>

definition after_reset :: "time_point \<Rightarrow> 'cb timer_queue \<Rightarrow> nat \<Rightarrow> 'cb timer option" where
  "after_reset now w p = (case tq_heap w p of None \<Rightarrow> None
     | Some tm \<Rightarrow> if tm_repeat tm \<and> (p, tm_sequence tm) \<notin> set (tq_cancelingTimers w)
         then (case to_microseconds (tm_interval tm) of Inl _ \<Rightarrow> None
               | Inr us \<Rightarrow> Some (tm\<lparr>tm_expiration := now + us * 1000\<rparr>))
         else None)"

text \<open>One turn of the loop of \<^verbatim>\<open>reset\<close>.\<close>

lemma reset_entry_ok:
  assumes core: "tq_core F w" and p: "p \<in> F" and tm: "tq_heap w p = Some tm" and now: "tp_near now"
  shows "\<exists>w1 ts as. reset_entries now ((t, p) # es) w = reset_entries now es w1 \<and> tq_core (F - {p}) w1 \<and>
    w1 = w\<lparr>tq_heap := (tq_heap w)(p := after_reset now w p), tq_timers := ts, tq_activeTimers := as\<rparr>"
proof (cases "tm_repeat tm \<and> (p, tm_sequence tm) \<notin> set (tq_cancelingTimers w)")
  case True
  from tq_coreD(7) [OF core tm] have "timer_ok tm" by simp
  from timer_restart_ok [OF this now] True obtain us where us: "to_microseconds (tm_interval tm) = Inr us"
    "timer_restart now tm = Inr (tm\<lparr>tm_expiration := now + us * 1000\<rparr>)"
    "timer_ok (tm\<lparr>tm_expiration := now + us * 1000\<rparr>)" by blast
  let ?tm = "tm\<lparr>tm_expiration := now + us * 1000\<rparr>"
  have core1: "tq_core F (tq_put p ?tm w)" using tq_core_restart [OF core p tm us(3)] by simp
  have ar: "after_reset now w p = Some ?tm" using True tm us by (simp add: after_reset_def)
  from tq_insert_ok [OF core1 p] obtain w1 where
    w1: "w1 = tq_put p ?tm w\<lparr>tq_timers := set_insert (tm_expiration ?tm, p) (tq_timers w),
      tq_activeTimers := set_insert (p, tm_sequence ?tm) (tq_activeTimers w)\<rparr>" "tq_core (F - {p}) w1"
    "tq_insert p (tq_put p ?tm w) = Inr (tq_timers w = [] \<or> tm_expiration ?tm < fst (hd (tq_timers w)), w1)"
    by (auto simp: tq_put_def)
  have "reset_entries now ((t, p) # es) w = reset_entries now es w1" using True tm us w1 by (simp add: tq_deref_def)
  moreover have "w1 = w\<lparr>tq_heap := (tq_heap w)(p := after_reset now w p), tq_timers := set_insert (tm_expiration ?tm, p) (tq_timers w),
      tq_activeTimers := set_insert (p, tm_sequence ?tm) (tq_activeTimers w)\<rparr>" using w1(1) ar by (simp add: tq_put_def)
  ultimately show ?thesis using w1(2) by blast
next
  case False
  then have ar: "after_reset now w p = None" using tm by (auto simp: after_reset_def)
  from tq_core_delete [OF core p] obtain w1 where w1: "tq_delete p w = Inr w1" "tq_core (F - {p}) w1"
    "w1 = w\<lparr>tq_heap := (tq_heap w)(p := None)\<rparr>" by blast
  have "reset_entries now ((t, p) # es) w = reset_entries now es w1" using False tm w1 by (auto simp: tq_deref_def)
  moreover have "w1 = w\<lparr>tq_heap := (tq_heap w)(p := after_reset now w p), tq_timers := tq_timers w, tq_activeTimers := tq_activeTimers w\<rparr>"
    using w1(3) ar by simp
  ultimately show ?thesis using w1(2) by blast
qed

lemma reset_entries_ok:
  assumes "tq_inv (map snd es) w" and now: "tp_near now"
  shows "\<exists>w'. reset_entries now es w = Inr w' \<and> tq_inv [] w' \<and> tq_clock w' = tq_clock w \<and>
    tq_callingExpiredTimers w' = tq_callingExpiredTimers w \<and> tq_pending w' = tq_pending w \<and>
    tq_heap w' = (\<lambda>p. if p \<in> snd ` set es then after_reset now w p else tq_heap w p)"
  using assms(1)
proof (induction es arbitrary: w)
  case (Cons e es)
  obtain t p where e: "e = (t, p)" by (cases e)
  let ?F = "set (map snd (e # es)) \<union> set (padds (tq_pending w))"
  from Cons.prems have core: "tq_core ?F w" and dist: "distinct (map snd (e # es) @ padds (tq_pending w))"
    by (simp_all add: tq_inv_def)
  from dist e have p: "p \<notin> snd ` set es" "p \<notin> set (padds (tq_pending w))" "p \<in> ?F" by auto
  have F: "?F - {p} = set (map snd es) \<union> set (padds (tq_pending w))" using p by (auto simp: e)
  from tq_inv_alive [OF Cons.prems, of p] e obtain tm where tm: "tq_heap w p = Some tm" by auto
  from reset_entry_ok [OF core p(3) tm now, of t es] obtain w1 ts as where
    w1: "reset_entries now ((t, p) # es) w = reset_entries now es w1" "tq_core (?F - {p}) w1"
      "w1 = w\<lparr>tq_heap := (tq_heap w)(p := after_reset now w p), tq_timers := ts, tq_activeTimers := as\<rparr>" by blast
  have "tq_inv (map snd es) w1" using w1 F dist by (simp add: tq_inv_def)
  from Cons.IH [OF this] obtain w' where w': "reset_entries now es w1 = Inr w'" "tq_inv [] w'"
    "tq_clock w' = tq_clock w1" "tq_callingExpiredTimers w' = tq_callingExpiredTimers w1" "tq_pending w' = tq_pending w1"
    "tq_heap w' = (\<lambda>p. if p \<in> snd ` set es then after_reset now w1 p else tq_heap w1 p)" by blast
  moreover have "after_reset now w1 q = after_reset now w q" if "q \<in> snd ` set es" for q
  proof -
    from that p(1) have "q \<noteq> p" by auto
    then have "tq_heap w1 q = tq_heap w q" "tq_cancelingTimers w1 = tq_cancelingTimers w" by (simp_all add: w1(3))
    then show ?thesis by (simp add: after_reset_def split: option.split)
  qed
  ultimately show ?case using w1(1,3) p(1) by (auto simp: e fun_eq_iff)
qed simp

text \<open>Cancelling a timer in flight is remembered until \<^verbatim>\<open>reset\<close>; adding timers cancels nothing.\<close>

lemma tq_call_canceling:
  assumes inv: "tq_inv X w" and ok: "call_ok w c" and run: "tq_call True c w = Inr w'"
  shows "c = CallCancel tid \<Longrightarrow> fst tid \<in> set X \<Longrightarrow> tq_callingExpiredTimers w \<Longrightarrow> tid \<in> set (tq_cancelingTimers w')"
    and "c = CallAdd p cb t i \<Longrightarrow> tq_cancelingTimers w' = tq_cancelingTimers w"
proof -
  have core: "tq_core (set X \<union> set (padds (tq_pending w))) w" using inv by (simp add: tq_inv_def)
  assume c: "c = CallCancel tid" and X: "fst tid \<in> set X" and calling: "tq_callingExpiredTimers w"
  have "tid \<notin> set (tq_activeTimers w)"
  proof
    assume "tid \<in> set (tq_activeTimers w)"
    then have "fst tid \<in> snd ` set (tq_timers w)"
      using tq_coreD(4) [OF core, of "fst tid" "snd tid"] by force
    with tq_coreD(6) [OF core] X show False by blast
  qed
  with run c calling show "tid \<in> set (tq_cancelingTimers w')"
    by (auto simp: tq_call_def tq_cancel_def tq_runInLoop_def tq_run_functor_def cancelInLoop_def res_Inr_iffs)
next
  assume c: "c = CallAdd p cb t i"
  have reset: "tq_cancelingTimers v = tq_cancelingTimers u" if "resetTimerfd s u = Inr v" for s and u v :: "'a timer_queue"
    using that by (auto simp: resetTimerfd_def tq_now_def res_Inr_iffs)
  from run c show "tq_cancelingTimers w' = tq_cancelingTimers w"
    by (auto simp: tq_call_def addTimer_def tq_runInLoop_def tq_run_functor_def addTimerInLoop_def tq_insert_def
      Let_def res_Inr_iffs tq_put_def dest!: reset split: if_splits)
qed

definition adds_only :: "'cb timer_behaviour \<Rightarrow> bool" where
  "adds_only beh \<longleftrightarrow> (\<forall>cb w tid. CallCancel tid \<notin> set (beh cb w))"

lemma tq_calls_canceling:
  assumes "tq_inv X w" and "calls_ok w cs" and "tq_calls cs w = Inr w'"
  shows "CallCancel tid \<in> set cs \<Longrightarrow> fst tid \<in> set X \<Longrightarrow> tq_callingExpiredTimers w \<Longrightarrow> tid \<in> set (tq_cancelingTimers w')"
    and "(\<And>tid. CallCancel tid \<notin> set cs) \<Longrightarrow> tq_cancelingTimers w' = tq_cancelingTimers w"
  using assms
proof (induction cs arbitrary: w)
  case (Cons c cs)
  {
    case 1
    then have ok: "call_ok w c" by simp
    from tq_call_ok [OF 1(4) ok, of True] obtain w1 where
      w1: "tq_call True c w = Inr w1" "tq_inv X w1" "tq_frame (set X) w w1" by blast
    with 1 have cs: "calls_ok w1 cs" "tq_calls cs w1 = Inr w'" by simp_all
    from tq_calls_ok [OF w1(2) cs(1)] cs(2) have fr: "tq_frame (set X) w1 w'" by auto
    from w1(3) 1(3) have calling: "tq_callingExpiredTimers w1" by (simp add: tq_frame_def)
    show ?case
    proof (cases "c = CallCancel tid")
      case True
      from tq_call_canceling(1) [OF 1(4) ok w1(1) True 1(2,3)] fr show ?thesis by (auto simp: tq_frame_def)
    next
      case False
      with 1 Cons.IH(1) [of w1] w1 cs calling show ?thesis by simp
    qed
  next
    case 2
    then have ok: "call_ok w c" by simp
    from tq_call_ok [OF 2(2) ok, of True] obtain w1 where w1: "tq_call True c w = Inr w1" "tq_inv X w1" by blast
    with 2 have cs: "calls_ok w1 cs" "tq_calls cs w1 = Inr w'" by simp_all
    from 2(1) obtain p cb t i where "c = CallAdd p cb t i" by (cases c) auto
    from tq_call_canceling(2) [OF 2(2) ok w1(1) this] Cons.IH(2) [of w1] w1 cs 2(1) show ?case by simp
  }
qed simp_all

lemma run_timers_canceling:
  assumes "beh_ok beh" and "tq_inv X w" and "snd ` set es \<subseteq> set X" and "run_timers beh es w = Inr w'"
  shows "(t, p) \<in> set es \<Longrightarrow> tq_heap w p = Some tm \<Longrightarrow> tq_callingExpiredTimers w \<Longrightarrow> tid = (p, tm_sequence tm) \<Longrightarrow>
      (\<And>u. CallCancel tid \<in> set (beh (tm_callback tm) u)) \<Longrightarrow> tid \<in> set (tq_cancelingTimers w')"
    and "adds_only beh \<Longrightarrow> tq_cancelingTimers w' = tq_cancelingTimers w"
  using assms(2-4)
proof (induction es arbitrary: w)
  case (Cons e es)
  {
    case 1
    obtain t' q where e: "e = (t', q)" by (cases e)
    with 1 tq_inv_alive [OF 1(6), of q] obtain tm' where tm': "tq_heap w q = Some tm'" by auto
    have ok: "calls_ok w (beh (tm_callback tm') w)" using assms(1) by (simp add: beh_ok_def)
    from tq_calls_ok [OF 1(6) ok] obtain w1 where
      w1: "tq_calls (beh (tm_callback tm') w) w = Inr w1" "tq_inv X w1" "tq_frame (set X) w w1" by blast
    have rest: "run_timers beh es w1 = Inr w'" using 1(8) w1(1) tm' by (simp add: e tq_deref_def)
    from run_timers_ok [OF assms(1) w1(2), of es] 1(7) rest have fr: "tq_frame (set X) w1 w'" by auto
    have pX: "p \<in> set X" using 1(1,7) by force
    show ?case
    proof (cases "q = p")
      case True
      with tm' 1(2) have "tm' = tm" by simp
      with tq_calls_canceling(1) [OF 1(6) ok w1(1), of tid] 1(3-5) pX have "tid \<in> set (tq_cancelingTimers w1)" by simp
      with fr show ?thesis by (auto simp: tq_frame_def)
    next
      case False
      from w1(3) pX 1(2,3) have "tq_heap w1 p = Some tm" "tq_callingExpiredTimers w1" by (simp_all add: tq_frame_def)
      with Cons.IH(1) [of w1] 1 False w1(2) rest show ?thesis by (simp add: e)
    qed
  next
    case 2
    obtain t' q where e: "e = (t', q)" by (cases e)
    with 2 tq_inv_alive [OF 2(2), of q] obtain tm' where tm': "tq_heap w q = Some tm'" by auto
    have ok: "calls_ok w (beh (tm_callback tm') w)" using assms(1) by (simp add: beh_ok_def)
    from tq_calls_ok [OF 2(2) ok] obtain w1 where
      w1: "tq_calls (beh (tm_callback tm') w) w = Inr w1" "tq_inv X w1" by blast
    have rest: "run_timers beh es w1 = Inr w'" using 2(4) w1(1) tm' by (simp add: e tq_deref_def)
    have "tq_cancelingTimers w1 = tq_cancelingTimers w"
      by (rule tq_calls_canceling(2) [OF 2(2) ok w1(1)]) (use 2(1) in \<open>unfold adds_only_def, blast\<close>)
    with Cons.IH(2) [of w1] 2 w1(2) rest show ?case by simp
  }
qed simp_all

lemma tq_reset_ok:
  assumes inv: "tq_inv (map snd es) w" and now: "tp_near now"
  shows "\<exists>w'. tq_reset es now w = Inr w' \<and> tq_inv [] w' \<and> armed_ok w' \<and> tq_clock w' = tq_clock w \<and>
    tq_callingExpiredTimers w' = tq_callingExpiredTimers w \<and> tq_pending w' = tq_pending w \<and>
    tq_heap w' = (\<lambda>p. if p \<in> snd ` set es then after_reset now w p else tq_heap w p)"
proof -
  from reset_entries_ok [OF inv now] obtain w1 where w1: "reset_entries now es w = Inr w1" "tq_inv [] w1"
    "tq_clock w1 = tq_clock w" "tq_callingExpiredTimers w1 = tq_callingExpiredTimers w" "tq_pending w1 = tq_pending w"
    "tq_heap w1 = (\<lambda>p. if p \<in> snd ` set es then after_reset now w p else tq_heap w p)" by blast
  from w1(2) have core: "tq_core (set (padds (tq_pending w1))) w1" by (simp add: tq_inv_def)
  show ?thesis
  proof (cases "tq_timers w1 = []")
    case True
    with w1 show ?thesis by (simp add: tq_reset_def armed_ok_hd)
  next
    case False
    then have "(fst (hd (tq_timers w1)), snd (hd (tq_timers w1))) \<in> set (tq_timers w1)" by simp
    from tq_coreD(3) [OF core this] obtain tm where
      tm: "tq_heap w1 (snd (hd (tq_timers w1))) = Some tm" "tm_expiration tm = fst (hd (tq_timers w1))" by blast
    from tq_coreD(7) [OF core tm(1)] have t: "0 < tm_expiration tm" "tm_expiration tm < 2 ^ 62"
      by (simp_all add: timer_ok_def)
    from resetTimerfd_ok [OF t tq_coreD(9) [OF core]] obtain t0 ts where
      r: "resetTimerfd (tm_expiration tm) w1 = Inr (w1\<lparr>tq_ticks := Suc (tq_ticks w1), tq_armed := Some (t0, ts)\<rparr>)"
        "t0 + ts_ns ts \<le> max (tm_expiration tm) (t0 + 100000)" by blast
    let ?w = "w1\<lparr>tq_ticks := Suc (tq_ticks w1), tq_armed := Some (t0, ts)\<rparr>"
    have "tq_reset es now w = Inr ?w" using False w1(1) tm(1) t(1) r(1) by (simp add: tq_reset_def tq_deref_def)
    moreover have "tq_inv [] ?w" using w1(2) by (simp add: tq_inv_def)
    moreover have "armed_ok ?w" using r(2) tm(2) by (simp add: armed_ok_hd)
    ultimately show ?thesis using w1 by simp
  qed
qed

lemma tq_handleRead_ok:
  assumes inv: "tq_inv [] w" and beh: "beh_ok beh"
  defines "now \<equiv> tq_clock w (tq_ticks w)"
  defines "due \<equiv> {p. \<exists>t. (t, p) \<in> set (tq_timers w) \<and> t \<le> now}"
  shows "\<exists>w1 w'. tq_handleRead beh True w = Inr w' \<and> tq_inv [] w' \<and> armed_ok w' \<and>
    \<not> tq_callingExpiredTimers w' \<and> (\<forall>p \<in> due. tq_heap w1 p = tq_heap w p) \<and>
    (adds_only beh \<longrightarrow> tq_cancelingTimers w1 = []) \<and>
    (\<forall>p tm. p \<in> due \<longrightarrow> tq_heap w p = Some tm \<longrightarrow>
      (\<forall>u. CallCancel (p, tm_sequence tm) \<in> set (beh (tm_callback tm) u)) \<longrightarrow>
      (p, tm_sequence tm) \<in> set (tq_cancelingTimers w1)) \<and>
    tq_heap w' = (\<lambda>p. if p \<in> due then after_reset now w1 p else tq_heap w1 p)"
proof -
  let ?w0 = "readTimerfd (w\<lparr>tq_ticks := Suc (tq_ticks w)\<rparr>)"
  from inv have core0: "tq_core (set (padds (tq_pending w))) ?w0"
    and dist: "distinct (padds (tq_pending w))" by (simp_all add: tq_inv_def readTimerfd_def)
  from getExpired_ok [OF core0, of now] obtain es w1 ts as where
    g: "getExpired now ?w0 = Inr (es, w1)" "set es = {e \<in> set (tq_timers w). fst e \<le> now}" "distinct (map snd es)"
      "tq_core (set (padds (tq_pending w)) \<union> snd ` set es) w1" "set (padds (tq_pending w)) \<inter> snd ` set es = {}"
    and w1: "w1 = ?w0\<lparr>tq_timers := ts, tq_activeTimers := as\<rparr>" by (auto simp: readTimerfd_def)
  let ?w1 = "w1\<lparr>tq_callingExpiredTimers := True, tq_cancelingTimers := []\<rparr>"
  have pend: "tq_pending w1 = tq_pending w" by (simp add: w1 readTimerfd_def)
  have inv1: "tq_inv (map snd es) ?w1" using g(3-5) dist pend by (auto simp: tq_inv_def Un_commute)
  from run_timers_ok [OF beh this, of es] obtain w2 where
    w2: "run_timers beh es ?w1 = Inr w2" "tq_inv (map snd es) w2" "tq_frame (snd ` set es) ?w1 w2" by auto
  let ?w2 = "w2\<lparr>tq_callingExpiredTimers := False\<rparr>"
  have near: "tp_near now" using tq_coreD(9) [OF core0] by (simp add: now_def readTimerfd_def)
  have "tq_inv (map snd es) ?w2" using w2(2) by (simp add: tq_inv_def)
  from tq_reset_ok [OF this near] obtain w' where
    w': "tq_reset es now ?w2 = Inr w'" "tq_inv [] w'" "armed_ok w'" "\<not> tq_callingExpiredTimers w'"
      "tq_heap w' = (\<lambda>p. if p \<in> snd ` set es then after_reset now ?w2 p else tq_heap ?w2 p)" by auto
  have due: "snd ` set es = due" using g(2) by (force simp: due_def)
  have "tq_handleRead beh True w = Inr w'"
    using g(1) w2(1) w'(1) by (simp add: tq_handleRead_def tq_now_def now_def)
  moreover have "\<forall>p \<in> due. tq_heap ?w2 p = tq_heap w p"
    using w2(3) due by (auto simp: tq_frame_def w1 readTimerfd_def)
  moreover note cancel = run_timers_canceling [OF beh inv1 _ w2(1)]
  have "adds_only beh \<longrightarrow> tq_cancelingTimers ?w2 = []" using cancel(2) by simp
  moreover have "(p, tm_sequence tm) \<in> set (tq_cancelingTimers ?w2)"
    if "p \<in> due" "tq_heap w p = Some tm" "\<forall>u. CallCancel (p, tm_sequence tm) \<in> set (beh (tm_callback tm) u)" for p tm
  proof -
    from that(1) due obtain t where "(t, p) \<in> set es" by auto
    with cancel(1) [OF _ this] that(2,3) show ?thesis by (simp add: w1 readTimerfd_def)
  qed
  ultimately show ?thesis using w' due by (intro exI [of _ ?w2] exI [of _ w']) simp
qed

section \<open>Runs of the queue\<close>

text \<open>
  The events a queue sees: calls from any thread, a pending functor the loop runs, the timerfd
  becoming readable.
\<close>

datatype 'cb tq_event =
    EvCall bool "'cb timer_call"
  | EvPending
  | EvRead "'cb timer_behaviour"

definition tq_step :: "'cb timer_queue \<Rightarrow> 'cb tq_event \<Rightarrow> 'cb timer_queue res" where
  "tq_step w e = (case e of
     EvCall in_loop c \<Rightarrow> tq_call in_loop c w
   | EvPending \<Rightarrow> (case tq_pending w of [] \<Rightarrow> Inr w | f # fs \<Rightarrow> tq_run_functor f (w\<lparr>tq_pending := fs\<rparr>))
   | EvRead beh \<Rightarrow> tq_handleRead beh True w)"

definition tq_enabled :: "'cb timer_queue \<Rightarrow> 'cb tq_event \<Rightarrow> bool" where
  "tq_enabled w e = (case e of EvCall _ c \<Rightarrow> call_ok w c | EvPending \<Rightarrow> True | EvRead beh \<Rightarrow> beh_ok beh)"

definition tq_quiet :: "'cb timer_queue \<Rightarrow> bool" where
  "tq_quiet w \<longleftrightarrow> tq_inv [] w \<and> armed_ok w \<and> \<not> tq_callingExpiredTimers w"

lemma tq_pending_ok:
  assumes q: "tq_quiet w"
  shows "\<exists>w'. tq_step w EvPending = Inr w' \<and> tq_quiet w' \<and> tq_pending w' = tl (tq_pending w) \<and>
    (\<forall>p fs. tq_pending w = AddTimerInLoop p # fs \<longrightarrow> (\<exists>t. (t, p) \<in> set (tq_timers w')))"
proof (cases "tq_pending w")
  case Nil
  with q show ?thesis by (simp add: tq_step_def)
next
  case (Cons f fs)
  let ?w = "w\<lparr>tq_pending := fs\<rparr>"
  from q have core: "tq_core (set (padds (f # fs))) ?w" and dist: "distinct (padds (f # fs))"
    and arm: "armed_ok ?w" and calling: "\<not> tq_callingExpiredTimers ?w"
    by (simp_all add: tq_quiet_def tq_inv_def Cons armed_ok_hd)
  show ?thesis
  proof (cases f)
    case (AddTimerInLoop p)
    from dist AddTimerInLoop have eq: "set (padds (f # fs)) - {p} = set (padds fs)" by auto
    from addTimerInLoop_ok [OF core, of p] AddTimerInLoop obtain w' where
      "addTimerInLoop True p ?w = Inr w'" "tq_core (set (padds (f # fs)) - {p}) w'" "tq_pending w' = fs"
      "tq_frame UNIV ?w w'" "armed_ok w'" "\<exists>t. (t, p) \<in> set (tq_timers w')" using arm by auto
    with Cons AddTimerInLoop dist calling eq show ?thesis
      by (simp add: tq_step_def tq_run_functor_def tq_quiet_def tq_inv_def tq_frame_def)
  next
    case (CancelInLoop tid)
    from cancelInLoop_ok [OF core, of tid] CancelInLoop obtain w' where
      "cancelInLoop True tid ?w = Inr w'" "tq_core (set (padds (f # fs))) w'" "tq_pending w' = fs"
      "tq_frame (set (padds (f # fs))) ?w w'" "armed_ok w'" using arm by auto
    with Cons CancelInLoop dist calling show ?thesis
      by (simp add: tq_step_def tq_run_functor_def tq_quiet_def tq_inv_def tq_frame_def)
  qed
qed

interpretation tqs: safe_steps tq_step tq_quiet tq_enabled
proof
  fix w :: "'a timer_queue" and e
  assume q: "tq_quiet w" and en: "tq_enabled w e"
  show "\<exists>w'. tq_step w e = Inr w' \<and> tq_quiet w'"
  proof (cases e)
    case (EvCall in_loop c)
    from q en EvCall tq_call_ok [of "[]" w c in_loop] show ?thesis
      by (auto simp: tq_quiet_def tq_enabled_def tq_step_def tq_frame_def)
  next
    case EvPending
    with tq_pending_ok [OF q] show ?thesis by blast
  next
    case (EvRead beh)
    from q en EvRead tq_handleRead_ok [of w beh] show ?thesis
      by (fastforce simp: tq_quiet_def tq_enabled_def tq_step_def)
  qed
qed

lemma new_TimerQueue_quiet:
  assumes "new_TimerQueue fd clock = Inr w" and "\<And>n. tp_near (clock n)"
  shows "tq_quiet w"
  using assms
  by (auto simp: new_TimerQueue_def createTimerfd_def res_Inr_iffs tq_quiet_def tq_inv_def tq_core_def armed_ok_hd)

text \<open>
  For which expiration the timerfd is armed: what it was last set to is what \<^verbatim>\<open>howMuchTimeFromNow\<close> gives for it. \<^verbatim>\<open>cancelInLoop\<close>
  never sets the timerfd; when it takes the earliest timer away the timerfd stays armed for that one, until the next
  expiration, when \<^verbatim>\<open>reset\<close> arms it again.
\<close>

definition armed_for :: "time_point \<Rightarrow> 'cb timer_queue \<Rightarrow> bool" where
  "armed_for t w \<longleftrightarrow> (case tq_armed w of None \<Rightarrow> False | Some (t0, ts) \<Rightarrow> howMuchTimeFromNow t0 t = Inr ts)"

definition armed_exact :: "'cb timer_queue \<Rightarrow> bool" where
  "armed_exact w \<longleftrightarrow> (tq_timers w \<noteq> [] \<longrightarrow> armed_for (fst (hd (tq_timers w))) w)"

definition drops_earliest :: "'cb timer_queue \<Rightarrow> 'cb timer_queue \<Rightarrow> bool" where
  "drops_earliest w w' \<longleftrightarrow> tq_timers w \<noteq> [] \<and> hd (tq_timers w) \<notin> set (tq_timers w')"

fun stale_arming :: "bool \<Rightarrow> 'cb timer_queue \<Rightarrow> 'cb tq_event list \<Rightarrow> bool" where
  "stale_arming b w [] = b"
| "stale_arming b w (e # es) = (case tq_step w e of
     Inl _ \<Rightarrow> b
   | Inr w' \<Rightarrow> stale_arming (case e of EvRead _ \<Rightarrow> False | _ \<Rightarrow> b \<or> drops_earliest w w') w' es)"

lemma armed_exact_pending [simp]:
  "armed_exact (w\<lparr>tq_pending := fs\<rparr>) = armed_exact w" "drops_earliest (w\<lparr>tq_pending := fs\<rparr>) w' = drops_earliest w w'"
  by (simp_all add: armed_exact_def armed_for_def drops_earliest_def)

lemma resetTimerfd_exact:
  assumes "resetTimerfd t w = Inr w'"
  shows "armed_for t w' \<and> tq_timers w' = tq_timers w \<and> tq_heap w' = tq_heap w"
  using assms by (auto simp: resetTimerfd_def tq_now_def armed_for_def res_Inr_iffs)

lemma addTimerInLoop_exact:
  assumes "addTimerInLoop True p w = Inr w'" and "armed_exact w"
  shows "armed_exact w'"
  using assms
  by (auto simp: addTimerInLoop_def tq_insert_def tq_deref_def Let_def res_Inr_iffs armed_exact_def armed_for_def fst_hd_set_insert
    split: if_splits option.splits dest!: resetTimerfd_exact)

lemma filter_hd: "x \<in> set (filter P xs) \<Longrightarrow> x = hd xs \<Longrightarrow> hd (filter P xs) = hd xs"
  by (cases xs) auto

lemma cancelInLoop_exact:
  assumes "cancelInLoop True tid w = Inr w'" and "armed_exact w" and "\<not> drops_earliest w w'"
  shows "armed_exact w'"
proof -
  from assms(1) have w': "tq_armed w' = tq_armed w" "\<exists>P. tq_timers w' = filter P (tq_timers w)"
    by (auto simp: cancelInLoop_def tq_delete_def set_erase_def res_Inr_iffs filter_id_conv split: if_splits option.splits
      intro: exI [of _ "\<lambda>_. True"])
  then have "tq_timers w' \<noteq> [] \<Longrightarrow> hd (tq_timers w') = hd (tq_timers w)"
    using assms(3) by (auto simp: drops_earliest_def intro!: filter_hd)
  with w' assms(2) show ?thesis by (auto simp: armed_exact_def armed_for_def)
qed

lemma tq_run_functor_exact:
  assumes "tq_run_functor f w = Inr w'" and "armed_exact w" and "\<not> drops_earliest w w'"
  shows "armed_exact w'"
  using assms addTimerInLoop_exact cancelInLoop_exact by (cases f) (auto simp: tq_run_functor_def)

text \<open>An expiration ends with \<^verbatim>\<open>reset\<close>, which arms the timerfd for the first timer.\<close>

lemma tq_reset_exact:
  assumes "tq_reset es now w = Inr w'" and inv: "tq_inv [] w'"
  shows "armed_exact w'"
proof (cases "tq_timers w' = []")
  case False
  from assms(1) obtain w1 t where w1: "(if tq_timers w1 = [] then Inr 0
      else rbind (tq_deref (snd (hd (tq_timers w1))) w1) (\<lambda>tm. Inr (tm_expiration tm))) = Inr t"
    and w': "(if t \<noteq> 0 then resetTimerfd t w1 else Inr w1) = Inr w'" by (auto simp: tq_reset_def res_Inr_iffs)
  from w' have same: "tq_timers w1 = tq_timers w'" "tq_heap w1 = tq_heap w'" "t \<noteq> 0 \<longrightarrow> armed_for t w'"
    by (auto split: if_splits dest!: resetTimerfd_exact)
  let ?e = "hd (tq_timers w')"
  from inv have core: "tq_core (set (padds (tq_pending w'))) w'" by (simp add: tq_inv_def)
  have "(fst ?e, snd ?e) \<in> set (tq_timers w')" using False by simp
  from tq_coreD(3) [OF core this] obtain tm where tm: "tq_heap w' (snd ?e) = Some tm" "tm_expiration tm = fst ?e" by blast
  from tq_coreD(7) [OF core tm(1)] have "0 < fst ?e" using tm(2) by (simp add: timer_ok_def)
  moreover have "t = fst ?e" using w1 tm same False by (simp add: tq_deref_def)
  ultimately show ?thesis using same(3) by (simp add: armed_exact_def)
qed (simp add: armed_exact_def)

lemma tq_call_exact:
  assumes "tq_call il c w = Inr w'" and "armed_exact w" and "\<not> drops_earliest w w'"
  shows "armed_exact w'"
proof (cases c)
  case (CallAdd p cb t i)
  let ?w = "tq_put p (new_Timer cb t i (tq_numCreated w)) (w\<lparr>tq_numCreated := tq_numCreated w + 1\<rparr>)"
  have "armed_exact ?w" using assms(2) by (simp add: armed_exact_def armed_for_def tq_put_def)
  with addTimerInLoop_exact [of p ?w w'] assms(1) CallAdd show ?thesis
    by (auto simp: tq_call_def addTimer_def tq_runInLoop_def tq_run_functor_def Let_def res_Inr_iffs split: if_splits)
next
  case (CallCancel tid)
  with assms tq_run_functor_exact [of "CancelInLoop tid" w w'] show ?thesis
    by (auto simp: tq_call_def tq_cancel_def tq_runInLoop_def split: if_splits)
qed

lemma tq_step_exact:
  assumes run: "tq_step w e = Inr w'" and quiet: "tq_quiet w'"
    and exact: "(\<exists>beh. e = EvRead beh) \<or> armed_exact w \<and> \<not> drops_earliest w w'"
  shows "armed_exact w'"
proof (cases e)
  case (EvCall il c)
  with run exact show ?thesis by (auto simp: tq_step_def intro: tq_call_exact)
next
  case EvPending
  with run exact EvPending show ?thesis
    by (auto simp: tq_step_def split: list.splits dest: tq_run_functor_exact)
next
  case (EvRead beh)
  with run quiet show ?thesis
    by (auto simp: tq_step_def tq_handleRead_def tq_now_def Let_def res_Inr_iffs tq_quiet_def intro: tq_reset_exact)
qed

lemma run_exact:
  assumes "tq_quiet w" and "enabled_run tq_step tq_enabled w es" and "run_steps tq_step w es = Inr w'"
    and "\<not> b \<longrightarrow> armed_exact w" and "\<not> stale_arming b w es"
  shows "armed_exact w'"
  using assms
proof (induction es arbitrary: b w)
  case (Cons e es)
  from Cons.prems(1,2) tqs.step_safe [of w e] obtain w1 where w1: "tq_step w e = Inr w1" "tq_quiet w1" by auto
  let ?b = "case e of EvRead _ \<Rightarrow> False | _ \<Rightarrow> b \<or> drops_earliest w w1"
  have "\<not> ?b \<longrightarrow> armed_exact w1" using tq_step_exact [OF w1] Cons.prems(4) by (cases e) auto
  with Cons.IH [OF w1(2), of ?b] Cons.prems w1(1) show ?case by simp
qed simp

text \<open>
  C8: From a new timer queue, any sequence of \<^verbatim>\<open>addTimer\<close> and \<^verbatim>\<open>cancel\<close> calls from any thread, of pending functors
  and of timerfd expirations whose callbacks add and cancel timers (their own included) runs without a
  failed assertion, a use after free or a double free; afterwards every live timer is scheduled or waits
  for its pending functor (no leak), \<^verbatim>\<open>timers_\<close> and \<^verbatim>\<open>activeTimers_\<close> describe the same timers. The timerfd is then armed
  no later than the earliest expiration (or 100 microseconds after it was set), and exactly for the earliest expiration
  if the earliest timer has not been cancelled since the timerfd last fired (\<^verbatim>\<open>cancelInLoop\<close> leaves the timerfd as it is).
\<close>

theorem timer_queue_safe:
  assumes "new_TimerQueue fd clock = Inr w" and "\<And>n. tp_near (clock n)"
    and "enabled_run tq_step tq_enabled w es"
  shows "\<exists>w'. run_steps tq_step w es = Inr w' \<and> tq_inv [] w' \<and> armed_ok w' \<and>
    (\<not> stale_arming False w es \<longrightarrow> armed_exact w') \<and>
    dom (tq_heap w') = snd ` set (tq_timers w') \<union> set (padds (tq_pending w')) \<and>
    length (tq_timers w') = length (tq_activeTimers w')"
proof -
  have quiet: "tq_quiet w" by (rule new_TimerQueue_quiet [OF assms(1,2)])
  from tqs.run_safe [OF this assms(3)] obtain w' where
    w': "run_steps tq_step w es = Inr w'" "tq_inv [] w'" "armed_ok w'" by (auto simp: tq_quiet_def)
  have "armed_exact w" using assms(1) by (auto simp: new_TimerQueue_def res_Inr_iffs armed_exact_def)
  with run_exact [OF quiet assms(3) w'(1), of False] have "\<not> stale_arming False w es \<longrightarrow> armed_exact w'" by simp
  from w'(2) have "tq_core (set (padds (tq_pending w'))) w'" by (simp add: tq_inv_def)
  from tq_coreD(5) [OF this] tq_core_sizes [OF this] w' \<open>\<not> stale_arming False w es \<longrightarrow> armed_exact w'\<close>
  show ?thesis by (auto simp: tq_sizes_def)
qed

lemma to_microseconds_0 [simp]: "to_microseconds 0 = Inr 0"
  by (simp add: to_microseconds_def dbl_round_def int64_of_double_def i64_def)

lemma interval_ok_0 [simp]: "interval_ok 0"
  by (simp add: interval_ok_def)

text \<open>Products that are integers below \<open>2 ^ 53\<close> are exact.\<close>

lemma log2_floor_int:
  assumes "0 < n" and "n < 2 ^ 53"
  shows "log2_floor (of_int n) \<le> 52"
proof -
  have "nat n < 2 ^ 53" using assms by (simp add: nat_less_iff)
  then have "floorlog 2 (nat n) \<le> 53" by (intro floorlog_leI) simp_all
  moreover have "floorlog 2 (Suc 0) = 1" by (simp add: compute_floorlog)
  ultimately show ?thesis by (simp add: log2_floor_def Let_def)
qed

lemma dbl_round_int:
  assumes "\<bar>n\<bar> < 2 ^ 53"
  shows "dbl_round (of_int n) = of_int n"
proof (cases "n = 0")
  case False
  define L where "L = log2_floor (of_int \<bar>n\<bar>)"
  have "L \<le> 52" unfolding L_def using assms False by (intro log2_floor_int) simp_all
  then obtain k where k: "L - 52 = - int k" by (metis add.inverse_inverse diff_ge_0_iff_ge minus_diff_eq zero_le_imp_eq_int)
  have m: "\<bar>of_int n :: rat\<bar> / 2 powi (- int k) = of_int (\<bar>n\<bar> * 2 ^ k)"
    by (simp add: power_int_minus divide_inverse)
  have "dbl_round (of_int n) = sgn (of_int n) * of_int (\<bar>n\<bar> * 2 ^ k) * 2 powi (- int k)"
    using False unfolding dbl_round_def Let_def of_int_abs [symmetric] L_def [symmetric] k
    by (simp only: m of_int_abs floor_of_int) simp
  also have "\<dots> = sgn (of_int n) * of_int \<bar>n\<bar>" by (simp add: power_int_minus)
  also have "\<dots> = of_int n" by (simp add: sgn_mult_abs)
  finally show ?thesis .
qed (simp add: dbl_round_def)

lemma to_microseconds_exact:
  assumes "s * 1000000 = of_int n" and "\<bar>n\<bar> < 2 ^ 53"
  shows "to_microseconds s = Inr n"
proof -
  have "s * rat_of_int MicroSecondsPerSecond = of_int n" using assms(1) by (simp add: MicroSecondsPerSecond_def)
  with dbl_round_int [OF assms(2)] assms(2) show ?thesis
    by (simp add: to_microseconds_def int64_of_double_def i64_def abs_less_iff)
qed

definition sample_queue :: "unit timer_queue" where
  "sample_queue = \<lparr>tq_heap = Map.empty, tq_numCreated = 0, tq_timers = [], tq_activeTimers = [], tq_cancelingTimers = [],
     tq_callingExpiredTimers = False, tq_pending = [], tq_clock = (\<lambda>n. 1000 + int (n mod 2)), tq_ticks = 0, tq_armed = None\<rparr>"

lemma sample_queue_new: "new_TimerQueue 3 (\<lambda>n. 1000 + int (n mod 2)) = Inr sample_queue"
  by (simp add: new_TimerQueue_def createTimerfd_def sample_queue_def)

lemma sample_clock_near: "tp_near (1000 + int (n mod 2))"
proof -
  have "n mod 2 < 2" by simp
  then have "int (n mod 2) < 2" by linarith
  then show ?thesis unfolding tp_near_def by simp
qed

definition sample_run :: "unit tq_event list" where
  "sample_run = [EvCall False (CallAdd 7 () 1000 0), EvPending, EvCall True (CallAdd 8 () 500000000 0), EvRead (\<lambda>_ _. [CallCancel (7, 1)])]"

lemmas tq_run_defs = tq_step_def call_ok_def sample_queue_def UINTPTR_MAX_def tq_call_def addTimer_def
  tq_runInLoop_def tq_put_def new_Timer_def tq_run_functor_def addTimerInLoop_def tq_insert_def tq_sizes_def tq_deref_def
  Let_def resetTimerfd_def tq_now_def howMuchTimeFromNow_def tp_minus_def i64_def tdiv_def tq_handleRead_def getExpired_def readTimerfd_def
  set_below_def set_from_def less_prod_def cancelInLoop_def tq_cancel_def tq_reset_def tq_delete_def set_erase_def

lemma sample_run_ok:
  "enabled_run tq_step tq_enabled sample_queue sample_run \<and> \<not> stale_arming False sample_queue sample_run \<and>
   (\<exists>w'. run_steps tq_step sample_queue sample_run = Inr w' \<and> tq_timers w' = [(500000000, 8)])"
proof -
  have "beh_ok (\<lambda>_ _. [CallCancel (7, 1)])" by (simp add: beh_ok_def call_ok_def split: sum.split)
  then show ?thesis by (simp add: sample_run_def tq_enabled_def drops_earliest_def tq_run_defs)
qed

theorem timer_queue_safe_witness:
  "\<exists>w'. run_steps tq_step sample_queue sample_run = Inr w' \<and> tq_inv [] w' \<and> armed_ok w' \<and>
    tq_timers w' = [(500000000, 8)] \<and> armed_for 500000000 w'"
proof -
  from timer_queue_safe [OF sample_queue_new sample_clock_near, of sample_run] sample_run_ok obtain w' where
    "run_steps tq_step sample_queue sample_run = Inr w'" "tq_inv [] w'" "armed_ok w'" "armed_exact w'" by blast
  moreover with sample_run_ok have "tq_timers w' = [(500000000, 8)]" by auto
  ultimately show ?thesis by (auto simp: armed_exact_def)
qed

section \<open>What an expiration does\<close>

lemma tq_inv_scheduled:
  assumes "tq_inv [] w" and "tq_heap w p = Some tm" and "p \<notin> set (padds (tq_pending w))"
  shows "(tm_expiration tm, p) \<in> set (tq_timers w)"
proof -
  from assms(1) have core: "tq_core (set (padds (tq_pending w))) w" by (simp add: tq_inv_def)
  from tq_coreD(5) [OF core] assms(2,3) have "p \<in> snd ` set (tq_timers w)" by blast
  then obtain t where "(t, p) \<in> set (tq_timers w)" by force
  with tq_coreD(3) [OF core this] assms(2) show ?thesis by auto
qed

lemma tq_handleRead_at:
  assumes inv: "tq_inv [] w" and beh: "beh_ok beh"
    and due: "(t, p) \<in> set (tq_timers w)" "t \<le> tq_clock w (tq_ticks w)" and tm: "tq_heap w p = Some tm"
  shows "\<exists>w1 w'. tq_handleRead beh True w = Inr w' \<and> tq_inv [] w' \<and> tq_heap w1 p = Some tm \<and>
    (adds_only beh \<longrightarrow> tq_cancelingTimers w1 = []) \<and>
    ((\<forall>u. CallCancel (p, tm_sequence tm) \<in> set (beh (tm_callback tm) u)) \<longrightarrow>
      (p, tm_sequence tm) \<in> set (tq_cancelingTimers w1)) \<and>
    tq_heap w' p = after_reset (tq_clock w (tq_ticks w)) w1 p"
proof -
  let ?due = "{p. \<exists>t. (t, p) \<in> set (tq_timers w) \<and> t \<le> tq_clock w (tq_ticks w)}"
  from due have p: "p \<in> ?due" by blast
  from tq_handleRead_ok [OF inv beh] obtain w1 w' where w': "tq_handleRead beh True w = Inr w'" "tq_inv [] w'"
    "\<forall>p \<in> ?due. tq_heap w1 p = tq_heap w p" "adds_only beh \<longrightarrow> tq_cancelingTimers w1 = []"
    "\<forall>p tm. p \<in> ?due \<longrightarrow> tq_heap w p = Some tm \<longrightarrow>
      (\<forall>u. CallCancel (p, tm_sequence tm) \<in> set (beh (tm_callback tm) u)) \<longrightarrow>
      (p, tm_sequence tm) \<in> set (tq_cancelingTimers w1)"
    "tq_heap w' = (\<lambda>p. if p \<in> ?due then after_reset (tq_clock w (tq_ticks w)) w1 p else tq_heap w1 p)" by blast
  have "tq_heap w1 p = Some tm" using w'(3) p tm by auto
  moreover have "tq_heap w' p = after_reset (tq_clock w (tq_ticks w)) w1 p" using w'(6) p by simp
  ultimately show ?thesis using w'(1,2,4,5) p tm by blast
qed

text \<open>
  C28: When the timerfd fires, whatever timers the callbacks add and cancel, a timer that is due is afterwards deleted, or
  it repeats and is live with its expiration set to the time of the reading plus its interval: it is never left behind.
  A one-shot timer is always deleted. A repeating timer is restarted if no callback cancels a timer, and is deleted if
  its own callback cancels it, although \<^verbatim>\<open>cancelInLoop\<close> does not find it in \<^verbatim>\<open>activeTimers_\<close> while its callback runs.
\<close>

theorem handleRead_due:
  assumes inv: "tq_inv [] w" and beh: "beh_ok beh"
    and due: "(t, p) \<in> set (tq_timers w)" "t \<le> tq_clock w (tq_ticks w)" and tm: "tq_heap w p = Some tm"
  shows "\<exists>w' us. tq_handleRead beh True w = Inr w' \<and> tq_inv [] w' \<and> to_microseconds (tm_interval tm) = Inr us \<and>
    (let restarted = Some (tm\<lparr>tm_expiration := tq_clock w (tq_ticks w) + us * 1000\<rparr>) in
     (tq_heap w' p = None \<or> tm_repeat tm \<and> tq_heap w' p = restarted) \<and>
     (tm_repeat tm \<and> adds_only beh \<longrightarrow> tq_heap w' p = restarted) \<and>
     ((\<forall>u. CallCancel (p, tm_sequence tm) \<in> set (beh (tm_callback tm) u)) \<longrightarrow> tq_heap w' p = None))"
proof -
  from tq_handleRead_at [OF inv beh due tm] obtain w1 w' where
    w': "tq_handleRead beh True w = Inr w'" "tq_inv [] w'" "tq_heap w1 p = Some tm"
      "adds_only beh \<longrightarrow> tq_cancelingTimers w1 = []"
      "(\<forall>u. CallCancel (p, tm_sequence tm) \<in> set (beh (tm_callback tm) u)) \<longrightarrow> (p, tm_sequence tm) \<in> set (tq_cancelingTimers w1)"
      "tq_heap w' p = after_reset (tq_clock w (tq_ticks w)) w1 p" by blast
  have core: "tq_core (set (padds (tq_pending w))) w" using inv by (simp add: tq_inv_def)
  from tq_coreD(7) [OF core tm] have "timer_ok tm" by simp
  moreover from this obtain us where us: "to_microseconds (tm_interval tm) = Inr us"
    by (auto simp: timer_ok_def interval_ok_def split: sum.splits)
  ultimately have "tq_heap w' p = (if tm_repeat tm \<and> (p, tm_sequence tm) \<notin> set (tq_cancelingTimers w1)
      then Some (tm\<lparr>tm_expiration := tq_clock w (tq_ticks w) + us * 1000\<rparr>) else None)"
    using timer_restart_ok [of tm, OF _ tq_coreD(9) [OF core, of 0]] w'(3,6) by (auto simp: after_reset_def)
  with w'(1,2,4,5) us show ?thesis by (auto simp: Let_def)
qed

text \<open>
  \<^verbatim>\<open>getExpired\<close> returns exactly the entries due at \<open>now\<close> in the order of their expirations, keeps exactly the
  others, and its assertions hold: sequence numbers and the sentry address do not confuse it.
\<close>

theorem getExpired_exact:
  assumes "tq_inv [] w"
  shows "\<exists>es w'. getExpired now w = Inr (es, w') \<and> set es = {e \<in> set (tq_timers w). fst e \<le> now} \<and>
    sorted (map fst es) \<and> distinct (map snd es) \<and> set (tq_timers w') = {e \<in> set (tq_timers w). now < fst e}"
proof -
  from assms have "tq_core (set (padds (tq_pending w))) w" by (simp add: tq_inv_def)
  from getExpired_ok [OF this, of now] obtain es w' where
    *: "getExpired now w = Inr (es, w')" "set es = {e \<in> set (tq_timers w). fst e \<le> now}" "ordered es"
      "set (tq_timers w') = {e \<in> set (tq_timers w). now < fst e}" "distinct (map snd es)" by blast
  from *(3) have "sorted (map fst es)"
    by (induction es) (auto simp: less_prod_def)
  with * show ?thesis by blast
qed

text \<open>
  C29: \<^verbatim>\<open>howMuchTimeFromNow\<close> gives a valid \<^verbatim>\<open>timespec\<close> (whole nanoseconds below a second) that is at least 100
  microseconds and otherwise less than a microsecond short of the distance to the expiration.
\<close>

theorem howMuchTimeFromNow_bounds:
  assumes "0 < when" "when < 2 ^ 62" and "tp_near now"
  shows "\<exists>ts. howMuchTimeFromNow now when = Inr ts \<and> 0 \<le> tv_nsec ts \<and> tv_nsec ts < 1000000000 \<and>
    100000 \<le> ts_ns ts \<and> (ts_ns ts = 100000 \<or> ts_ns ts \<le> when - now \<and> when - now < ts_ns ts + 1000)"
proof -
  from howMuch_ok [OF assms] obtain ts where
    ts: "howMuchTimeFromNow now when = Inr ts" "0 \<le> tv_nsec ts" "tv_nsec ts < 1000000000"
      "ts_ns ts = max 100000 ((when - now) div 1000 * 1000)" by blast
  have "(when - now) div 1000 * 1000 = when - now - (when - now) mod 1000" by (simp add: minus_mod_eq_div_mult)
  moreover have "0 \<le> (when - now) mod 1000" "(when - now) mod 1000 < 1000" by simp_all
  ultimately show ?thesis using ts by (intro exI [of _ ts] conjI) (simp_all, linarith)
qed

text \<open>
  A stale \<^verbatim>\<open>TimerId\<close> is harmless: cancelling an id whose address now holds another timer (a different
  sequence number), or no timer, changes nothing outside an expiration.
\<close>

theorem stale_cancel_harmless:
  assumes inv: "tq_inv [] w" and quiet: "\<not> tq_callingExpiredTimers w"
    and stale: "\<And>tm. tq_heap w p = Some tm \<Longrightarrow> tm_sequence tm \<noteq> s"
  shows "cancelInLoop True (p, s) w = Inr w"
proof -
  from inv have core: "tq_core (set (padds (tq_pending w))) w" by (simp add: tq_inv_def)
  have "(p, s) \<notin> set (tq_activeTimers w)" using tq_coreD(4) [OF core, of p s] stale by auto
  with tq_cancel_ok [OF core, of "(p, s)"] quiet show ?thesis by auto
qed

text \<open>
  C32: A cancel can overtake the add it refers to: when another thread adds a timer (the functor is queued)
  and the loop's thread cancels it before the queue is drained, \<^verbatim>\<open>cancelInLoop\<close> does not find the timer and
  does nothing, and the timer is scheduled afterwards.
\<close>

theorem cancel_overtakes_add:
  assumes quiet: "tq_quiet w" and empty: "tq_pending w = []" and ok: "call_ok w (CallAdd p cb t i)"
  shows "\<exists>tid w1 w3. addTimer False p cb t i w = Inr (tid, w1) \<and> tq_cancel True tid w1 = Inr w1 \<and>
    tq_step w1 EvPending = Inr w3 \<and> (\<exists>t'. (t', p) \<in> set (tq_timers w3))"
proof -
  let ?tid = "(p, tq_numCreated w + 1)"
  let ?w1 = "tq_put p (new_Timer cb t i (tq_numCreated w)) (w\<lparr>tq_numCreated := tq_numCreated w + 1\<rparr>)
    \<lparr>tq_pending := [AddTimerInLoop p]\<rparr>"
  have add: "addTimer False p cb t i w = Inr (?tid, ?w1)"
    using ok empty by (simp add: addTimer_def call_ok_def tq_runInLoop_def tq_put_def new_Timer_def)
  have "tq_step w (EvCall False (CallAdd p cb t i)) = Inr ?w1" using add by (simp add: tq_step_def tq_call_def)
  with tqs.step_safe [OF quiet, of "EvCall False (CallAdd p cb t i)"] ok have q1: "tq_quiet ?w1"
    by (auto simp: tq_enabled_def)
  then have core: "tq_core {p} ?w1" by (simp add: tq_quiet_def tq_inv_def)
  have "?tid \<notin> set (tq_activeTimers ?w1)" by (rule tq_core_free [OF core, of p]) simp_all
  with q1 tq_cancel_ok [OF core, of ?tid] have "tq_cancel True ?tid ?w1 = Inr ?w1"
    by (auto simp: tq_cancel_def tq_runInLoop_def tq_run_functor_def tq_quiet_def)
  moreover from tq_pending_ok [OF q1] obtain w3 where
    "tq_step ?w1 EvPending = Inr w3" "\<exists>t'. (t', p) \<in> set (tq_timers w3)" by auto
  ultimately show ?thesis using add by blast
qed

lemma delete_all_ok:
  assumes "distinct (map snd es)" and "snd ` set es \<subseteq> dom (tq_heap w)"
  shows "delete_all es w = Inr (w\<lparr>tq_heap := tq_heap w |` (- snd ` set es)\<rparr>)"
  using assms
proof (induction es arbitrary: w)
  case Nil
  then show ?case by (simp add: restrict_map_def)
next
  case (Cons e es)
  obtain t p where e: "e = (t, p)" by (cases e)
  with Cons.prems obtain tm where tm: "tq_heap w p = Some tm" by auto
  have "((tq_heap w)(p := None)) |` (- snd ` set es) = tq_heap w |` (- insert p (snd ` set es))"
    by (auto simp: restrict_map_def fun_eq_iff)
  moreover have "delete_all es (w\<lparr>tq_heap := (tq_heap w)(p := None)\<rparr>) =
      Inr (w\<lparr>tq_heap := ((tq_heap w)(p := None)) |` (- snd ` set es)\<rparr>)"
  proof -
    have "snd ` set es \<subseteq> dom (tq_heap (w\<lparr>tq_heap := (tq_heap w)(p := None)\<rparr>))" using Cons.prems e by auto
    from Cons.IH [OF _ this] Cons.prems(1) show ?thesis by (simp del: fun_upd_None_restrict fun_upd_apply)
  qed
  ultimately show ?case by (simp add: e tq_delete_def tm)
qed

text \<open>
  The destructor frees every scheduled timer exactly once and nothing else; what stays allocated are
  exactly the timers whose \<^verbatim>\<open>addTimerInLoop\<close> was still pending.
\<close>

theorem destroy_frees_scheduled:
  assumes "tq_inv [] w"
  shows "\<exists>w'. destroy_TimerQueue w = Inr w' \<and> dom (tq_heap w') = set (padds (tq_pending w))"
proof -
  from assms have core: "tq_core (set (padds (tq_pending w))) w" by (simp add: tq_inv_def)
  have "inj_on snd (set (tq_timers w))" using timers_snd_inj [OF core] by (auto intro!: inj_onI)
  with ordered_distinct [OF tq_coreD(1) [OF core]] have dist: "distinct (map snd (tq_timers w))"
    by (simp add: distinct_map)
  from tq_coreD(5) [OF core] have dom: "dom (tq_heap w) = snd ` set (tq_timers w) \<union> set (padds (tq_pending w))" .
  then have "snd ` set (tq_timers w) \<subseteq> dom (tq_heap w)" by simp
  from delete_all_ok [OF dist this] dom tq_coreD(6) [OF core] show ?thesis
    by (auto simp: destroy_TimerQueue_def)
qed

section \<open>A sample queue with two timers\<close>

definition sample_timers :: "unit timer_queue" where
  "sample_timers = \<lparr>tq_heap = [7 \<mapsto> new_Timer () 500 0 0, 8 \<mapsto> new_Timer () 900 1 1], tq_numCreated = 2,
     tq_timers = [(500, 7), (900, 8)], tq_activeTimers = [(7, 1), (8, 2)], tq_cancelingTimers = [],
     tq_callingExpiredTimers = False, tq_pending = [], tq_clock = (\<lambda>n. 1000 + int (n mod 2)), tq_ticks = 0,
     tq_armed = Some (400, \<lparr>tv_sec = 0, tv_nsec = 100000\<rparr>)\<rparr>"

lemma interval_ok_1 [simp]: "interval_ok 1"
  using to_microseconds_exact [of 1 1000000] by (simp add: interval_ok_def)

lemma sample_timers_inv: "tq_inv [] sample_timers"
  unfolding tq_inv_def tq_core_def
  by (auto simp: sample_timers_def new_Timer_def timer_ok_def UINTPTR_MAX_def sample_clock_near split: if_splits)

theorem handleRead_due_witness:
  "(\<exists>w'. tq_handleRead (\<lambda>_ _. []) True sample_timers = Inr w' \<and>
     map_option tm_expiration (tq_heap w' 8) = Some 1000001000) \<and>
   (\<exists>w'. tq_handleRead (\<lambda>_ _. [CallCancel (8, 2)]) True sample_timers = Inr w' \<and> tq_heap w' 8 = None)"
proof -
  have tm: "tq_heap sample_timers 8 = Some (new_Timer () 900 1 1)" by (simp add: sample_timers_def)
  have us: "to_microseconds 1 = Inr 1000000" by (rule to_microseconds_exact) simp_all
  have beh: "beh_ok (\<lambda>_ _. [CallCancel (8, 2)])" by (simp add: beh_ok_def call_ok_def split: sum.split)
  note due = handleRead_due [OF sample_timers_inv _ _ _ tm, of _ 900]
  from due [of "\<lambda>_ _. []"] us have "\<exists>w'. tq_handleRead (\<lambda>_ _. []) True sample_timers = Inr w' \<and>
     map_option tm_expiration (tq_heap w' 8) = Some 1000001000"
    by (auto simp: beh_ok_def adds_only_def sample_timers_def new_Timer_def Let_def)
  moreover from due [OF beh] have
    "\<exists>w'. tq_handleRead (\<lambda>_ _. [CallCancel (8, 2)]) True sample_timers = Inr w' \<and> tq_heap w' 8 = None"
    by (auto simp: sample_timers_def new_Timer_def Let_def)
  ultimately show ?thesis by blast
qed

theorem getExpired_exact_witness:
  "\<exists>es w'. getExpired 700 sample_timers = Inr (es, w') \<and> set es = {(500, 7)}"
  using getExpired_exact [OF sample_timers_inv, of 700] by (fastforce simp: sample_timers_def)

theorem howMuchTimeFromNow_bounds_witness:
  "\<exists>ts. howMuchTimeFromNow 1000 2500000999 = Inr ts \<and> ts_ns ts \<le> 2499999999"
  using howMuchTimeFromNow_bounds [of 2500000999 1000] by (auto simp: tp_near_def)

theorem stale_cancel_harmless_witness: "cancelInLoop True (8, 1) sample_timers = Inr sample_timers"
  by (rule stale_cancel_harmless [OF sample_timers_inv]) (auto simp: sample_timers_def new_Timer_def)

theorem cancel_overtakes_add_witness:
  "\<exists>tid w1 w3. addTimer False 9 () 5000 0 sample_timers = Inr (tid, w1) \<and> tq_cancel True tid w1 = Inr w1 \<and>
    tq_step w1 EvPending = Inr w3 \<and> (\<exists>t'. (t', 9) \<in> set (tq_timers w3))"
proof (rule cancel_overtakes_add)
  show "tq_quiet sample_timers"
    using sample_timers_inv by (simp add: tq_quiet_def armed_ok_def) (simp add: sample_timers_def)
qed (simp_all add: sample_timers_def call_ok_def UINTPTR_MAX_def)

theorem destroy_frees_scheduled_witness:
  "\<exists>w'. destroy_TimerQueue sample_timers = Inr w' \<and> dom (tq_heap w') = {}"
  using destroy_frees_scheduled [OF sample_timers_inv] by (simp add: sample_timers_def)

end
