(* ===== verification/LoopTimers.thy ===== *)
theory LoopTimers
  imports EventLoop TimerQueue
begin

text \<open>
  An event loop with its timer queue: \<^verbatim>\<open>EventLoop\<close> owns a \<^verbatim>\<open>TimerQueue\<close>, whose timerfd has a channel in the loop's poller
  and whose \<^verbatim>\<open>addTimer\<close> and \<^verbatim>\<open>cancel\<close>, called from other threads, are functors of the loop. The loop of \<open>EventLoop\<close> runs here
  on a state that extends its own by the queue; the functors of the queue that are still to run (\<open>tq_pending\<close>) are those
  among the functors of the loop. The steps of the loop's thread are single callbacks and functors; a call from another
  thread is two steps, the work under the lock and the write to the eventfd.
\<close>

section \<open>Model\<close>

datatype loop_chan = ChTimer | ChWakeup | ChUser nat

datatype loop_fun = FnTimer tq_functor | FnUser nat

record 'cb timed_loop = "(loop_chan, loop_fun) event_loop" +
  tl_queue :: "'cb timer_queue"

text \<open>
  What client code does with the loop: use its timers, queue a functor, quit; and with its own channels, in the thread of
  the loop: open one (a new channel with its read callback, \<^verbatim>\<open>enableReading\<close>), set its interest, remove it.
\<close>

datatype 'cb loop_call =
    LcTimer "'cb timer_call"
  | LcQueue nat
  | LcQuit
  | LcOpen nat int nat
  | LcInterest nat "flags \<Rightarrow> flags"
  | LcRemove nat

record 'cb program =
  pg_timer :: "'cb timer_behaviour"
  pg_user :: "nat \<Rightarrow> 'cb timed_loop \<Rightarrow> 'cb loop_call list"

text \<open>The functors an operation of the queue leaves behind go to the loop.\<close>

definition tl_on :: "('cb timer_queue \<Rightarrow> 'cb timer_queue res) \<Rightarrow> 'cb timed_loop \<Rightarrow> 'cb timed_loop res" where
  "tl_on f s = rbind (f (tl_queue s)) (\<lambda>q.
     Inr (fold (\<lambda>g. el_push (FnTimer g)) (drop (length (tq_pending (tl_queue s))) (tq_pending q)) (s\<lparr>tl_queue := q\<rparr>)))"

definition tl_chan :: "(loop_chan epoller \<Rightarrow> loop_chan epoller res) \<Rightarrow> 'cb timed_loop \<Rightarrow> 'cb timed_loop res" where
  "tl_chan f s = rbind (f (el_poller s)) (\<lambda>w. Inr (s\<lparr>el_poller := w\<rparr>))"

text \<open>
  A call in the thread \<open>tid\<close>: what it does up to the end of the lock of \<^verbatim>\<open>queueInLoop\<close> (the assignment of \<^verbatim>\<open>quit_\<close>), and the
  write to the eventfd that follows.
\<close>

definition tl_post :: "nat \<Rightarrow> 'cb loop_call \<Rightarrow> 'cb timed_loop \<Rightarrow> 'cb timed_loop res" where
  "tl_post tid c s = (case c of
     LcTimer tc \<Rightarrow> tl_on (tq_call (isInLoopThread tid s) tc) s
   | LcQueue n \<Rightarrow> Inr (el_push (FnUser n) s)
   | LcQuit \<Rightarrow> Inr (s\<lparr>el_quit := True\<rparr>)
   | LcOpen p fd n \<Rightarrow> tl_chan (\<lambda>w. ep_set_events (isInLoopThread tid s) ev_enableReading p
       (ep_put p (setReadCallback (ChUser n) (new_Channel fd)) w)) s
   | LcInterest p f \<Rightarrow> tl_chan (ep_set_events (isInLoopThread tid s) f p) s
   | LcRemove p \<Rightarrow> el_removeChannel tid p s)"

definition tl_wake :: "nat \<Rightarrow> 'cb loop_call \<Rightarrow> 'cb timed_loop \<Rightarrow> 'cb timed_loop" where
  "tl_wake tid c s = (case c of
     LcTimer tc \<Rightarrow> (if isInLoopThread tid s then s else el_wakeup s)
   | LcQueue n \<Rightarrow> el_wake_if tid s
   | LcQuit \<Rightarrow> (if isInLoopThread tid s then s else el_wakeup s)
   | _ \<Rightarrow> s)"

definition tl_call :: "nat \<Rightarrow> 'cb loop_call \<Rightarrow> 'cb timed_loop \<Rightarrow> 'cb timed_loop res" where
  "tl_call tid c s = rbind (tl_post tid c s) (\<lambda>s. Inr (tl_wake tid c s))"

fun tl_calls :: "nat \<Rightarrow> 'cb loop_call list \<Rightarrow> 'cb timed_loop \<Rightarrow> 'cb timed_loop res" where
  "tl_calls tid [] s = Inr s"
| "tl_calls tid (c # cs) s = rbind (tl_call tid c s) (tl_calls tid cs)"

text \<open>The two parts together are \<^verbatim>\<open>queueInLoop\<close> and \<^verbatim>\<open>quit\<close>; a timer call from another thread queues its functor.\<close>

lemma tl_call_is_queueInLoop:
  "tl_call tid (LcQueue n) s = Inr (queueInLoop tid (FnUser n) s)"
  "tl_call tid LcQuit s = Inr (el_quit_call tid s)"
  "\<not> isInLoopThread tid s \<Longrightarrow> tl_call tid (LcTimer (CallCancel i)) s =
    Inr (queueInLoop tid (FnTimer (CancelInLoop i)) (s\<lparr>tl_queue := (tl_queue s)\<lparr>tq_pending := tq_pending (tl_queue s) @ [CancelInLoop i]\<rparr>\<rparr>))"
  by (auto simp: tl_call_def tl_post_def tl_wake_def queueInLoop_def el_quit_call_def Let_def isInLoopThread_def tl_on_def tq_call_def
    tq_cancel_def tq_runInLoop_def el_wake_if_def el_push_def)

text \<open>The read callbacks of the channels, and the functors; both run in the thread of the loop.\<close>

definition tl_read :: "'cb program \<Rightarrow> loop_chan \<Rightarrow> time_point \<Rightarrow> 'cb timed_loop \<Rightarrow> 'cb timed_loop res" where
  "tl_read pg cb t s = (case cb of
     ChWakeup \<Rightarrow> Inr (el_handleRead s)
   | ChTimer \<Rightarrow> tl_on (tq_handleRead (pg_timer pg) True) s
   | ChUser n \<Rightarrow> tl_calls (el_threadId s) (pg_user pg n s) s)"

definition tl_fn :: "'cb program \<Rightarrow> loop_fun \<Rightarrow> 'cb timed_loop \<Rightarrow> 'cb timed_loop res" where
  "tl_fn pg f s = (case f of
     FnTimer g \<Rightarrow> rbind (tq_run_functor g ((tl_queue s)\<lparr>tq_pending := tl (tq_pending (tl_queue s))\<rparr>)) (\<lambda>q. Inr (s\<lparr>tl_queue := q\<rparr>))
   | FnUser n \<Rightarrow> tl_calls (el_threadId s) (pg_user pg n s) s)"

text \<open>
  The constructor: the timer queue with its channel at address \<open>pt\<close> first, then the wakeup channel at \<open>pw\<close>.
\<close>

definition timer_channel :: "nat \<Rightarrow> int \<Rightarrow> loop_chan epoller \<Rightarrow> loop_chan epoller res" where
  "timer_channel pt timerfd w = ep_set_events True ev_enableReading pt (ep_put pt (setReadCallback ChTimer (new_Channel timerfd)) w)"

definition new_timed_loop ::
  "nat \<Rightarrow> bool \<Rightarrow> loop_chan epoller \<Rightarrow> int \<Rightarrow> nat \<Rightarrow> int \<Rightarrow> nat \<Rightarrow> (nat \<Rightarrow> time_point) \<Rightarrow> 'cb timed_loop res" where
  "new_timed_loop tid other poller timerfd pt evtfd pw clock =
    rbind (new_TimerQueue timerfd clock) (\<lambda>q.
    rbind (timer_channel pt timerfd poller) (\<lambda>w.
    rbind (new_EventLoop tid other w evtfd pw ChWakeup) (\<lambda>b.
    Inr (event_loop.extend b (timed_loop.fields q)))))"

text \<open>
  Where the thread of the loop is: at \<^verbatim>\<open>poll\<close>, in the loop over the active channels, or in \<^verbatim>\<open>doPendingFunctors\<close> with the functors
  it has still to call. Between its steps other threads call in; the number counts those that have done the first part
  of a call and have still to write to the eventfd.
\<close>

datatype loop_phase = Polling | Handling "nat list" | Running "loop_fun list"

type_synonym 'cb tl_state = "loop_phase \<times> nat \<times> 'cb timed_loop"

datatype 'cb tl_ev = TlPoll wait_result time_point | TlNext | TlCall nat "'cb loop_call" | TlWake

fun tl_next :: "'cb program \<Rightarrow> loop_phase \<Rightarrow> 'cb timed_loop \<Rightarrow> (loop_phase \<times> 'cb timed_loop) res" where
  "tl_next pg Polling s = Inr (Polling, s)"
| "tl_next pg (Handling (p # ps)) s =
    rbind (ep_chan (el_poller s) p) (\<lambda>_.
    rbind (handleEvent (el_get p) (el_put p) no_callback (tl_read pg) (el_pollReturnTime s) s) (\<lambda>s.
    Inr (Handling ps, s)))"
| "tl_next pg (Handling []) s =
    Inr (Running (el_pendingFunctors s), s\<lparr>el_callingPendingFunctors := True, el_pendingFunctors := []\<rparr>)"
| "tl_next pg (Running (f # fs)) s = rbind (tl_fn pg f s) (\<lambda>s. Inr (Running fs, s))"
| "tl_next pg (Running []) s = Inr (Polling, s\<lparr>el_callingPendingFunctors := False\<rparr>)"

definition tl_poll :: "wait_result \<Rightarrow> time_point \<Rightarrow> 'cb timed_loop \<Rightarrow> (loop_phase \<times> 'cb timed_loop) res" where
  "tl_poll r t s = rbind (ep_poll r [] (el_poller s)) (\<lambda>(active, w).
     Inr (Handling active, s\<lparr>el_poller := w, el_activeChannels := active, el_pollReturnTime := t\<rparr>))"

fun tl_step :: "'cb program \<Rightarrow> 'cb tl_state \<Rightarrow> 'cb tl_ev \<Rightarrow> 'cb tl_state res" where
  "tl_step pg (h, k, s) (TlPoll r t) = rbind (tl_poll r t s) (\<lambda>(h, s). Inr (h, k, s))"
| "tl_step pg (h, k, s) TlNext = rbind (tl_next pg h s) (\<lambda>(h, s). Inr (h, k, s))"
| "tl_step pg (h, k, s) (TlCall tid c) = rbind (tl_post tid c s) (\<lambda>s. Inr (h, Suc k, s))"
| "tl_step pg (h, k, s) TlWake = Inr (h, k - 1, el_wakeup s)"

text \<open>The steps of the loop's thread, undisturbed, are the body of the loop.\<close>

lemma handling_steps:
  "handle_active no_callback (tl_read pg) ps s = Inr s' \<Longrightarrow>
   run_steps (tl_step pg) (Handling ps, k, s) (replicate (length ps) TlNext) = Inr (Handling [], k, s')"
  by (induction ps arbitrary: s) (auto simp: res_Inr_iffs)

lemma calling_steps:
  "run_functors (tl_fn pg) fs s = Inr s' \<Longrightarrow>
   run_steps (tl_step pg) (Running fs, k, s) (replicate (length fs) TlNext) = Inr (Running [], k, s')"
  by (induction fs arbitrary: s) (auto simp: res_Inr_iffs)

lemma round_is_loop_body:
  assumes "loop_body no_callback (tl_read pg) (tl_fn pg) (r, t) s = Inr s'"
  shows "\<exists>n. run_steps (tl_step pg) (Polling, k, s) (TlPoll r t # replicate n TlNext) = Inr (Polling, k, s')"
proof -
  from assms obtain active w u where w: "ep_poll r [] (el_poller s) = Inr (active, w)"
    and u: "handle_active no_callback (tl_read pg) active
        (s\<lparr>el_poller := w, el_activeChannels := active, el_pollReturnTime := t\<rparr>) = Inr u"
    and d: "doPendingFunctors (tl_fn pg) u = Inr s'" by (auto simp: loop_body_def Let_def res_Inr_iffs)
  let ?u = "u\<lparr>el_callingPendingFunctors := True, el_pendingFunctors := []\<rparr>"
  from d obtain v where v: "run_functors (tl_fn pg) (el_pendingFunctors u) ?u = Inr v" "s' = v\<lparr>el_callingPendingFunctors := False\<rparr>"
    by (auto simp: doPendingFunctors_def Let_def res_Inr_iffs)
  let ?es = "replicate (length active) TlNext @ [TlNext] @ replicate (length (el_pendingFunctors u)) TlNext @ [TlNext]"
  have "run_steps (tl_step pg) (Polling, k, s) (TlPoll r t # ?es) = Inr (Polling, k, s')"
    using w handling_steps [OF u, of k] calling_steps [OF v(1), of k] v(2) by (simp add: tl_poll_def run_steps_append)
  moreover have "?es = replicate (length active + 1 + length (el_pendingFunctors u) + 1) TlNext"
    by (simp add: replicate_add [symmetric] replicate_append_same del: replicate.simps) (simp add: replicate_app_Cons_same replicate_add)
  ultimately show ?thesis by (metis)
qed

section \<open>Which operations leave functors behind\<close>

lemma resetTimerfd_pending: "resetTimerfd t w = Inr w' \<Longrightarrow> tq_pending w' = tq_pending w"
  by (auto simp: resetTimerfd_def tq_now_def res_Inr_iffs)

lemma tq_insert_pending: "tq_insert p w = Inr (b, w') \<Longrightarrow> tq_pending w' = tq_pending w"
  by (auto simp: tq_insert_def Let_def res_Inr_iffs)

lemma tq_delete_pending: "tq_delete p w = Inr w' \<Longrightarrow> tq_pending w' = tq_pending w"
  by (auto simp: tq_delete_def split: option.splits)

lemma tq_run_functor_pending: "tq_run_functor f w = Inr w' \<Longrightarrow> tq_pending w' = tq_pending w"
  by (auto simp: tq_run_functor_def addTimerInLoop_def cancelInLoop_def res_Inr_iffs split: tq_functor.splits if_splits
    dest!: resetTimerfd_pending tq_insert_pending tq_delete_pending)

lemma tq_call_pending:
  assumes "tq_call il c w = Inr w'"
  shows "\<exists>fs. tq_pending w' = tq_pending w @ fs \<and> (il \<longrightarrow> fs = [])"
  using assms
  by (auto simp: tq_call_def tq_cancel_def addTimer_def tq_runInLoop_def Let_def tq_put_def res_Inr_iffs
    split: timer_call.splits if_splits dest!: tq_run_functor_pending)

lemma tq_calls_pending: "tq_calls cs w = Inr w' \<Longrightarrow> tq_pending w' = tq_pending w"
  by (induction cs arbitrary: w) (auto simp: res_Inr_iffs dest!: tq_call_pending)

lemma run_timers_pending: "run_timers beh es w = Inr w' \<Longrightarrow> tq_pending w' = tq_pending w"
  by (induction es arbitrary: w) (auto simp: res_Inr_iffs dest!: tq_calls_pending)

lemma erase_active_pending: "erase_active es w = Inr w' \<Longrightarrow> tq_pending w' = tq_pending w"
  by (induction es arbitrary: w) (auto simp: res_Inr_iffs)

lemma reset_entries_pending: "reset_entries now es w = Inr w' \<Longrightarrow> tq_pending w' = tq_pending w"
  by (induction es arbitrary: w)
    (fastforce simp: res_Inr_iffs tq_put_def split: if_splits dest!: tq_insert_pending tq_delete_pending)+

lemma tq_handleRead_pending:
  assumes "tq_handleRead beh il w = Inr w'"
  shows "tq_pending w' = tq_pending w"
  using assms
  by (auto simp: tq_handleRead_def tq_now_def readTimerfd_def getExpired_def tq_reset_def Let_def res_Inr_iffs split: if_splits
    dest!: run_timers_pending erase_active_pending reset_entries_pending resetTimerfd_pending)

section \<open>What the poller keeps\<close>

text \<open>What polling and dispatch leave as it is in a poller: registrations, and all of a channel but what it is handling.\<close>

definition idle_channel :: "'cb channel \<Rightarrow> 'cb channel" where
  "idle_channel c = c\<lparr>ch_revents := 0, ch_eventHandling := False\<rparr>"

definition poller_kept :: "'cb epoller \<Rightarrow> 'cb epoller \<Rightarrow> bool" where
  "poller_kept w w' \<longleftrightarrow> ep_channels w' = ep_channels w \<and>
    (\<forall>p. map_option idle_channel (ep_heap w' p) = map_option idle_channel (ep_heap w p))"

lemma poller_kept_refl [simp]: "poller_kept w w"
  by (simp add: poller_kept_def)

lemma poller_kept_trans: "poller_kept u v \<Longrightarrow> poller_kept v w \<Longrightarrow> poller_kept u w"
  by (simp add: poller_kept_def)

lemma kept_alive: "poller_kept w w' \<Longrightarrow> ep_heap w p \<noteq> None \<Longrightarrow> ep_heap w' p \<noteq> None"
  unfolding poller_kept_def by (metis option.map_disc_iff)

lemma kept_flag: "ep_heap w p = Some c \<Longrightarrow> poller_kept w (ep_put p (c\<lparr>ch_eventHandling := b\<rparr>) w)"
  by (simp add: poller_kept_def ep_put_def idle_channel_def)

lemma kept_revents:
  "ep_heap w' = with_revents evs (ep_heap w) \<Longrightarrow> ep_channels w' = ep_channels w \<Longrightarrow> poller_kept w w'"
  by (auto simp: poller_kept_def with_revents_def idle_channel_def option.map_comp o_def split: option.splits intro: map_option_cong)

text \<open>A channel that is registered for reading, with its read callback.\<close>

definition watching :: "nat \<Rightarrow> int \<Rightarrow> 'cb \<Rightarrow> 'cb epoller \<Rightarrow> bool" where
  "watching p fd cb w \<longleftrightarrow> ep_channels w fd = Some p \<and>
    (\<exists>c. ep_heap w p = Some c \<and> ch_fd c = fd \<and> ch_events c = kReadEvent \<and> ch_readCallback c = Some cb)"

lemma watching_kept:
  assumes "watching p fd cb w" and "poller_kept w w'"
  shows "watching p fd cb w'"
proof -
  from assms(1) obtain c where c: "ep_heap w p = Some c" "ch_fd c = fd" "ch_events c = kReadEvent" "ch_readCallback c = Some cb"
    by (auto simp: watching_def)
  from assms(2) c(1) obtain c' where c': "ep_heap w' p = Some c'" "idle_channel c' = idle_channel c"
    by (auto simp: poller_kept_def dest!: spec [of _ p])
  have "ch_fd c' = ch_fd c" "ch_events c' = ch_events c" "ch_readCallback c' = ch_readCallback c"
    using arg_cong [OF c'(2), of ch_fd] arg_cong [OF c'(2), of ch_events] arg_cong [OF c'(2), of ch_readCallback]
    by (simp_all add: idle_channel_def)
  with assms c c'(1) show ?thesis by (auto simp: watching_def poller_kept_def)
qed

lemma watching_watched:
  assumes "watching p fd cb w" and inv: "ep_inv w"
  shows "ep_watched w fd = kReadEvent"
proof -
  from assms(1) obtain c where c: "ep_channels w fd = Some p" "ep_heap w p = Some c" "ch_events c = kReadEvent"
    by (auto simp: watching_def)
  have "kReadEvent \<noteq> 0" by (simp add: kReadEvent_def poll_flag_defs)
  with ep_invD [OF inv c(1,2)] c(3) have "ep_interest w fd = Some (kReadEvent, p)" by auto
  then show ?thesis by (simp add: ep_watched_def)
qed

section \<open>Invariant\<close>

fun timer_fns :: "loop_fun list \<Rightarrow> tq_functor list" where
  "timer_fns [] = []"
| "timer_fns (FnTimer g # fs) = g # timer_fns fs"
| "timer_fns (FnUser n # fs) = timer_fns fs"

lemma timer_fns_append [simp]: "timer_fns (xs @ ys) = timer_fns xs @ timer_fns ys"
  by (induction xs rule: timer_fns.induct) simp_all

lemma timer_fns_timers [simp]: "timer_fns (map FnTimer gs) = gs"
  by (induction gs) simp_all

text \<open>
  The poller and the queue are in order, and the pending functors of the queue are those among \<open>fs\<close>, which the loop is about
  to call, and among the queued functors of the loop.
\<close>

definition tl_base :: "loop_fun list \<Rightarrow> 'cb timed_loop \<Rightarrow> bool" where
  "tl_base fs s \<longleftrightarrow> ep_inv (el_poller s) \<and> tq_quiet (tl_queue s) \<and> tq_pending (tl_queue s) = timer_fns (fs @ el_pendingFunctors s)"

text \<open>
  What client code may do to the poller: channel objects stay, and the channels of the timer queue and of the eventfd stay
  registered for reading.
\<close>

definition poller_grows :: "loop_chan epoller \<Rightarrow> loop_chan epoller \<Rightarrow> bool" where
  "poller_grows w w' \<longleftrightarrow> (\<forall>p. ep_heap w p \<noteq> None \<longrightarrow> ep_heap w' p \<noteq> None) \<and>
    (\<forall>p fd. watching p fd ChTimer w \<longrightarrow> watching p fd ChTimer w') \<and>
    (\<forall>p fd. watching p fd ChWakeup w \<longrightarrow> watching p fd ChWakeup w')"

lemma poller_grows_refl [simp]: "poller_grows w w"
  by (simp add: poller_grows_def)

lemma poller_grows_trans: "poller_grows u v \<Longrightarrow> poller_grows v w \<Longrightarrow> poller_grows u w"
  by (simp add: poller_grows_def)

lemma kept_grows: "poller_kept w w' \<Longrightarrow> poller_grows w w'"
  by (simp add: poller_grows_def kept_alive watching_kept)

definition tl_same :: "'cb timed_loop \<Rightarrow> 'cb timed_loop \<Rightarrow> bool" where
  "tl_same s s' \<longleftrightarrow> poller_grows (el_poller s) (el_poller s') \<and> el_threadId s' = el_threadId s \<and>
    el_callingPendingFunctors s' = el_callingPendingFunctors s"

lemma tl_same_refl [simp]: "tl_same s s"
  by (simp add: tl_same_def)

lemma tl_same_trans: "tl_same s t \<Longrightarrow> tl_same t u \<Longrightarrow> tl_same s u"
  by (auto simp: tl_same_def intro: poller_grows_trans)

text \<open>A functor is pending only if the eventfd is readable.\<close>

definition awake :: "'cb timed_loop \<Rightarrow> bool" where
  "awake s \<longleftrightarrow> (el_pendingFunctors s \<noteq> [] \<longrightarrow> 0 < el_wakeups s)"

lemma wakeup_awake [simp]: "awake (el_wakeup s)"
  by (simp add: awake_def el_wakeup_def)

lemma wakeup_fields [simp]:
  fixes s :: "'cb timed_loop"
  shows "tl_base fs (el_wakeup s) = tl_base fs s" "tl_same u (el_wakeup s) = tl_same u s"
    "el_pendingFunctors (el_wakeup s) = el_pendingFunctors s" "el_poller (el_wakeup s) = el_poller s"
    "el_callingPendingFunctors (el_wakeup s) = el_callingPendingFunctors s"
  by (simp_all add: el_wakeup_def tl_base_def tl_same_def)

lemma push_all:
  fixes s :: "'cb timed_loop"
  shows "fold (\<lambda>g. el_push (FnTimer g)) gs s = s\<lparr>el_pendingFunctors := el_pendingFunctors s @ map FnTimer gs\<rparr>"
  by (induction gs arbitrary: s) (simp_all add: el_push_def)

text \<open>An operation of the queue that may leave functors behind.\<close>

lemma tl_on_ok:
  assumes base: "tl_base fs s" and f: "f (tl_queue s) = Inr q" "tq_quiet q" "tq_pending q = tq_pending (tl_queue s) @ gs"
  shows "\<exists>s'. tl_on f s = Inr s' \<and> tl_base fs s' \<and> tl_same s s' \<and> (gs = [] \<and> awake s \<longrightarrow> awake s')"
  using assms by (simp add: tl_on_def push_all tl_base_def tl_same_def awake_def)

text \<open>A channel of client code, and what may be done with it in the thread of the loop.\<close>

definition user_channel :: "loop_chan epoller \<Rightarrow> nat \<Rightarrow> bool" where
  "user_channel w p \<longleftrightarrow> (case ep_heap w p of None \<Rightarrow> False
     | Some c \<Rightarrow> (case ch_readCallback c of Some (ChUser n) \<Rightarrow> True | _ \<Rightarrow> False))"

definition loop_call_ok :: "nat \<Rightarrow> 'cb timed_loop \<Rightarrow> 'cb loop_call \<Rightarrow> bool" where
  "loop_call_ok tid s c \<longleftrightarrow> (let w = el_poller s in case c of
     LcTimer tc \<Rightarrow> call_ok (tl_queue s) tc
   | LcQueue n \<Rightarrow> True
   | LcQuit \<Rightarrow> True
   | LcOpen p fd n \<Rightarrow> isInLoopThread tid s \<and> ep_heap w p = None \<and> ep_channels w fd = None
   | LcInterest p f \<Rightarrow> isInLoopThread tid s \<and> user_channel w p \<and> ep_can_set w p 0
   | LcRemove p \<Rightarrow> isInLoopThread tid s \<and> user_channel w p \<and> ep_silenced w p \<and>
       (case ep_heap w p of None \<Rightarrow> False | Some c \<Rightarrow> ep_channels w (ch_fd c) = Some p))"

text \<open>A new channel is registered for reading; nothing else changes.\<close>

lemma register_ok:
  assumes "ep_inv w" and "ep_heap w p = None" and "ep_channels w fd = None"
  shows "\<exists>w' c. ep_set_events True ev_enableReading p (ep_put p (setReadCallback cb (new_Channel fd)) w) = Inr w' \<and> ep_inv w' \<and>
    watching p fd cb w' \<and> ep_channels w' = (ep_channels w)(fd \<mapsto> p) \<and> ep_heap w' = (ep_heap w)(p \<mapsto> c)"
proof -
  let ?ch = "setReadCallback cb (new_Channel fd)"
  let ?w = "ep_put p ?ch w"
  have ch: "ch_fd ?ch = fd" "ch_index ?ch = kNew" "ch_events ?ch = 0" "ch_readCallback ?ch = Some cb"
    by (simp_all add: setReadCallback_def new_Channel_def kNew_def)
  have inv: "ep_inv ?w" and heap: "ep_heap ?w p = Some ?ch" and own: "ep_channels ?w fd = None"
    using assms ch(2) ep_inv_new [of w p ?ch] by (simp_all add: ep_put_def)
  have "ep_can_set ?w p (ev_enableReading (ch_events ?ch))" using heap own ch(1) by (simp add: ep_can_set_def)
  from epc.set_law [of ?w p ?ch ev_enableReading, OF inv heap this] obtain w2 c2 where
    w2: "ep_set_events True ev_enableReading p ?w = Inr w2" "ep_inv w2" "ep_channels w2 = (ep_channels ?w)(fd \<mapsto> p)"
    "ep_heap w2 = (ep_heap ?w)(p \<mapsto> c2)" "ch_fd c2 = fd" "ch_events c2 = ev_enableReading 0" "same_hooks c2 ?ch" using ch by auto
  then have "watching p fd cb w2" using ch(4) by (simp add: watching_def same_hooks_def ev_enableReading_def)
  with w2 show ?thesis by (auto simp: ep_put_def)
qed

lemma open_grows:
  assumes "ep_inv w" and "ep_heap w p = None" "ep_channels w fd = None"
    and "ep_channels w' = (ep_channels w)(fd \<mapsto> p)" "ep_heap w' = (ep_heap w)(p \<mapsto> c)"
  shows "poller_grows w w'"
  using assms by (auto simp: poller_grows_def watching_def)

lemma interest_ok:
  assumes inv: "ep_inv w" and user: "user_channel w p" and can: "ep_can_set w p 0"
  shows "\<exists>w'. ep_set_events True f p w = Inr w' \<and> ep_inv w' \<and> poller_grows w w'"
proof -
  from user obtain c n where c: "ep_heap w p = Some c" "ch_readCallback c = Some (ChUser n)"
    by (auto simp: user_channel_def split: option.splits loop_chan.splits)
  from can have can': "ep_can_set w p (f (ch_events c))" by (simp add: ep_can_set_def)
  from epc.set_law [of w p c f, OF inv c(1) this] obtain w' c' where
    w': "ep_set_events True f p w = Inr w'" "ep_inv w'" "ep_channels w' = (ep_channels w)(ch_fd c \<mapsto> p)"
      "ep_heap w' = (ep_heap w)(p \<mapsto> c')" by blast
  have "poller_grows w w'" using c can w'(3,4) by (auto simp: poller_grows_def watching_def ep_can_set_def)
  with w'(1,2) show ?thesis by blast
qed

lemma remove_ok:
  assumes inv: "ep_inv w" and user: "user_channel w p" and sil: "ep_silenced w p" and c: "ep_heap w p = Some c"
    and reg: "ep_channels w (ch_fd c) = Some p"
  shows "\<exists>w'. ep_removeChannel True p w = Inr w' \<and> ep_inv w' \<and> poller_grows w w'"
proof -
  from user c obtain n where cb: "ch_readCallback c = Some (ChUser n)"
    by (auto simp: user_channel_def split: option.splits loop_chan.splits)
  from sil c have "isNoneEvent c" by (simp add: ep_silenced_def)
  from ep_removeChannel_ok [OF inv c reg this] epc.remove_law [OF inv c reg sil] obtain w' where
    w': "ep_removeChannel True p w = Inr w'" "ep_inv w'" "ep_channels w' = (ep_channels w)(ch_fd c := None)"
      "ep_heap w' = (ep_heap w)(p \<mapsto> c\<lparr>ch_index := kNew\<rparr>)" by auto
  have "poller_grows w w'" using c cb reg w'(3,4) by (auto simp: poller_grows_def watching_def)
  with w'(1,2) show ?thesis by blast
qed

lemma tl_chan_ok:
  assumes "tl_base fs s" and "f (el_poller s) = Inr w" "ep_inv w" "poller_grows (el_poller s) w"
  shows "\<exists>s'. tl_chan f s = Inr s' \<and> tl_base fs s' \<and> tl_same s s' \<and> (awake s \<longrightarrow> awake s')"
  using assms by (simp add: tl_chan_def tl_base_def tl_same_def awake_def)

text \<open>The first part of a call, from any thread; in the thread of the loop only \<^verbatim>\<open>queueInLoop\<close> leaves a functor behind.\<close>

lemma tl_post_ok:
  assumes base: "tl_base fs s" and c: "loop_call_ok tid s c"
  shows "\<exists>s'. tl_post tid c s = Inr s' \<and> tl_base fs s' \<and> tl_same s s' \<and>
    (isInLoopThread tid s \<and> awake s \<and> (\<forall>n. c \<noteq> LcQueue n) \<longrightarrow> awake s')"
proof (cases c)
  case (LcTimer tc)
  let ?il = "isInLoopThread tid s"
  have "tq_enabled (tl_queue s) (EvCall ?il tc)" using c LcTimer by (simp add: tq_enabled_def loop_call_ok_def)
  with tqs.step_safe [of "tl_queue s" "EvCall ?il tc"] base obtain q where
    q: "tq_call ?il tc (tl_queue s) = Inr q" "tq_quiet q" by (auto simp: tl_base_def tq_step_def)
  from tq_call_pending [OF q(1)] obtain gs where gs: "tq_pending q = tq_pending (tl_queue s) @ gs" "?il \<longrightarrow> gs = []" by blast
  from tl_on_ok [of fs s "tq_call ?il tc", OF base q gs(1)] gs(2) LcTimer show ?thesis by (auto simp: tl_post_def)
next
  case (LcQueue n)
  with base show ?thesis by (simp add: tl_post_def tl_base_def tl_same_def el_push_def)
next
  case LcQuit
  with base show ?thesis by (simp add: tl_post_def tl_base_def tl_same_def awake_def)
next
  case (LcOpen p fd n)
  let ?w = "el_poller s"
  from c LcOpen have p: "isInLoopThread tid s" "ep_heap ?w p = None" "ep_channels ?w fd = None" by (simp_all add: loop_call_ok_def Let_def)
  from base have inv: "ep_inv ?w" by (simp add: tl_base_def)
  from register_ok [OF inv p(2,3), of "ChUser n"] obtain w' ch where
    w': "ep_set_events True ev_enableReading p (ep_put p (setReadCallback (ChUser n) (new_Channel fd)) ?w) = Inr w'" "ep_inv w'"
      "ep_channels w' = (ep_channels ?w)(fd \<mapsto> p)" "ep_heap w' = (ep_heap ?w)(p \<mapsto> ch)" by blast
  from tl_chan_ok [OF base _ w'(2) open_grows [OF inv p(2,3) w'(3,4)]] w'(1) p(1) LcOpen show ?thesis
    by (simp add: tl_post_def)
next
  case (LcInterest p f)
  with c have p: "isInLoopThread tid s" "user_channel (el_poller s) p" "ep_can_set (el_poller s) p 0"
    by (simp_all add: loop_call_ok_def Let_def)
  from base have "ep_inv (el_poller s)" by (simp add: tl_base_def)
  from interest_ok [OF this p(2,3)] tl_chan_ok [OF base] p(1) LcInterest show ?thesis by (simp add: tl_post_def) blast
next
  case (LcRemove p)
  with c obtain ch where p: "isInLoopThread tid s" "user_channel (el_poller s) p" "ep_silenced (el_poller s) p"
    "ep_heap (el_poller s) p = Some ch" "ep_channels (el_poller s) (ch_fd ch) = Some p"
    by (auto simp: loop_call_ok_def Let_def split: option.splits)
  from base have "ep_inv (el_poller s)" by (simp add: tl_base_def)
  from remove_ok [OF this p(2-5)] tl_chan_ok [OF base, of "ep_removeChannel True p"] obtain s' where
    "tl_chan (ep_removeChannel True p) s = Inr s' \<and> tl_base fs s' \<and> tl_same s s' \<and> (awake s \<longrightarrow> awake s')" by blast
  with p(1) LcRemove show ?thesis by (auto simp: tl_post_def el_removeChannel_def tl_chan_def)
qed

text \<open>A whole call in the thread of the loop; while functors are being called, queueing one writes to the eventfd.\<close>

lemma tl_wake_ok:
  fixes s :: "'cb timed_loop"
  shows "tl_base fs (tl_wake tid c s) = tl_base fs s" "tl_same u (tl_wake tid c s) = tl_same u s"
    "awake s \<Longrightarrow> awake (tl_wake tid c s)" "el_callingPendingFunctors s \<Longrightarrow> awake (tl_wake tid (LcQueue n) s)"
  by (auto simp: tl_wake_def el_wake_if_def split: loop_call.split)

lemma tl_call_ok:
  assumes base: "tl_base fs s" and c: "loop_call_ok tid s c" and tid: "isInLoopThread tid s"
  shows "\<exists>s'. tl_call tid c s = Inr s' \<and> tl_base fs s' \<and> tl_same s s' \<and> (el_callingPendingFunctors s \<and> awake s \<longrightarrow> awake s')"
proof -
  from tl_post_ok [OF base c] tid obtain s' where s': "tl_post tid c s = Inr s'" "tl_base fs s'" "tl_same s s'"
    "awake s \<and> (\<forall>n. c \<noteq> LcQueue n) \<longrightarrow> awake s'" by blast
  then have "awake (tl_wake tid c s')" if "el_callingPendingFunctors s" "awake s"
    using that by (cases "\<exists>n. c = LcQueue n") (auto simp: tl_wake_ok tl_same_def)
  with s' show ?thesis by (simp add: tl_call_def tl_wake_ok)
qed

text \<open>
  Client code that uses timers and channels as it may: new objects at fresh addresses, times within range, only its own
  channels.
\<close>

fun tl_calls_ok :: "nat \<Rightarrow> 'cb timed_loop \<Rightarrow> 'cb loop_call list \<Rightarrow> bool" where
  "tl_calls_ok tid s [] = True"
| "tl_calls_ok tid s (c # cs) =
    (loop_call_ok tid s c \<and> (case tl_call tid c s of Inl _ \<Rightarrow> True | Inr s' \<Rightarrow> tl_calls_ok tid s' cs))"

definition program_ok :: "'cb program \<Rightarrow> bool" where
  "program_ok pg \<longleftrightarrow> beh_ok (pg_timer pg) \<and> (\<forall>n s. tl_calls_ok (el_threadId s) s (pg_user pg n s))"

lemma tl_calls_safe:
  "tl_base fs s \<Longrightarrow> tl_calls_ok tid s cs \<Longrightarrow> isInLoopThread tid s \<Longrightarrow>
   \<exists>s'. tl_calls tid cs s = Inr s' \<and> tl_base fs s' \<and> tl_same s s' \<and> (el_callingPendingFunctors s \<and> awake s \<longrightarrow> awake s')"
proof (induction cs arbitrary: s)
  case (Cons c cs)
  then have "loop_call_ok tid s c" by simp
  from tl_call_ok [OF Cons.prems(1) this Cons.prems(3)] obtain t where
    t: "tl_call tid c s = Inr t" "tl_base fs t" "tl_same s t" "el_callingPendingFunctors s \<and> awake s \<longrightarrow> awake t" by blast
  with Cons.prems(2,3) have "tl_calls_ok tid t cs" "isInLoopThread tid t" by (simp_all add: tl_same_def isInLoopThread_def)
  from Cons.IH [OF t(2) this] t show ?case by (auto simp: tl_same_def intro: poller_grows_trans)
qed simp

lemma tl_user_ok:
  assumes "tl_base fs s" and "program_ok pg"
  shows "\<exists>s'. tl_calls (el_threadId s) (pg_user pg n s) s = Inr s' \<and> tl_base fs s' \<and> tl_same s s' \<and>
    (el_callingPendingFunctors s \<and> awake s \<longrightarrow> awake s')"
  using assms by (intro tl_calls_safe) (simp_all add: program_ok_def isInLoopThread_def)

lemma tl_read_ok:
  assumes base: "tl_base fs s" and pg: "program_ok pg"
  shows "\<exists>s'. tl_read pg cb t s = Inr s' \<and> tl_base fs s' \<and> tl_same s s'"
proof (cases cb)
  case ChTimer
  have "tq_enabled (tl_queue s) (EvRead (pg_timer pg))" using pg by (simp add: tq_enabled_def program_ok_def)
  with tqs.step_safe [of "tl_queue s" "EvRead (pg_timer pg)"] base obtain q where
    q: "tq_handleRead (pg_timer pg) True (tl_queue s) = Inr q" "tq_quiet q" by (auto simp: tl_base_def tq_step_def)
  from tq_handleRead_pending [OF q(1)] have "tq_pending q = tq_pending (tl_queue s) @ []" by simp
  from tl_on_ok [of fs s "tq_handleRead (pg_timer pg) True", OF base q this] ChTimer show ?thesis by (auto simp: tl_read_def)
next
  case ChWakeup
  with base show ?thesis by (simp add: tl_read_def el_handleRead_def tl_base_def tl_same_def)
next
  case (ChUser n)
  with tl_user_ok [OF base pg, of n] show ?thesis by (auto simp: tl_read_def)
qed

lemma tl_fn_ok:
  assumes base: "tl_base (f # fs) s" and pg: "program_ok pg" and calling: "el_callingPendingFunctors s"
  shows "\<exists>s'. tl_fn pg f s = Inr s' \<and> tl_base fs s' \<and> tl_same s s' \<and> (awake s \<longrightarrow> awake s')"
proof (cases f)
  case (FnTimer g)
  with base have q: "tq_quiet (tl_queue s)" "tq_pending (tl_queue s) = g # timer_fns (fs @ el_pendingFunctors s)"
    "ep_inv (el_poller s)" by (simp_all add: tl_base_def)
  from tq_pending_ok [OF q(1)] q(2) obtain q' where
    "tq_run_functor g ((tl_queue s)\<lparr>tq_pending := timer_fns (fs @ el_pendingFunctors s)\<rparr>) = Inr q'" "tq_quiet q'"
    "tq_pending q' = timer_fns (fs @ el_pendingFunctors s)" by (auto simp: tq_step_def)
  with FnTimer q(2,3) show ?thesis by (simp add: tl_fn_def tl_base_def tl_same_def awake_def)
next
  case (FnUser n)
  with base have base': "tl_base fs s" by (simp add: tl_base_def)
  from tl_user_ok [OF base' pg, of n] FnUser calling show ?thesis by (auto simp: tl_fn_def)
qed

section \<open>The loop\<close>

lemma call_read_ok:
  assumes "tl_base fs s" and "program_ok pg"
  shows "\<exists>s'. call_if b (\<lambda>f. tl_read pg f t) cb s = Inr s' \<and> tl_base fs s' \<and> tl_same s s'"
  using tl_read_ok [OF assms] assms(1) by (simp add: call_if_def split: option.split)

lemma flag_ok:
  assumes "tl_base fs u" and "ep_heap (el_poller u) p \<noteq> None"
  shows "tl_base fs (el_put p (\<lambda>c. c\<lparr>ch_eventHandling := b\<rparr>) u)" "tl_same u (el_put p (\<lambda>c. c\<lparr>ch_eventHandling := b\<rparr>) u)"
  using assms ep_inv_flag [of "el_poller u" p] kept_grows [OF kept_flag [of "el_poller u" p]]
  by (auto simp: el_put_def el_get_def tl_base_def tl_same_def)

lemma handle_one_ok:
  assumes base: "tl_base fs s" and pg: "program_ok pg" and p: "ep_heap (el_poller s) p \<noteq> None"
  shows "\<exists>s'. handleEvent (el_get p) (el_put p) no_callback (tl_read pg) t s = Inr s' \<and> tl_base fs s' \<and> tl_same s s'"
proof -
  let ?on = "el_put p (\<lambda>c. c\<lparr>ch_eventHandling := True\<rparr>) s"
  note on = flag_ok [OF base p, of True]
  let ?b = "ch_revents (el_get p ?on) AND (POLLIN OR POLLPRI OR POLLRDHUP) \<noteq> 0" and ?cb = "ch_readCallback (el_get p ?on)"
  obtain u where u: "call_if ?b (\<lambda>f. tl_read pg f t) ?cb ?on = Inr u" "tl_base fs u" "tl_same ?on u"
    using call_read_ok [OF on(1) pg, of ?b t ?cb] by blast
  have nc: "call_if b no_callback cb v = Inr v" for b cb and v :: "'a timed_loop"
    by (simp add: call_if_def no_callback_def split: option.splits)
  have same: "tl_same s u" by (rule tl_same_trans [OF on(2) u(3)])
  then have "ep_heap (el_poller u) p \<noteq> None" using p by (simp add: tl_same_def poller_grows_def)
  note off = flag_ok [OF u(2) this, of False]
  have "handleEvent (el_get p) (el_put p) no_callback (tl_read pg) t s = Inr (el_put p (\<lambda>c. c\<lparr>ch_eventHandling := False\<rparr>) u)"
    using u(1) by (simp add: handleEvent_def nc Let_def)
  with off tl_same_trans [OF same off(2)] show ?thesis by blast
qed

text \<open>
  The state between the steps: both channels of the loop are registered for reading with their callbacks, the active channels
  are alive, and from the swap of the functors to the next poll, if functors are pending, the eventfd is readable or a
  thread is about to write to it.
\<close>

fun to_call :: "loop_phase \<Rightarrow> loop_fun list" where
  "to_call (Running fs) = fs"
| "to_call _ = []"

fun phase_ok :: "loop_phase \<Rightarrow> nat \<Rightarrow> 'cb timed_loop \<Rightarrow> bool" where
  "phase_ok Polling k s \<longleftrightarrow> \<not> el_callingPendingFunctors s \<and> (awake s \<or> 0 < k)"
| "phase_ok (Handling ps) k s \<longleftrightarrow> \<not> el_callingPendingFunctors s \<and> (\<forall>p \<in> set ps. ep_heap (el_poller s) p \<noteq> None)"
| "phase_ok (Running fs) k s \<longleftrightarrow> el_callingPendingFunctors s \<and> (awake s \<or> 0 < k)"

definition tl_inv :: "nat \<Rightarrow> int \<Rightarrow> nat \<Rightarrow> int \<Rightarrow> 'cb tl_state \<Rightarrow> bool" where
  "tl_inv pt timerfd pw evtfd hs \<longleftrightarrow> (case hs of (h, k, s) \<Rightarrow>
    tl_base (to_call h) s \<and> phase_ok h k s \<and>
    watching pt timerfd ChTimer (el_poller s) \<and> watching pw evtfd ChWakeup (el_poller s))"

lemma tl_inv_same:
  assumes "tl_inv pt tfd pw efd (h, k, s)" and "tl_same s s'" and "tl_base (to_call h') s'" and "phase_ok h' k' s'"
  shows "tl_inv pt tfd pw efd (h', k', s')"
  using assms by (simp add: tl_inv_def tl_same_def poller_grows_def)

fun tl_enabled :: "'cb tl_state \<Rightarrow> 'cb tl_ev \<Rightarrow> bool" where
  "tl_enabled (h, k, s) (TlPoll r t) \<longleftrightarrow> h = Polling \<and> (case r of WaitErr \<Rightarrow> True | WaitOk evs \<Rightarrow> epoll_reports (el_poller s) evs)"
| "tl_enabled (h, k, s) TlNext \<longleftrightarrow> h \<noteq> Polling"
| "tl_enabled (h, k, s) (TlCall tid c) \<longleftrightarrow> \<not> isInLoopThread tid s \<and> loop_call_ok tid s c"
| "tl_enabled (h, k, s) TlWake \<longleftrightarrow> 0 < k"

lemma tl_poll_ok:
  assumes inv: "tl_inv pt tfd pw efd (Polling, k, s)"
    and r: "case r of WaitErr \<Rightarrow> True | WaitOk evs \<Rightarrow> epoll_reports (el_poller s) evs"
  shows "\<exists>ps s'. tl_poll r t s = Inr (Handling ps, s') \<and> tl_inv pt tfd pw efd (Handling ps, k, s')"
proof -
  from inv have ep: "ep_inv (el_poller s)" and base: "tl_base [] s" by (simp_all add: tl_inv_def tl_base_def)
  have "\<exists>active w. ep_poll r [] (el_poller s) = Inr (active, w) \<and> ep_inv w \<and> poller_kept (el_poller s) w \<and>
      (\<forall>p \<in> set active. ep_heap w p \<noteq> None)"
  proof (cases r)
    case WaitErr
    with ep show ?thesis by (simp add: ep_poll_def)
  next
    case (WaitOk evs)
    with ep_poll_ok [OF ep, of evs "[]"] r obtain w where
      w: "ep_poll r [] (el_poller s) = Inr (map snd evs, w)" "ep_inv w" "ep_heap w = with_revents evs (ep_heap (el_poller s))"
        "ep_channels w = ep_channels (el_poller s)" by auto
    note kept = kept_revents [OF w(3,4)]
    have "ep_heap w (snd ev) \<noteq> None" if "ev \<in> set evs" for ev
      using kept_alive [OF kept] ep_inv_interest [OF ep] r WaitOk that by (fastforce simp: epoll_reports_def)
    with w kept show ?thesis by auto
  qed
  then obtain active w where w: "ep_poll r [] (el_poller s) = Inr (active, w)" "ep_inv w" "poller_kept (el_poller s) w"
    "\<forall>p \<in> set active. ep_heap w p \<noteq> None" by blast
  let ?s = "s\<lparr>el_poller := w, el_activeChannels := active, el_pollReturnTime := t\<rparr>"
  have "tl_same s ?s" using kept_grows [OF w(3)] by (simp add: tl_same_def)
  moreover have "tl_base [] ?s" using base w(2) by (simp add: tl_base_def)
  moreover have "phase_ok (Handling active) k ?s" using inv w(4) by (simp add: tl_inv_def)
  ultimately have "tl_inv pt tfd pw efd (Handling active, k, ?s)" using tl_inv_same [OF inv, of ?s "Handling active" k] by simp
  with w(1) show ?thesis by (simp add: tl_poll_def)
qed

lemma tl_next_ok:
  assumes inv: "tl_inv pt tfd pw efd (h, k, s)" and pg: "program_ok pg"
  shows "\<exists>h' s'. tl_next pg h s = Inr (h', s') \<and> tl_inv pt tfd pw efd (h', k, s')"
proof -
  from inv have base: "tl_base (to_call h) s" and ph: "phase_ok h k s" by (simp_all add: tl_inv_def)
  consider "h = Polling" | p ps where "h = Handling (p # ps)" | "h = Handling []" | f fs where "h = Running (f # fs)" | "h = Running []"
    by (metis loop_phase.exhaust list.exhaust)
  then show ?thesis
  proof cases
    case 1
    with inv show ?thesis by simp
  next
    case (2 p ps)
    with ph obtain c where c: "ep_heap (el_poller s) p = Some c" by auto
    from handle_one_ok [of "[]" s pg p "el_pollReturnTime s"] base pg 2 c obtain u where
      u: "handleEvent (el_get p) (el_put p) no_callback (tl_read pg) (el_pollReturnTime s) s = Inr u" "tl_base [] u" "tl_same s u" by auto
    then have "phase_ok (Handling ps) k u" using ph 2 by (auto simp: tl_same_def poller_grows_def)
    with tl_inv_same [OF inv u(3), of "Handling ps"] u(1,2) c 2 show ?thesis by (simp add: ep_chan_def)
  next
    case 3
    with inv show ?thesis by (simp add: tl_inv_def tl_base_def awake_def)
  next
    case (4 f fs)
    with tl_fn_ok [of f fs s pg] base pg ph obtain u where
      u: "tl_fn pg f s = Inr u" "tl_base fs u" "tl_same s u" "awake s \<longrightarrow> awake u" by auto
    then have "phase_ok (Running fs) k u" using ph 4 by (auto simp: tl_same_def)
    with tl_inv_same [OF inv u(3), of "Running fs"] u(1,2) 4 show ?thesis by simp
  next
    case 5
    with inv show ?thesis by (simp add: tl_inv_def tl_base_def awake_def)
  qed
qed

lemma phase_posted: "phase_ok h k s \<Longrightarrow> tl_same s s' \<Longrightarrow> phase_ok h (Suc k) s'"
  by (cases h) (auto simp: tl_same_def poller_grows_def)

lemma phase_woken: "phase_ok h k s \<Longrightarrow> phase_ok h (k - 1) (el_wakeup s)"
  by (cases h) auto

lemma tl_step_safe:
  assumes pg: "program_ok pg" and inv: "tl_inv pt tfd pw efd hs" and en: "tl_enabled hs ev"
  shows "\<exists>hs'. tl_step pg hs ev = Inr hs' \<and> tl_inv pt tfd pw efd hs'"
proof -
  obtain h k s where hs: "hs = (h, k, s)" by (cases hs)
  from inv hs have base: "tl_base (to_call h) s" and ph: "phase_ok h k s" by (simp_all add: tl_inv_def)
  show ?thesis
  proof (cases ev)
    case (TlPoll r t)
    with tl_poll_ok [of pt tfd pw efd k s r t] inv en hs show ?thesis by auto
  next
    case TlNext
    with tl_next_ok [of pt tfd pw efd h k s pg] inv pg hs show ?thesis by auto
  next
    case (TlCall tid c)
    with en hs have "loop_call_ok tid s c" by simp
    from tl_post_ok [OF base this] obtain s' where s': "tl_post tid c s = Inr s'" "tl_base (to_call h) s'" "tl_same s s'" by blast
    from tl_inv_same [of pt tfd pw efd h k s s' h "Suc k", OF _ s'(3,2) phase_posted [OF ph s'(3)]] s'(1) TlCall hs inv show ?thesis by simp
  next
    case TlWake
    from tl_inv_same [of pt tfd pw efd h k s "el_wakeup s" h "k - 1"] phase_woken [OF ph] base TlWake hs inv show ?thesis by simp
  qed
qed

interpretation tls: safe_steps "tl_step pg" "\<lambda>hs. program_ok pg \<and> tl_inv pt tfd pw efd hs" tl_enabled for pg pt tfd pw efd
  by unfold_locales (use tl_step_safe in blast)

section \<open>Construction\<close>

lemma new_timed_loop_ok:
  assumes "ep_inv w" and "ep_heap w pt = None" "ep_heap w pw = None" "pt \<noteq> pw"
    and "ep_channels w tfd = None" "ep_channels w efd = None" "tfd \<noteq> efd" and "0 \<le> tfd" "0 \<le> efd" and "\<And>n. tp_near (clock n)"
  shows "\<exists>s. new_timed_loop tid False w tfd pt efd pw clock = Inr s \<and> tl_inv pt tfd pw efd (Polling, 0, s) \<and> el_threadId s = tid"
proof -
  from assms(8) obtain q :: "'a timer_queue" where q: "new_TimerQueue tfd clock = Inr q" "tq_pending q = []"
    by (auto simp: new_TimerQueue_def createTimerfd_def)
  have quiet: "tq_quiet q" by (rule new_TimerQueue_quiet [OF q(1) assms(10)])
  from register_ok [OF assms(1,2,5), of ChTimer] obtain w1 c1 where
    w1: "timer_channel pt tfd w = Inr w1" "ep_inv w1" "watching pt tfd ChTimer w1" "ep_channels w1 = (ep_channels w)(tfd \<mapsto> pt)"
      "ep_heap w1 = (ep_heap w)(pt \<mapsto> c1)" by (auto simp: timer_channel_def)
  with assms(3,4,6,7) have "ep_heap w1 pw = None" "ep_channels w1 efd = None" by auto
  from register_ok [OF w1(2) this, of ChWakeup] obtain w2 c2 where
    w2: "ep_set_events True ev_enableReading pw (ep_put pw (setReadCallback ChWakeup (new_Channel efd)) w1) = Inr w2" "ep_inv w2"
      "watching pw efd ChWakeup w2" "ep_channels w2 = (ep_channels w1)(efd \<mapsto> pw)" "ep_heap w2 = (ep_heap w1)(pw \<mapsto> c2)" by blast
  have "watching pt tfd ChTimer w2" using w1(3) w2(4,5) assms(4,7) by (auto simp: watching_def)
  with q w1(1) w2 quiet assms(9) show ?thesis
    by (auto simp: new_timed_loop_def new_EventLoop_def createEventfd_def tl_inv_def tl_base_def awake_def event_loop.defs timed_loop.defs)
qed

section \<open>Properties\<close>


text \<open>
  A program whose functors each queue one more. Another thread adds a timer and queues a functor; it writes to the eventfd
  for the first only when the loop has polled, for the second while the loop calls its functors.
\<close>

definition demo_program :: "nat program" where
  "demo_program = \<lparr>pg_timer = (\<lambda>cb w. []), pg_user = (\<lambda>n s. [LcQueue (Suc n)])\<rparr>"

definition demo_poller :: "loop_chan epoller" where
  "demo_poller = \<lparr>ep_heap = Map.empty, ep_channels = Map.empty, ep_interest = Map.empty, ep_events_size = 16, ep_refuses = (\<lambda>_ _. False)\<rparr>"

definition demo_run :: "nat tl_ev list" where
  "demo_run = [TlCall 2 (LcTimer (CallAdd 40 0 5000 0)), TlPoll (WaitOk []) 1000, TlWake, TlCall 2 (LcQueue 7), TlNext, TlNext, TlWake,
     TlNext, TlNext]"

lemma demo_program_ok: "program_ok demo_program"
  by (simp add: program_ok_def demo_program_def beh_ok_def loop_call_ok_def Let_def split: sum.split)

lemma demo_poller_facts: "ep_inv demo_poller" "ep_heap demo_poller p = None" "ep_channels demo_poller fd = None"
  by (simp_all add: demo_poller_def ep_inv_def)

lemma demo_steps:
  "\<exists>s s' :: nat timed_loop. new_timed_loop 1 False demo_poller 3 0 4 1 (\<lambda>n. 1000) = Inr s \<and>
    enabled_run (tl_step demo_program) tl_enabled (Polling, 0, s) demo_run \<and>
    run_steps (tl_step demo_program) (Polling, 0, s) demo_run = Inr (Polling, 0, s') \<and>
    tq_timers (tl_queue s') = [(5000, 40)] \<and> el_pendingFunctors s' = [FnUser 8]"
  by (simp add: new_timed_loop_def new_TimerQueue_def createTimerfd_def timer_channel_def demo_poller_def new_EventLoop_def createEventfd_def
    ep_set_events_def ep_updateChannel_def ep_update_def epoll_ctl_def ep_chan_def ep_put_def setReadCallback_def new_Channel_def
    ev_enableReading_def kReadEvent_def poll_flag_defs k_defs event_loop.defs timed_loop.defs demo_run_def demo_program_def
    tl_post_def tl_on_def tl_poll_def ep_poll_def tl_fn_def tl_call_def tl_wake_def isInLoopThread_def loop_call_ok_def epoll_reports_def
    el_wakeup_def el_push_def el_wake_if_def tq_run_defs)


end
