(* ===== verification/LoopThreads.thy ===== *)
theory LoopThreads
  imports EventLoop
begin

text \<open>
  \<^verbatim>\<open>Thread\<close>, \<^verbatim>\<open>EventLoopThread\<close> and \<^verbatim>\<open>EventLoopThreadPool\<close> (\<^verbatim>\<open>src/src/Thread.hpp\<close>, \<^verbatim>\<open>EventLoopThread.cpp\<close>,
  \<^verbatim>\<open>EventLoopThreadPool.cpp\<close>). Event loops are named by their addresses; the address of the loop a
  new thread creates on its stack is an argument of \<open>startLoop\<close>, which is sequential here: \<open>LoopStart\<close> has the two threads.
\<close>

section \<open>Model\<close>

text \<open>\<^verbatim>\<open>Thread\<close>: \<open>th_joinable\<close> is whether the \<^verbatim>\<open>std::thread\<close> is joinable.\<close>

record cpp_thread =
  th_started :: bool
  th_joinable :: bool

definition new_Thread :: cpp_thread where
  "new_Thread = \<lparr>th_started = False, th_joinable = False\<rparr>"

definition thread_start :: "cpp_thread \<Rightarrow> cpp_thread res" where
  "thread_start t = guard (\<not> th_joinable t) (StdException ''std::terminate'') (Inr \<lparr>th_started = True, th_joinable = True\<rparr>)"

definition thread_join :: "cpp_thread \<Rightarrow> cpp_thread res" where
  "thread_join t = guard (th_joinable t) (StdException ''std::system_error'') (Inr (t\<lparr>th_joinable := False\<rparr>))"

record loop_thread =
  lt_loop :: "nat option"
  lt_exiting :: bool
  lt_thread :: cpp_thread

definition new_EventLoopThread :: loop_thread where
  "new_EventLoopThread = \<lparr>lt_loop = None, lt_exiting = False, lt_thread = new_Thread\<rparr>"

text \<open>\<^verbatim>\<open>threadFunc\<close> publishes the address of its local loop, which \<^verbatim>\<open>startLoop\<close> waits for and returns.\<close>

definition threadFunc :: "nat \<Rightarrow> loop_thread \<Rightarrow> loop_thread" where
  "threadFunc addr t = t\<lparr>lt_loop := Some addr\<rparr>"

definition startLoop :: "nat \<Rightarrow> loop_thread \<Rightarrow> (nat \<times> loop_thread) res" where
  "startLoop addr t =
    guard (\<not> th_started (lt_thread t)) (AssertFail ''!thread_.started()'')
   (rbind (thread_start (lt_thread t)) (\<lambda>th.
    let t = threadFunc addr (t\<lparr>lt_thread := th\<rparr>) in
    case lt_loop t of None \<Rightarrow> Inl (UndefinedBehaviour ''waits for ever'') | Some l \<Rightarrow> Inr (l, t)))"

text \<open>\<^verbatim>\<open>~EventLoopThread\<close> dereferences \<^verbatim>\<open>loop_\<close> (the result says on which loop \<^verbatim>\<open>quit\<close> is called) and joins.\<close>

definition destroy_EventLoopThread :: "loop_thread \<Rightarrow> (nat \<times> loop_thread) res" where
  "destroy_EventLoopThread t =
    (case lt_loop t of
       None \<Rightarrow> Inl (UndefinedBehaviour ''null loop_'')
     | Some l \<Rightarrow> rbind (thread_join (lt_thread t)) (\<lambda>th. Inr (l, t\<lparr>lt_exiting := True, lt_thread := th\<rparr>)))"

record thread_pool =
  tp_baseLoop :: nat
  tp_started :: bool
  tp_numThreads :: int
  tp_next :: int
  tp_threads :: "loop_thread list"
  tp_loops :: "nat list"

definition new_EventLoopThreadPool :: "nat \<Rightarrow> thread_pool" where
  "new_EventLoopThreadPool baseLoop = \<lparr>tp_baseLoop = baseLoop, tp_started = False, tp_numThreads = 0, tp_next = 0,
     tp_threads = [], tp_loops = []\<rparr>"

definition setThreadNum :: "int \<Rightarrow> thread_pool \<Rightarrow> thread_pool" where
  "setThreadNum n p = p\<lparr>tp_numThreads := n\<rparr>"

fun start_threads :: "nat list \<Rightarrow> thread_pool \<Rightarrow> thread_pool res" where
  "start_threads [] p = Inr p"
| "start_threads (a # as) p =
    rbind (startLoop a new_EventLoopThread) (\<lambda>(l, t).
    start_threads as (p\<lparr>tp_threads := tp_threads p @ [t], tp_loops := tp_loops p @ [l]\<rparr>))"

text \<open>\<open>addr i\<close> is the address of the loop of the \<open>i\<close>-th thread.\<close>

definition pool_start :: "bool \<Rightarrow> (nat \<Rightarrow> nat) \<Rightarrow> thread_pool \<Rightarrow> thread_pool res" where
  "pool_start in_loop addr p =
    guard (\<not> tp_started p) (AssertFail ''!started_'')
   (assertInLoopThread in_loop
   (start_threads (map addr [0..<nat (tp_numThreads p)]) (p\<lparr>tp_started := True\<rparr>)))"

definition getNextLoop :: "bool \<Rightarrow> thread_pool \<Rightarrow> (nat \<times> thread_pool) res" where
  "getNextLoop in_loop p =
    assertInLoopThread in_loop
   (if tp_loops p \<noteq> [] then
      guard (0 \<le> tp_next p \<and> nat (tp_next p) < length (tp_loops p)) (UndefinedBehaviour ''loops_[next_]'')
       (let loop = tp_loops p ! nat (tp_next p); nxt = tp_next p + 1
        in Inr (loop, p\<lparr>tp_next := if nxt \<ge> int (length (tp_loops p)) then 0 else nxt\<rparr>))
    else Inr (tp_baseLoop p, p))"

fun getNextLoops :: "nat \<Rightarrow> thread_pool \<Rightarrow> nat list res" where
  "getNextLoops 0 p = Inr []"
| "getNextLoops (Suc k) p =
    rbind (getNextLoop True p) (\<lambda>(l, p). rbind (getNextLoops k p) (\<lambda>ls. Inr (l # ls)))"

section \<open>Round robin\<close>

definition pool_inv :: "thread_pool \<Rightarrow> bool" where
  "pool_inv p \<longleftrightarrow> 0 \<le> tp_next p \<and> (if tp_loops p = [] then tp_next p = 0 else nat (tp_next p) < length (tp_loops p))"

lemma start_threads_ok:
  "\<exists>ts. start_threads as p = Inr (p\<lparr>tp_threads := tp_threads p @ ts, tp_loops := tp_loops p @ as\<rparr>) \<and>
    length ts = length as \<and> (\<forall>i < length as. lt_loop (ts ! i) = Some (as ! i))"
proof (induction as arbitrary: p)
  case (Cons a as)
  let ?t = "\<lparr>lt_loop = Some a, lt_exiting = False, lt_thread = \<lparr>th_started = True, th_joinable = True\<rparr>\<rparr>"
  have "startLoop a new_EventLoopThread = Inr (a, ?t)"
    by (simp add: startLoop_def new_EventLoopThread_def new_Thread_def thread_start_def threadFunc_def)
  moreover from Cons.IH [of "p\<lparr>tp_threads := tp_threads p @ [?t], tp_loops := tp_loops p @ [a]\<rparr>"] obtain ts where
    ts: "start_threads as (p\<lparr>tp_threads := tp_threads p @ [?t], tp_loops := tp_loops p @ [a]\<rparr>) =
      Inr (p\<lparr>tp_threads := tp_threads p @ ?t # ts, tp_loops := tp_loops p @ a # as\<rparr>)"
    "length ts = length as" "\<forall>i < length as. lt_loop (ts ! i) = Some (as ! i)" by auto
  ultimately show ?case by (intro exI [of _ "?t # ts"]) (auto simp: All_less_Suc2)
qed simp

lemma getNextLoop_ok:
  assumes "pool_inv p" and "tp_loops p \<noteq> []"
  shows "getNextLoop True p = Inr (tp_loops p ! nat (tp_next p),
    p\<lparr>tp_next := int (Suc (nat (tp_next p)) mod length (tp_loops p))\<rparr>)"
proof -
  let ?n = "length (tp_loops p)" and ?i = "nat (tp_next p)"
  from assms have i: "0 \<le> tp_next p" "?i < ?n" by (simp_all add: pool_inv_def)
  have "(if tp_next p + 1 \<ge> int ?n then 0 else tp_next p + 1) = int (Suc ?i mod ?n)"
  proof (cases "Suc ?i = ?n")
    case True
    then show ?thesis using i by auto
  next
    case False
    with i(2) have "Suc ?i < ?n" by simp
    with i(1) show ?thesis by auto
  qed
  with i assms(2) show ?thesis by (simp add: getNextLoop_def)
qed

lemma getNextLoops_ok:
  assumes "pool_inv p" and "tp_loops p \<noteq> []"
  shows "getNextLoops k p = Inr (map (\<lambda>i. tp_loops p ! ((nat (tp_next p) + i) mod length (tp_loops p))) [0..<k])"
  using assms
proof (induction k arbitrary: p)
  case (Suc k)
  let ?n = "length (tp_loops p)" and ?i = "nat (tp_next p)"
  let ?p = "p\<lparr>tp_next := int (Suc ?i mod ?n)\<rparr>"
  have "?n > 0" using Suc.prems(2) by simp
  then have "Suc ?i mod ?n < ?n" by (rule mod_less_divisor)
  then have inv: "pool_inv ?p" using Suc.prems(2) by (simp add: pool_inv_def)
  have "nat (tp_next ?p) = Suc ?i mod ?n" by simp
  moreover have "?i mod ?n = ?i" using Suc.prems by (simp add: pool_inv_def)
  moreover have "(Suc ?i mod ?n + j) mod ?n = (?i + Suc j) mod ?n" for j by (simp add: mod_simps)
  ultimately show ?case
    using Suc.IH [OF inv] Suc.prems(2) getNextLoop_ok [OF Suc.prems]
    by (simp add: upt_conv_Cons map_Suc_upt [symmetric] del: upt_Suc)
qed simp

text \<open>
  C22: A started pool hands out its loops in turn: after \<^verbatim>\<open>setThreadNum(n)\<close> and \<^verbatim>\<open>start()\<close> with \<open>n\<close> positive, the \<open>k\<close>-th call of
  \<^verbatim>\<open>getNextLoop\<close> returns the loop of thread \<open>k mod n\<close>, and \<^verbatim>\<open>next_\<close> never leaves the vector; with no threads
  every call returns the base loop.
\<close>

theorem pool_round_robin:
  assumes "pool_start True addr (setThreadNum n (new_EventLoopThreadPool base)) = Inr p"
  shows "getNextLoops k p = Inr (map (\<lambda>i. if 0 < n then addr (i mod nat n) else base) [0..<k])"
proof -
  obtain ts where "p = (setThreadNum n (new_EventLoopThreadPool base))\<lparr>tp_started := True, tp_threads := ts, tp_loops := map addr [0..<nat n]\<rparr>"
    using assms start_threads_ok [of "map addr [0..<nat n]" "(setThreadNum n (new_EventLoopThreadPool base))\<lparr>tp_started := True\<rparr>"]
    by (auto simp: pool_start_def res_Inr_iffs setThreadNum_def new_EventLoopThreadPool_def)
  then have p: "tp_loops p = map addr [0..<nat n]" "tp_next p = 0" "tp_baseLoop p = base"
    by (simp_all add: setThreadNum_def new_EventLoopThreadPool_def)
  show ?thesis
  proof (cases "0 < n")
    case True
    then have "pool_inv p" "tp_loops p \<noteq> []" using p by (simp_all add: pool_inv_def)
    from getNextLoops_ok [OF this] p True show ?thesis by simp
  next
    case False
    then have "getNextLoops k p = Inr (map (\<lambda>i. base) [0..<k])"
      using p(1,3) by (induction k) (simp_all add: getNextLoop_def map_replicate_const replicate_append_same [symmetric])
    with False show ?thesis by simp
  qed
qed

theorem pool_round_robin_witness:
  "\<exists>p. pool_start True (\<lambda>i. 100 + i) (setThreadNum 2 (new_EventLoopThreadPool 5)) = Inr p \<and>
    getNextLoops 5 p = Inr [100, 101, 100, 101, 100]"
proof -
  obtain p where p: "pool_start True (\<lambda>i. 100 + i) (setThreadNum 2 (new_EventLoopThreadPool 5)) = Inr p"
    using start_threads_ok [of "map (\<lambda>i. 100 + i) [0..<2]" "(setThreadNum 2 (new_EventLoopThreadPool 5))\<lparr>tp_started := True\<rparr>"]
    by (auto simp: pool_start_def setThreadNum_def new_EventLoopThreadPool_def)
  from pool_round_robin [OF p, of 5] p show ?thesis by (auto simp: upt_conv_Cons)
qed

end
