(* ===== verification/LoopStart.thy ===== *)
theory LoopStart
  imports LoopThreads
begin

text \<open>
  The life of an \<^verbatim>\<open>EventLoopThread\<close> (\<^verbatim>\<open>src/src/EventLoopThread.cpp\<close>), statement by statement: the thread that owns it
  runs \<^verbatim>\<open>startLoop\<close> and later the destructor, the new thread runs \<^verbatim>\<open>threadFunc\<close> with the loop on its stack, and
  their statements interleave. The mutex, the condition variable with its spurious wakeups, the flag and the eventfd
  of the loop are shared. \<open>hstep\<close> are the steps of the handshake, \<open>estep\<close> all the steps.
\<close>

section \<open>Model\<close>

text \<open>
  The owner: before \<^verbatim>\<open>startLoop\<close>; acquiring the mutex; holding it and testing the predicate; blocked in \<^verbatim>\<open>wait\<close>; with the
  mutex released; with the result; in the destructor before \<^verbatim>\<open>quit_ = true\<close>, before \<^verbatim>\<open>wakeup\<close> and before \<^verbatim>\<open>join\<close>; done;
  having used a loop that is gone.
\<close>

datatype owner_pc = OStart | OLock | OTest | OWait | OReturn | OHave | OQuit | OWake | OJoin | ODone | OFault

text \<open>
  The new thread: not there; constructing the loop; acquiring the mutex; holding it before and after the assignment;
  before \<^verbatim>\<open>notify_one\<close>; before \<^verbatim>\<open>loop\<close>; at the test of its \<^verbatim>\<open>while\<close>; in its body; before the destructor of the loop; ended.
\<close>

datatype child_pc = CNone | CConstruct | CLock | CPublish | CUnlock | CNotify | CEnter | CWhile | CBody | CExit | CDone

datatype holder = Owner | Child

record ('cb, 'fn) start_sys =
  ss_thread :: loop_thread
  ss_mutex :: "holder option"
  ss_owner :: owner_pc
  ss_child :: child_pc
  ss_loop :: "('cb, 'fn) event_loop option"
  ss_result :: "nat option"

definition start_init :: "('cb, 'fn) start_sys" where
  "start_init = \<lparr>ss_thread = new_EventLoopThread, ss_mutex = None, ss_owner = OStart, ss_child = CNone, ss_loop = None,
     ss_result = None\<rparr>"

text \<open>\<open>addr\<close> is the address of the loop on the stack of the thread and \<open>l0\<close> the loop its constructor makes.\<close>

inductive hstep :: "nat \<Rightarrow> ('cb, 'fn) event_loop \<Rightarrow> ('cb, 'fn) start_sys \<Rightarrow> ('cb, 'fn) start_sys \<Rightarrow> bool" for addr l0 where
  start: "ss_owner S = OStart \<Longrightarrow> \<not> th_started (lt_thread (ss_thread S)) \<Longrightarrow> thread_start (lt_thread (ss_thread S)) = Inr th \<Longrightarrow>
    hstep addr l0 S (S\<lparr>ss_thread := (ss_thread S)\<lparr>lt_thread := th\<rparr>, ss_owner := OLock, ss_child := CConstruct\<rparr>)"
| owner_lock: "ss_owner S = OLock \<Longrightarrow> ss_mutex S = None \<Longrightarrow> hstep addr l0 S (S\<lparr>ss_mutex := Some Owner, ss_owner := OTest\<rparr>)"
| owner_sees: "ss_owner S = OTest \<Longrightarrow> lt_loop (ss_thread S) \<noteq> None \<Longrightarrow>
    hstep addr l0 S (S\<lparr>ss_mutex := None, ss_owner := OReturn\<rparr>)"
| owner_waits: "ss_owner S = OTest \<Longrightarrow> lt_loop (ss_thread S) = None \<Longrightarrow>
    hstep addr l0 S (S\<lparr>ss_mutex := None, ss_owner := OWait\<rparr>)"
| owner_returns: "ss_owner S = OReturn \<Longrightarrow> hstep addr l0 S (S\<lparr>ss_owner := OHave, ss_result := lt_loop (ss_thread S)\<rparr>)"
| construct: "ss_child S = CConstruct \<Longrightarrow> hstep addr l0 S (S\<lparr>ss_child := CLock, ss_loop := Some l0\<rparr>)"
| child_lock: "ss_child S = CLock \<Longrightarrow> ss_mutex S = None \<Longrightarrow> hstep addr l0 S (S\<lparr>ss_mutex := Some Child, ss_child := CPublish\<rparr>)"
| publish: "ss_child S = CPublish \<Longrightarrow> hstep addr l0 S (S\<lparr>ss_thread := threadFunc addr (ss_thread S), ss_child := CUnlock\<rparr>)"
| child_unlock: "ss_child S = CUnlock \<Longrightarrow> hstep addr l0 S (S\<lparr>ss_mutex := None, ss_child := CNotify\<rparr>)"
| notify: "ss_child S = CNotify \<Longrightarrow>
    hstep addr l0 S (S\<lparr>ss_child := CEnter, ss_owner := (if ss_owner S = OWait then OLock else ss_owner S)\<rparr>)"

text \<open>
  \<^verbatim>\<open>EventLoop::quit\<close> in two parts, between which the loop can run; it is called by the owner, whose thread is \<open>tid\<close>.
\<close>

definition quit_store :: "('cb, 'fn, 'z) eloop \<Rightarrow> ('cb, 'fn, 'z) eloop" where
  "quit_store l = l\<lparr>el_quit := True\<rparr>"

definition quit_wake :: "nat \<Rightarrow> ('cb, 'fn, 'z) eloop \<Rightarrow> ('cb, 'fn, 'z) eloop" where
  "quit_wake tid l = (if isInLoopThread tid l then l else el_wakeup l)"

lemma el_quit_call_parts: "el_quit_call tid l = quit_wake tid (quit_store l)"
  by (simp add: el_quit_call_def quit_wake_def quit_store_def)

text \<open>What the client's callbacks and functors do are arguments, as for \<^const>\<open>loop\<close>.\<close>

inductive estep ::
  "('cb \<Rightarrow> ('cb, 'fn) event_loop \<Rightarrow> ('cb, 'fn) event_loop res) \<Rightarrow>
   ('cb \<Rightarrow> time_point \<Rightarrow> ('cb, 'fn) event_loop \<Rightarrow> ('cb, 'fn) event_loop res) \<Rightarrow>
   ('fn \<Rightarrow> ('cb, 'fn) event_loop \<Rightarrow> ('cb, 'fn) event_loop res) \<Rightarrow>
   nat \<Rightarrow> nat \<Rightarrow> nat \<Rightarrow> ('cb, 'fn) event_loop \<Rightarrow> ('cb, 'fn) start_sys \<Rightarrow> ('cb, 'fn) start_sys \<Rightarrow> bool"
  for run run_read run_fn otid ctid addr l0 where
  handshake: "hstep addr l0 S T \<Longrightarrow> estep run run_read run_fn otid ctid addr l0 S T"
| spurious: "ss_owner S = OWait \<Longrightarrow> estep run run_read run_fn otid ctid addr l0 S (S\<lparr>ss_owner := OLock\<rparr>)"
| enter: "ss_child S = CEnter \<Longrightarrow> ss_loop S = Some l \<Longrightarrow> \<not> el_looping l \<Longrightarrow> isInLoopThread ctid l \<Longrightarrow>
    estep run run_read run_fn otid ctid addr l0 S (S\<lparr>ss_child := CWhile, ss_loop := Some (l\<lparr>el_looping := True, el_quit := False\<rparr>)\<rparr>)"
| go_on: "ss_child S = CWhile \<Longrightarrow> ss_loop S = Some l \<Longrightarrow> \<not> el_quit l \<Longrightarrow>
    estep run run_read run_fn otid ctid addr l0 S (S\<lparr>ss_child := CBody\<rparr>)"
| body: "ss_child S = CBody \<Longrightarrow> ss_loop S = Some l \<Longrightarrow> loop_body run run_read run_fn r l = Inr l' \<Longrightarrow>
    estep run run_read run_fn otid ctid addr l0 S (S\<lparr>ss_child := CWhile, ss_loop := Some l'\<rparr>)"
| stop: "ss_child S = CWhile \<Longrightarrow> ss_loop S = Some l \<Longrightarrow> el_quit l \<Longrightarrow>
    estep run run_read run_fn otid ctid addr l0 S (S\<lparr>ss_child := CExit, ss_loop := Some (l\<lparr>el_looping := False\<rparr>)\<rparr>)"
| destruct: "ss_child S = CExit \<Longrightarrow> ss_loop S = Some l \<Longrightarrow> destroy_EventLoop l = Inr () \<Longrightarrow>
    estep run run_read run_fn otid ctid addr l0 S (S\<lparr>ss_child := CDone, ss_loop := None\<rparr>)"
| exiting: "ss_owner S = OHave \<Longrightarrow>
    estep run run_read run_fn otid ctid addr l0 S (S\<lparr>ss_thread := (ss_thread S)\<lparr>lt_exiting := True\<rparr>, ss_owner := OQuit\<rparr>)"
| quit_store: "ss_owner S = OQuit \<Longrightarrow> ss_loop S = Some l \<Longrightarrow>
    estep run run_read run_fn otid ctid addr l0 S (S\<lparr>ss_owner := OWake, ss_loop := Some (quit_store l)\<rparr>)"
| quit_wake: "ss_owner S = OWake \<Longrightarrow> ss_loop S = Some l \<Longrightarrow>
    estep run run_read run_fn otid ctid addr l0 S (S\<lparr>ss_owner := OJoin, ss_loop := Some (quit_wake otid l)\<rparr>)"
| dangling: "ss_owner S = OQuit \<or> ss_owner S = OWake \<Longrightarrow> ss_loop S = None \<Longrightarrow>
    estep run run_read run_fn otid ctid addr l0 S (S\<lparr>ss_owner := OFault\<rparr>)"
| join: "ss_owner S = OJoin \<Longrightarrow> ss_child S = CDone \<Longrightarrow> thread_join (lt_thread (ss_thread S)) = Inr th \<Longrightarrow>
    estep run run_read run_fn otid ctid addr l0 S (S\<lparr>ss_thread := (ss_thread S)\<lparr>lt_thread := th\<rparr>, ss_owner := ODone\<rparr>)"

section \<open>The handshake\<close>

fun owner_rank :: "owner_pc \<Rightarrow> nat" where
  "owner_rank OStart = 4"
| "owner_rank OLock = 3"
| "owner_rank OTest = 2"
| "owner_rank OWait = 1"
| "owner_rank OReturn = 1"
| "owner_rank _ = 0"

fun child_rank :: "child_pc \<Rightarrow> nat" where
  "child_rank CNone = 6"
| "child_rank CConstruct = 5"
| "child_rank CLock = 4"
| "child_rank CPublish = 3"
| "child_rank CUnlock = 2"
| "child_rank CNotify = 1"
| "child_rank _ = 0"

definition start_rank :: "('cb, 'fn) start_sys \<Rightarrow> nat" where
  "start_rank S = 3 * child_rank (ss_child S) + owner_rank (ss_owner S)"

text \<open>The owner is still in \<^verbatim>\<open>startLoop\<close>, or before it; the thread has not yet published its loop; it has its loop and has not entered it.\<close>

definition starting :: "owner_pc \<Rightarrow> bool" where
  "starting pc \<longleftrightarrow> pc \<in> {OStart, OLock, OTest, OWait, OReturn}"

definition unpublished :: "child_pc \<Rightarrow> bool" where
  "unpublished pc \<longleftrightarrow> pc \<in> {CNone, CConstruct, CLock, CPublish}"

definition before_loop :: "child_pc \<Rightarrow> bool" where
  "before_loop pc \<longleftrightarrow> pc \<in> {CLock, CPublish, CUnlock, CNotify, CEnter}"

text \<open>
  The invariant: the mutex is held by who is in its critical section; \<^verbatim>\<open>loop_\<close> is set when the thread has published it;
  an owner blocked in \<^verbatim>\<open>wait\<close> still has its notification to come; what \<^verbatim>\<open>startLoop\<close> returned is the address of the loop.
\<close>

definition mutex_inv :: "('cb, 'fn) start_sys \<Rightarrow> bool" where
  "mutex_inv S \<longleftrightarrow> (ss_mutex S = Some Owner \<longleftrightarrow> ss_owner S = OTest) \<and> (ss_mutex S = Some Child \<longleftrightarrow> ss_child S \<in> {CPublish, CUnlock})"

definition thread_inv :: "('cb, 'fn) start_sys \<Rightarrow> bool" where
  "thread_inv S \<longleftrightarrow> (ss_owner S = OStart \<longleftrightarrow> ss_child S = CNone) \<and>
    lt_thread (ss_thread S) = \<lparr>th_started = ss_owner S \<noteq> OStart, th_joinable = ss_owner S \<notin> {OStart, ODone}\<rparr> \<and>
    (starting (ss_owner S) \<or> ss_owner S = OHave \<longrightarrow> \<not> lt_exiting (ss_thread S))"

definition publish_inv :: "nat \<Rightarrow> ('cb, 'fn) start_sys \<Rightarrow> bool" where
  "publish_inv addr S \<longleftrightarrow> lt_loop (ss_thread S) = (if unpublished (ss_child S) then None else Some addr) \<and>
    (ss_owner S = OReturn \<longrightarrow> \<not> unpublished (ss_child S)) \<and>
    (\<not> starting (ss_owner S) \<longrightarrow> \<not> unpublished (ss_child S) \<and> ss_result S = Some addr)"

definition wait_inv :: "('cb, 'fn) start_sys \<Rightarrow> bool" where
  "wait_inv S \<longleftrightarrow> (ss_owner S = OWait \<longrightarrow> ss_child S \<in> {CConstruct, CLock, CPublish, CUnlock, CNotify})"

definition life_inv :: "nat \<Rightarrow> ('cb, 'fn) start_sys \<Rightarrow> bool" where
  "life_inv ctid S \<longleftrightarrow>
    (before_loop (ss_child S) \<longrightarrow> (\<exists>l. ss_loop S = Some l \<and> \<not> el_looping l \<and> el_threadId l = ctid)) \<and>
    (ss_child S \<in> {CWhile, CBody} \<longrightarrow> (\<exists>l. ss_loop S = Some l)) \<and>
    (ss_child S = CExit \<longrightarrow> (\<exists>l. ss_loop S = Some l \<and> \<not> el_looping l))"

definition start_inv :: "nat \<Rightarrow> nat \<Rightarrow> ('cb, 'fn) start_sys \<Rightarrow> bool" where
  "start_inv ctid addr S \<longleftrightarrow> mutex_inv S \<and> thread_inv S \<and> publish_inv addr S \<and> wait_inv S \<and> life_inv ctid S"

lemmas phase_defs = starting_def unpublished_def before_loop_def

lemma hstep_mutex: "hstep addr l0 S T \<Longrightarrow> mutex_inv S \<Longrightarrow> thread_inv S \<Longrightarrow> mutex_inv T"
  by (induction rule: hstep.induct) (auto simp: mutex_inv_def thread_inv_def)

lemma hstep_thread: "hstep addr l0 S T \<Longrightarrow> thread_inv S \<Longrightarrow> thread_inv T"
  by (induction rule: hstep.induct) (auto simp: thread_inv_def starting_def thread_start_def threadFunc_def)

lemma hstep_publish: "hstep addr l0 S T \<Longrightarrow> thread_inv S \<Longrightarrow> publish_inv addr S \<Longrightarrow> publish_inv addr T"
  by (induction rule: hstep.induct) (auto simp: publish_inv_def thread_inv_def phase_defs threadFunc_def)

lemma hstep_wait: "hstep addr l0 S T \<Longrightarrow> mutex_inv S \<Longrightarrow> thread_inv S \<Longrightarrow> publish_inv addr S \<Longrightarrow> wait_inv S \<Longrightarrow> wait_inv T"
proof (induction rule: hstep.induct)
  case (owner_waits S)
  then show ?case
    by (cases "ss_child S") (simp_all add: publish_inv_def wait_inv_def thread_inv_def mutex_inv_def phase_defs)
qed (auto simp: wait_inv_def thread_inv_def)

lemma hstep_life:
  "hstep addr l0 S T \<Longrightarrow> \<not> el_looping l0 \<Longrightarrow> el_threadId l0 = ctid \<Longrightarrow> life_inv ctid S \<Longrightarrow> life_inv ctid T"
  by (induction rule: hstep.induct) (auto simp: life_inv_def phase_defs)

lemma hstep_inv:
  assumes "hstep addr l0 S T" and "\<not> el_looping l0" and "el_threadId l0 = ctid" and "start_inv ctid addr S"
  shows "start_inv ctid addr T"
proof -
  from assms(4) have inv: "mutex_inv S" "thread_inv S" "publish_inv addr S" "wait_inv S" "life_inv ctid S"
    by (simp_all add: start_inv_def)
  show ?thesis unfolding start_inv_def
    using hstep_mutex [OF assms(1) inv(1,2)] hstep_thread [OF assms(1) inv(2)] hstep_publish [OF assms(1) inv(2,3)]
      hstep_wait [OF assms(1) inv(1-4)] hstep_life [OF assms(1-3) inv(5)] by simp
qed

lemma estep_mutex:
  "estep run run_read run_fn otid ctid addr l0 S T \<Longrightarrow> mutex_inv S \<Longrightarrow> thread_inv S \<Longrightarrow> mutex_inv T"
proof (induction rule: estep.induct)
  case (handshake S T)
  then show ?case by (rule hstep_mutex)
qed (auto simp: mutex_inv_def)

lemma estep_thread:
  "estep run run_read run_fn otid ctid addr l0 S T \<Longrightarrow> thread_inv S \<Longrightarrow> thread_inv T"
proof (induction rule: estep.induct)
  case (handshake S T)
  then show ?case by (rule hstep_thread)
qed (auto simp: thread_inv_def starting_def thread_join_def)

lemma estep_publish:
  "estep run run_read run_fn otid ctid addr l0 S T \<Longrightarrow> thread_inv S \<Longrightarrow> publish_inv addr S \<Longrightarrow> publish_inv addr T"
proof (induction rule: estep.induct)
  case (handshake S T)
  then show ?case by (rule hstep_publish)
qed (auto simp: publish_inv_def phase_defs)

lemma estep_wait:
  "estep run run_read run_fn otid ctid addr l0 S T \<Longrightarrow> mutex_inv S \<Longrightarrow> thread_inv S \<Longrightarrow> publish_inv addr S \<Longrightarrow> wait_inv S \<Longrightarrow>
    wait_inv T"
proof (induction rule: estep.induct)
  case (handshake S T)
  then show ?case by (rule hstep_wait)
qed (auto simp: wait_inv_def)

lemma estep_life:
  "estep run run_read run_fn otid ctid addr l0 S T \<Longrightarrow> \<not> el_looping l0 \<Longrightarrow> el_threadId l0 = ctid \<Longrightarrow> life_inv ctid S \<Longrightarrow>
    life_inv ctid T"
proof (induction rule: estep.induct)
  case (handshake S T)
  show ?case by (rule hstep_life [OF handshake.hyps handshake.prems])
qed (auto simp: life_inv_def phase_defs quit_store_def quit_wake_def el_wakeup_def)

lemma start_inv_reach:
  assumes "(estep run run_read run_fn otid ctid addr l0)\<^sup>*\<^sup>* start_init S" and "\<not> el_looping l0" and "el_threadId l0 = ctid"
  shows "start_inv ctid addr S"
  using assms(1)
proof (induction rule: rtranclp_induct)
  case base
  show ?case
    by (simp add: start_inv_def start_init_def mutex_inv_def thread_inv_def publish_inv_def wait_inv_def life_inv_def phase_defs
      new_EventLoopThread_def new_Thread_def)
next
  case (step S T)
  then have inv: "mutex_inv S" "thread_inv S" "publish_inv addr S" "wait_inv S" "life_inv ctid S" by (simp_all add: start_inv_def)
  show ?case unfolding start_inv_def
    using estep_mutex [OF step.hyps(2) inv(1,2)] estep_thread [OF step.hyps(2) inv(2)] estep_publish [OF step.hyps(2) inv(2,3)]
      estep_wait [OF step.hyps(2) inv(1-4)] estep_life [OF step.hyps(2) assms(2,3) inv(5)] by simp
qed

text \<open>Every step of the handshake makes progress, and until \<^verbatim>\<open>startLoop\<close> has returned there is one to take.\<close>

lemma hstep_rank: "hstep addr l0 S T \<Longrightarrow> thread_inv S \<Longrightarrow> start_rank T < start_rank S"
  by (induction rule: hstep.induct) (auto simp: start_rank_def thread_inv_def)

lemma hstep_enabled:
  assumes "start_inv ctid addr S" and "starting (ss_owner S)"
  shows "\<exists>T. hstep addr l0 S T"
proof (cases "ss_owner S")
  case OStart
  with assms(1) show ?thesis using hstep.start [of S _ addr l0] by (auto simp: start_inv_def thread_inv_def thread_start_def)
next
  case OLock
  with assms(1) have "ss_mutex S = None \<or> ss_mutex S = Some Child" by (cases "ss_mutex S"; cases "the (ss_mutex S)") (auto simp: start_inv_def mutex_inv_def)
  with assms(1) OLock show ?thesis
    using hstep.owner_lock [of S addr l0] hstep.publish [of S addr l0] hstep.child_unlock [of S addr l0]
    by (auto simp: start_inv_def mutex_inv_def)
next
  case OTest
  then show ?thesis using hstep.owner_sees [of S addr l0] hstep.owner_waits [of S addr l0] by blast
next
  case OWait
  with assms(1) have "ss_mutex S \<noteq> Some Owner" by (simp add: start_inv_def mutex_inv_def)
  with assms(1) have "ss_child S = CLock \<longrightarrow> ss_mutex S = None"
    by (cases "ss_mutex S"; cases "the (ss_mutex S)") (auto simp: start_inv_def mutex_inv_def)
  with assms(1) OWait show ?thesis
    using hstep.construct [of S addr l0] hstep.child_lock [of S addr l0] hstep.publish [of S addr l0]
      hstep.child_unlock [of S addr l0] hstep.notify [of S addr l0]
    by (auto simp: start_inv_def wait_inv_def)
next
  case OReturn
  then show ?thesis using hstep.owner_returns [of S addr l0] by blast
qed (use assms(2) in \<open>simp_all add: starting_def\<close>)

lemma hsteps_rank:
  assumes "(hstep addr l0 ^^ n) S T" and "start_inv ctid addr S" and "\<not> el_looping l0" and "el_threadId l0 = ctid"
  shows "n + start_rank T \<le> start_rank S \<and> start_inv ctid addr T"
  using assms(1)
proof (induction n arbitrary: T)
  case 0
  with assms(2) show ?case by simp
next
  case (Suc n)
  then obtain U where U: "(hstep addr l0 ^^ n) S U" "hstep addr l0 U T" by auto
  from Suc.IH [OF U(1)] have inv: "n + start_rank U \<le> start_rank S" "start_inv ctid addr U" by simp_all
  with hstep_rank [OF U(2)] hstep_inv [OF U(2) assms(3,4)] show ?case by (simp add: start_inv_def)
qed

lemma handshake_completes:
  assumes "start_inv ctid addr S" and "\<not> el_looping l0" and "el_threadId l0 = ctid"
  shows "\<exists>T. (hstep addr l0)\<^sup>*\<^sup>* S T \<and> \<not> starting (ss_owner T)"
  using assms(1)
proof (induction "start_rank S" arbitrary: S rule: less_induct)
  case less
  show ?case
  proof (cases "starting (ss_owner S)")
    case True
    with hstep_enabled [OF less.prems] obtain U where U: "hstep addr l0 S U" by blast
    with less.prems hstep_rank [OF U] less.hyps [of U] hstep_inv [OF U assms(2,3)] obtain T where
      "(hstep addr l0)\<^sup>*\<^sup>* U T" "\<not> starting (ss_owner T)" by (auto simp: start_inv_def)
    with U show ?thesis by (meson converse_rtranclp_into_rtranclp)
  qed blast
qed

text \<open>Without a \<^verbatim>\<open>quit\<close> in the client's code the loop runs until the owner's destructor sets the flag.\<close>

definition quiet_inv :: "('cb, 'fn) start_sys \<Rightarrow> bool" where
  "quiet_inv S \<longleftrightarrow> (starting (ss_owner S) \<or> ss_owner S = OHave \<or> ss_owner S = OQuit \<longrightarrow>
    ss_child S \<notin> {CExit, CDone} \<and> (\<forall>l. ss_loop S = Some l \<longrightarrow> \<not> el_quit l))"

lemma hstep_quiet: "hstep addr l0 S T \<Longrightarrow> \<not> el_quit l0 \<Longrightarrow> quiet_inv S \<Longrightarrow> quiet_inv T"
  by (induction rule: hstep.induct) (auto simp: quiet_inv_def starting_def)

lemma estep_quiet:
  assumes "estep run run_read run_fn otid ctid addr l0 S T" and "\<not> el_quit l0" and "quiet_inv S"
    and quiet: "no_quit run" "no_quit_read run_read" "no_quit run_fn"
  shows "quiet_inv T"
  using assms(1-3)
proof (induction rule: estep.induct)
  case (handshake S T)
  then show ?case by (rule hstep_quiet)
next
  case (body S l r l')
  with loop_body_quit [OF quiet] show ?case by (auto simp: quiet_inv_def)
qed (auto simp: quiet_inv_def starting_def)

lemma quiet_reach:
  assumes "(estep run run_read run_fn otid ctid addr l0)\<^sup>*\<^sup>* start_init S" and "\<not> el_quit l0"
    and "no_quit run" "no_quit_read run_read" "no_quit run_fn"
  shows "quiet_inv S"
  using assms(1)
proof (induction rule: rtranclp_induct)
  case base
  show ?case by (simp add: quiet_inv_def start_init_def)
next
  case (step S T)
  with estep_quiet [OF _ assms(2) _ assms(3-5)] show ?case by blast
qed

lemma new_EventLoop_fresh:
  assumes "new_EventLoop tid other w evtfd pw cb = Inr l"
  shows "\<not> el_looping l" "\<not> el_quit l" "el_threadId l = tid"
  using assms by (auto simp: new_EventLoop_def res_Inr_iffs)

text \<open>
  C11: \<^verbatim>\<open>startLoop\<close> returns, with the address of a loop that is there. However the two threads interleave and however often
  \<^verbatim>\<open>wait\<close> wakes up for no reason, until \<^verbatim>\<open>startLoop\<close> has returned one of the two threads can take a step of the handshake
  (the notification is never lost and neither waits for a lock for ever), no more than 22 such steps can follow each
  other, and they lead to the return; the result is the address of the thread's loop and never null, the object is as
  after the sequential \<^const>\<open>startLoop\<close> that the thread pool uses, and as long as the client's code in the loop does not
  call \<^verbatim>\<open>quit\<close> that loop is alive until the owner's destructor.
\<close>

theorem startLoop_returns:
  assumes "(estep run run_read run_fn otid ctid addr l0)\<^sup>*\<^sup>* start_init S" and "new_EventLoop ctid other w evtfd pw cb = Inr l0"
  shows "(starting (ss_owner S) \<longrightarrow> (\<exists>T. hstep addr l0 S T)) \<and> (\<forall>n T. (hstep addr l0 ^^ n) S T \<longrightarrow> n \<le> 22) \<and>
    (\<exists>T. (hstep addr l0)\<^sup>*\<^sup>* S T \<and> \<not> starting (ss_owner T)) \<and>
    (\<not> starting (ss_owner S) \<longrightarrow> ss_result S = Some addr) \<and>
    (ss_owner S = OHave \<longrightarrow> startLoop addr new_EventLoopThread = Inr (addr, ss_thread S)) \<and>
    (no_quit run \<and> no_quit_read run_read \<and> no_quit run_fn \<and> ss_owner S = OHave \<longrightarrow> (\<exists>l. ss_loop S = Some l))"
proof -
  note fresh = new_EventLoop_fresh [OF assms(2)]
  have inv: "start_inv ctid addr S" using start_inv_reach [OF assms(1) fresh(1,3)] .
  have "start_rank S \<le> 22"
    by (cases "ss_owner S"; cases "ss_child S") (simp_all add: start_rank_def)
  with hsteps_rank [OF _ inv fresh(1,3)] have "n \<le> 22" if "(hstep addr l0 ^^ n) S T" for n T using that by fastforce
  moreover have "ss_result S = Some addr" if "\<not> starting (ss_owner S)" using that inv by (simp add: start_inv_def publish_inv_def)
  moreover have "\<exists>l. ss_loop S = Some l" if "no_quit run" "no_quit_read run_read" "no_quit run_fn" "ss_owner S = OHave"
    using quiet_reach [OF assms(1) fresh(2) that(1-3)] inv that(4)
    by (cases "ss_child S") (auto simp: quiet_inv_def start_inv_def publish_inv_def life_inv_def phase_defs)
  moreover have "startLoop addr new_EventLoopThread = Inr (addr, ss_thread S)" if "ss_owner S = OHave"
    using that inv
    by (cases "ss_thread S") (auto simp: startLoop_def new_EventLoopThread_def new_Thread_def thread_start_def threadFunc_def
      start_inv_def thread_inv_def publish_inv_def starting_def)
  ultimately show ?thesis using hstep_enabled [OF inv] handshake_completes [OF inv fresh(1,3)] by blast
qed

section \<open>The destructor\<close>

text \<open>
  The owner in \<^verbatim>\<open>join\<close> after a \<^verbatim>\<open>quit\<close> that came before \<^verbatim>\<open>loop\<close> cleared the flag: nothing sets the flag again.
\<close>

definition hung :: "('cb, 'fn) start_sys \<Rightarrow> bool" where
  "hung S \<longleftrightarrow> ss_owner S = OJoin \<and> (ss_child S \<in> {CEnter, CWhile, CBody}) \<and>
    (ss_child S \<noteq> CEnter \<longrightarrow> (\<exists>l. ss_loop S = Some l \<and> \<not> el_quit l))"

lemma estep_hung:
  assumes "estep run run_read run_fn otid ctid addr l0 S T" and "hung S" and quiet: "no_quit run" "no_quit_read run_read" "no_quit run_fn"
  shows "hung T"
  using assms(1,2)
proof (induction rule: estep.induct)
  case (handshake S T)
  then show ?case by (induction rule: hstep.induct) (auto simp: hung_def)
next
  case (body S l r l')
  with loop_body_quit [OF quiet] show ?case by (auto simp: hung_def)
qed (auto simp: hung_def)

lemma hung_for_ever:
  assumes "(estep run run_read run_fn otid ctid addr l0)\<^sup>*\<^sup>* S T" and "hung S" and "no_quit run" "no_quit_read run_read" "no_quit run_fn"
  shows "hung T"
  using assms(1,2) by (induction rule: rtranclp_induct) (auto intro: estep_hung [OF _ _ assms(3-5)])

text \<open>A run of the handshake, to where the owner has the loop and the thread is about to call \<^verbatim>\<open>loop\<close>.\<close>

definition started :: "nat \<Rightarrow> ('cb, 'fn) event_loop \<Rightarrow> ('cb, 'fn) start_sys" where
  "started addr l = \<lparr>ss_thread = \<lparr>lt_loop = Some addr, lt_exiting = False, lt_thread = \<lparr>th_started = True, th_joinable = True\<rparr>\<rparr>,
     ss_mutex = None, ss_owner = OHave, ss_child = CEnter, ss_loop = Some l, ss_result = Some addr\<rparr>"

lemma started_reach: "(estep run run_read run_fn otid ctid addr l0)\<^sup>*\<^sup>* start_init (started addr l0)"
proof -
  let ?th = "\<lambda>l. \<lparr>lt_loop = l, lt_exiting = False, lt_thread = \<lparr>th_started = True, th_joinable = True\<rparr>\<rparr>"
  let ?S = "\<lambda>l m w c p r. \<lparr>ss_thread = ?th l, ss_mutex = m, ss_owner = w, ss_child = c, ss_loop = p, ss_result = r\<rparr>"
  have "(hstep addr l0)\<^sup>*\<^sup>* start_init (?S None None OLock CConstruct None None)"
    using hstep.start [of start_init _ addr l0]
    by (auto simp: start_init_def new_EventLoopThread_def new_Thread_def thread_start_def)
  also have "(hstep addr l0)\<^sup>*\<^sup>* (?S None None OLock CConstruct None None) (?S None None OLock CLock (Some l0) None)"
    using hstep.construct [of "?S None None OLock CConstruct None None" addr l0] by auto
  also have "(hstep addr l0)\<^sup>*\<^sup>* (?S None None OLock CLock (Some l0) None) (?S None (Some Child) OLock CPublish (Some l0) None)"
    using hstep.child_lock [of "?S None None OLock CLock (Some l0) None" addr l0] by auto
  also have "(hstep addr l0)\<^sup>*\<^sup>* (?S None (Some Child) OLock CPublish (Some l0) None) (?S (Some addr) (Some Child) OLock CUnlock (Some l0) None)"
    using hstep.publish [of "?S None (Some Child) OLock CPublish (Some l0) None" addr l0] by (auto simp: threadFunc_def)
  also have "(hstep addr l0)\<^sup>*\<^sup>* (?S (Some addr) (Some Child) OLock CUnlock (Some l0) None) (?S (Some addr) None OLock CNotify (Some l0) None)"
    using hstep.child_unlock [of "?S (Some addr) (Some Child) OLock CUnlock (Some l0) None" addr l0] by auto
  also have "(hstep addr l0)\<^sup>*\<^sup>* (?S (Some addr) None OLock CNotify (Some l0) None) (?S (Some addr) None OLock CEnter (Some l0) None)"
    using hstep.notify [of "?S (Some addr) None OLock CNotify (Some l0) None" addr l0] by auto
  also have "(hstep addr l0)\<^sup>*\<^sup>* (?S (Some addr) None OLock CEnter (Some l0) None) (?S (Some addr) (Some Owner) OTest CEnter (Some l0) None)"
    using hstep.owner_lock [of "?S (Some addr) None OLock CEnter (Some l0) None" addr l0] by auto
  also have "(hstep addr l0)\<^sup>*\<^sup>* (?S (Some addr) (Some Owner) OTest CEnter (Some l0) None) (?S (Some addr) None OReturn CEnter (Some l0) None)"
    using hstep.owner_sees [of "?S (Some addr) (Some Owner) OTest CEnter (Some l0) None" addr l0] by auto
  also have "(hstep addr l0)\<^sup>*\<^sup>* (?S (Some addr) None OReturn CEnter (Some l0) None) (started addr l0)"
    using hstep.owner_returns [of "?S (Some addr) None OReturn CEnter (Some l0) None" addr l0] by (auto simp: started_def)
  finally have "(hstep addr l0)\<^sup>*\<^sup>* start_init (started addr l0)" .
  moreover have "hstep addr l0 \<le> estep run run_read run_fn otid ctid addr l0" by (auto intro: estep.handshake)
  ultimately show ?thesis by (metis predicate2D rtranclp_mono)
qed

lemma destructor_hangs:
  assumes "no_quit run" "no_quit_read run_read" "no_quit run_fn"
  shows "\<exists>S. (estep run run_read run_fn otid ctid addr l0)\<^sup>*\<^sup>* start_init S \<and> ss_owner S = OJoin \<and>
    (\<forall>T. (estep run run_read run_fn otid ctid addr l0)\<^sup>*\<^sup>* S T \<longrightarrow> ss_owner T = OJoin)"
proof -
  let ?E = "estep run run_read run_fn otid ctid addr l0"
  let ?A = "(started addr l0)\<lparr>ss_thread := (ss_thread (started addr l0))\<lparr>lt_exiting := True\<rparr>, ss_owner := OQuit\<rparr>"
  let ?B = "?A\<lparr>ss_owner := OWake, ss_loop := Some (quit_store l0)\<rparr>"
  let ?C = "?B\<lparr>ss_owner := OJoin, ss_loop := Some (quit_wake otid (quit_store l0))\<rparr>"
  have "?E (started addr l0) ?A" by (rule estep.exiting) (simp add: started_def)
  moreover have "?E ?A ?B" by (rule estep.quit_store) (simp_all add: started_def)
  moreover have "?E ?B ?C" by (rule estep.quit_wake) simp_all
  ultimately have "?E\<^sup>*\<^sup>* start_init ?C" using started_reach [of run run_read run_fn otid ctid addr l0]
    by (meson rtranclp.rtrancl_into_rtrancl)
  moreover have hung: "hung ?C" by (simp add: hung_def started_def)
  moreover have "ss_owner T = OJoin" if "?E\<^sup>*\<^sup>* ?C T" for T
    using hung_for_ever [OF that hung assms] by (simp add: hung_def)
  ultimately show ?thesis by (intro exI [of _ ?C]) (simp add: hung_def)
qed

lemma destructor_dangles:
  assumes "\<not> el_looping l0" "el_threadId l0 = ctid"
  shows "\<exists>S. (estep run run_read run_fn otid ctid addr l0)\<^sup>*\<^sup>* start_init S \<and> ss_owner S = OFault"
proof -
  let ?E = "estep run run_read run_fn otid ctid addr l0"
  let ?l = "l0\<lparr>el_looping := True, el_quit := False\<rparr>"
  let ?A = "(started addr l0)\<lparr>ss_child := CWhile, ss_loop := Some ?l\<rparr>"
  let ?B = "?A\<lparr>ss_thread := (ss_thread ?A)\<lparr>lt_exiting := True\<rparr>, ss_owner := OQuit\<rparr>"
  let ?C = "?B\<lparr>ss_owner := OWake, ss_loop := Some (quit_store ?l)\<rparr>"
  let ?D = "?C\<lparr>ss_child := CExit, ss_loop := Some ((quit_store ?l)\<lparr>el_looping := False\<rparr>)\<rparr>"
  let ?F = "?D\<lparr>ss_child := CDone, ss_loop := None\<rparr>"
  have "?E (started addr l0) ?A" by (rule estep.enter) (simp_all add: started_def assms isInLoopThread_def)
  moreover have "?E ?A ?B" by (rule estep.exiting) (simp add: started_def)
  moreover have "?E ?B ?C" by (rule estep.quit_store) simp_all
  moreover have "?E ?C ?D" by (rule estep.stop) (simp_all add: quit_store_def)
  moreover have "?E ?D ?F" by (rule estep.destruct [where l = "(quit_store ?l)\<lparr>el_looping := False\<rparr>"]) (simp_all add: destroy_EventLoop_def)
  moreover have "?E ?F (?F\<lparr>ss_owner := OFault\<rparr>)" by (rule estep.dangling) simp_all
  ultimately have "?E\<^sup>*\<^sup>* start_init (?F\<lparr>ss_owner := OFault\<rparr>)" using started_reach [of run run_read run_fn otid ctid addr l0]
    by (meson rtranclp.rtrancl_into_rtrancl)
  then show ?thesis by (intro exI [of _ "?F\<lparr>ss_owner := OFault\<rparr>"]) simp
qed

text \<open>A flag set while the loop is at its test and still there at the \<^verbatim>\<open>join\<close> ends the thread and the destructor.\<close>

lemma destructor_joins:
  assumes "(estep run run_read run_fn otid ctid addr l0)\<^sup>*\<^sup>* start_init S" and "\<not> el_looping l0" and "el_threadId l0 = ctid"
    and "ss_owner S = OJoin" and "ss_child S = CWhile" and "ss_loop S = Some l" and "el_quit l"
  shows "\<exists>T. (estep run run_read run_fn otid ctid addr l0)\<^sup>*\<^sup>* S T \<and> ss_owner T = ODone"
proof -
  let ?E = "estep run run_read run_fn otid ctid addr l0"
  let ?A = "S\<lparr>ss_child := CExit, ss_loop := Some (l\<lparr>el_looping := False\<rparr>)\<rparr>"
  let ?B = "?A\<lparr>ss_child := CDone, ss_loop := None\<rparr>"
  from start_inv_reach [OF assms(1-3)] assms(4) have "th_joinable (lt_thread (ss_thread S))" by (simp add: start_inv_def thread_inv_def)
  then obtain th where th: "thread_join (lt_thread (ss_thread S)) = Inr th" by (simp add: thread_join_def)
  have "?E S ?A" using assms(5-7) by (rule estep.stop)
  moreover have "?E ?A ?B" by (rule estep.destruct [where l = "l\<lparr>el_looping := False\<rparr>"]) (simp_all add: destroy_EventLoop_def)
  moreover have "?E ?B (?B\<lparr>ss_thread := (ss_thread ?B)\<lparr>lt_thread := th\<rparr>, ss_owner := ODone\<rparr>)"
    by (rule estep.join) (use assms(4) th in simp_all)
  ultimately have "?E\<^sup>*\<^sup>* S (?B\<lparr>ss_thread := (ss_thread ?B)\<lparr>lt_thread := th\<rparr>, ss_owner := ODone\<rparr>)"
    by (meson converse_rtranclp_into_rtranclp rtranclp.rtrancl_refl)
  then show ?thesis by (intro exI [of _ "?B\<lparr>ss_thread := (ss_thread ?B)\<lparr>lt_thread := th\<rparr>, ss_owner := ODone\<rparr>"]) simp
qed

text \<open>
  C40: The destructor races with the start and with the end of the loop. When it calls \<^verbatim>\<open>quit\<close> before the thread has entered
  \<^verbatim>\<open>loop\<close>, which clears the flag, its \<^verbatim>\<open>join\<close> never returns, whatever follows; and when the loop sees the flag before the
  \<^verbatim>\<open>quit\<close> of the destructor has come to \<^verbatim>\<open>wakeup\<close>, the loop on the thread's stack is gone and \<^verbatim>\<open>wakeup\<close> works on a dead object.
\<close>

theorem destructor_races:
  assumes "new_EventLoop ctid other w evtfd pw cb = Inr l0" and "no_quit run" "no_quit_read run_read" "no_quit run_fn"
  shows "(\<exists>S. (estep run run_read run_fn otid ctid addr l0)\<^sup>*\<^sup>* start_init S \<and> ss_owner S = OJoin \<and>
      (\<forall>T. (estep run run_read run_fn otid ctid addr l0)\<^sup>*\<^sup>* S T \<longrightarrow> ss_owner T = OJoin)) \<and>
    (\<exists>S. (estep run run_read run_fn otid ctid addr l0)\<^sup>*\<^sup>* start_init S \<and> ss_owner S = OFault)"
  using destructor_hangs [OF assms(2-4)] destructor_dangles [OF new_EventLoop_fresh(1,3) [OF assms(1)]] by blast

section \<open>Sample runs\<close>

text \<open>A poller with nothing registered, and the loop whose constructor registers its wakeup channel there.\<close>

definition empty_epoller :: "unit epoller" where
  "empty_epoller = \<lparr>ep_heap = Map.empty, ep_channels = Map.empty, ep_interest = Map.empty, ep_events_size = 16, ep_refuses = (\<lambda>_ _. False)\<rparr>"

lemma new_EventLoop_sample: "\<exists>l :: (unit, nat) event_loop. new_EventLoop 7 False empty_epoller 5 1 () = Inr l"
  by (simp add: new_EventLoop_def createEventfd_def empty_epoller_def ep_set_events_def ep_updateChannel_def ep_put_def ep_chan_def
    ep_update_def new_Channel_def setReadCallback_def ev_enableReading_def epoll_ctl_def kNew_def kDeleted_def kAdded_def Let_def)

theorem destructor_races_witness:
  "\<exists>l0 :: (unit, nat) event_loop. new_EventLoop 7 False empty_epoller 5 1 () = Inr l0 \<and>
    (\<exists>S. (estep no_callback (\<lambda>_ _. Inr) (\<lambda>_. Inr) 1 7 100 l0)\<^sup>*\<^sup>* start_init S \<and> ss_owner S = OFault)"
proof -
  obtain l0 :: "(unit, nat) event_loop" where l0: "new_EventLoop 7 False empty_epoller 5 1 () = Inr l0"
    using new_EventLoop_sample by blast
  have quiet: "no_quit (no_callback :: unit \<Rightarrow> (unit, nat) event_loop \<Rightarrow> _)"
    "no_quit_read (\<lambda>(_::unit) (_::time_point). Inr :: (unit, nat) event_loop \<Rightarrow> _)" "no_quit (\<lambda>_::nat. Inr :: (unit, nat) event_loop \<Rightarrow> _)"
    by (simp_all add: no_quit_def no_quit_read_def no_callback_def)
  from l0 destructor_races [OF l0 quiet, of 1 100] show ?thesis by blast
qed

theorem startLoop_returns_witness:
  "\<exists>l0 :: (unit, nat) event_loop. new_EventLoop 7 False empty_epoller 5 1 () = Inr l0 \<and>
    (\<exists>T. (hstep 100 l0)\<^sup>*\<^sup>* start_init T \<and> \<not> starting (ss_owner T)) \<and>
    (estep no_callback (\<lambda>_ _. Inr) (\<lambda>_. Inr) 1 7 100 l0)\<^sup>*\<^sup>* start_init (started 100 l0) \<and> ss_result (started 100 l0) = Some 100"
proof -
  obtain l0 :: "(unit, nat) event_loop" where l0: "new_EventLoop 7 False empty_epoller 5 1 () = Inr l0"
    using new_EventLoop_sample by blast
  have r: "(estep no_callback (\<lambda>_ _. Inr) (\<lambda>_. Inr) 1 7 100 l0)\<^sup>*\<^sup>* start_init (started 100 l0)" by (rule started_reach)
  have "\<exists>T. (hstep 100 l0)\<^sup>*\<^sup>* start_init T \<and> \<not> starting (ss_owner T)"
    using startLoop_returns [OF rtranclp.rtrancl_refl l0, of 100] by blast
  moreover have "ss_result (started 100 l0) = Some 100" using startLoop_returns [OF r l0] by (simp add: starting_def started_def)
  ultimately show ?thesis using l0 r by blast
qed

end
