(* ===== verification/Buffer.thy ===== *)
theory Buffer
  imports Prelude
begin

text \<open>
  The class \<open>Buffer\<close> of \<^verbatim>\<open>src/src/Buffer.hpp\<close> and \<^verbatim>\<open>src/src/Buffer.cpp\<close>: a byte vector with a reader and
  a writer index. A pointer into the vector is its index. Every member function is a definition;
  failed assertions, a vector that would pass its \<^verbatim>\<open>max_size\<close> and accesses outside the vector are
  failures. The lemmas show that the class implements a byte queue: the contract is the locale
  \<open>byte_queue\<close>, interpreted below on the model of the class.
\<close>

section \<open>Model\<close>

record buffer =
  bytes :: string
  readerIndex :: size_t
  writerIndex :: size_t

definition kCheapPrepend :: size_t where "kCheapPrepend = 8"

definition kInitialSize :: size_t where "kInitialSize = 1024"

definition kCRLF :: string where "kCRLF = [CHR 0x0D, CHR 0x0A]"

text \<open>\<^verbatim>\<open>std::vector<char>::max_size()\<close>: no vector is longer than \<^verbatim>\<open>PTRDIFF_MAX\<close>.\<close>

abbreviation vector_max :: nat where "vector_max \<equiv> 9223372036854775807"

definition vector_resize :: "string \<Rightarrow> nat \<Rightarrow> string res" where
  "vector_resize v n =
    guard (n \<le> vector_max) (StdException ''std::length_error'')
      (Inr (take n v @ replicate (n - length v) (CHR 0x00)))"

text \<open>\<^verbatim>\<open>std::copy\<close> of a byte string to a position of the vector, and the range between two positions.\<close>

definition overwrite :: "string \<Rightarrow> nat \<Rightarrow> string \<Rightarrow> string" where
  "overwrite v i s = take i v @ s @ drop (i + length s) v"

definition copy_to :: "string \<Rightarrow> string \<Rightarrow> nat \<Rightarrow> string res" where
  "copy_to s v i =
    guard (i + length s \<le> length v) (UndefinedBehaviour ''write past the vector'')
      (Inr (overwrite v i s))"

definition range_of :: "string \<Rightarrow> nat \<Rightarrow> nat \<Rightarrow> string res" where
  "range_of v i j =
    guard (i \<le> j \<and> j \<le> length v) (UndefinedBehaviour ''read past the vector'')
      (Inr (take (j - i) (drop i v)))"

definition new_Buffer :: buffer where
  "new_Buffer = \<lparr>bytes = replicate (kCheapPrepend + kInitialSize) (CHR 0x00),
     readerIndex = kCheapPrepend, writerIndex = kCheapPrepend\<rparr>"

definition swap :: "buffer \<Rightarrow> buffer \<Rightarrow> buffer \<times> buffer" where
  "swap this rhs =
    (this\<lparr>bytes := bytes rhs, readerIndex := readerIndex rhs, writerIndex := writerIndex rhs\<rparr>,
     rhs\<lparr>bytes := bytes this, readerIndex := readerIndex this, writerIndex := writerIndex this\<rparr>)"

definition readableBytes :: "buffer \<Rightarrow> size_t" where
  "readableBytes b = sz_sub (writerIndex b) (readerIndex b)"

definition writeableBytes :: "buffer \<Rightarrow> size_t" where
  "writeableBytes b = sz_sub (length (bytes b)) (writerIndex b)"

definition prependableBytes :: "buffer \<Rightarrow> size_t" where
  "prependableBytes b = readerIndex b"

definition hasWritten :: "buffer \<Rightarrow> size_t \<Rightarrow> buffer" where
  "hasWritten b len = b\<lparr>writerIndex := sz_add (writerIndex b) len\<rparr>"

definition peek :: "buffer \<Rightarrow> nat" where "peek b = readerIndex b"

definition beginWrite :: "buffer \<Rightarrow> nat" where "beginWrite b = writerIndex b"

definition makeSpace :: "buffer \<Rightarrow> size_t \<Rightarrow> buffer res" where
  "makeSpace b len =
    (if sz_add (writeableBytes b) (prependableBytes b) < sz_add len kCheapPrepend then
       rbind (vector_resize (bytes b) (sz_add (writerIndex b) len)) (\<lambda>v. Inr (b\<lparr>bytes := v\<rparr>))
     else
       guard (kCheapPrepend < readerIndex b) (AssertFail ''kCheapPrepend < readerIndex_'')
        (let readable = readableBytes b in
         rbind (range_of (bytes b) (readerIndex b) (writerIndex b)) (\<lambda>s.
         rbind (copy_to s (bytes b) kCheapPrepend) (\<lambda>v.
         let b' = b\<lparr>bytes := v, readerIndex := kCheapPrepend,
                    writerIndex := sz_add kCheapPrepend readable\<rparr>
         in guard (readable = readableBytes b') (AssertFail ''readable == readableBytes()'')
              (Inr b')))))"

definition ensureWriteableBytes :: "buffer \<Rightarrow> size_t \<Rightarrow> buffer res" where
  "ensureWriteableBytes b len =
    rbind (if writeableBytes b < len then makeSpace b len else Inr b) (\<lambda>b'.
    guard (len \<le> writeableBytes b') (AssertFail ''writeableBytes() >= len'') (Inr b'))"

definition findCRLF_from :: "buffer \<Rightarrow> nat \<Rightarrow> nat option res" where
  "findCRLF_from b start =
    guard (peek b \<le> start) (AssertFail ''peek() <= start'')
   (guard (start \<le> beginWrite b) (AssertFail ''start <= beginWrite()'')
   (rbind (range_of (bytes b) start (beginWrite b)) (\<lambda>s.
    let crlf = start + std_search kCRLF s
    in Inr (if crlf = beginWrite b then None else Some crlf))))"

definition findCRLF :: "buffer \<Rightarrow> nat option res" where
  "findCRLF b =
    rbind (range_of (bytes b) (peek b) (beginWrite b)) (\<lambda>s.
    let crlf = peek b + std_search kCRLF s
    in Inr (if crlf = beginWrite b then None else Some crlf))"

text \<open>\<^verbatim>\<open>memchr\<close> returns a null pointer when the byte does not occur.\<close>

definition memchr :: "char \<Rightarrow> string \<Rightarrow> nat option" where
  "memchr c s = (if std_find c s = length s then None else Some (std_find c s))"

definition findEOL_from :: "buffer \<Rightarrow> nat \<Rightarrow> nat option res" where
  "findEOL_from b start =
    guard (peek b \<le> start) (AssertFail ''peek() <= start'')
   (guard (start \<le> beginWrite b) (AssertFail ''start <= beginWrite()'')
   (rbind (range_of (bytes b) start (beginWrite b)) (\<lambda>s.
    Inr (map_option (\<lambda>i. start + i) (memchr (CHR 0x0A) s)))))"

definition findEOL :: "buffer \<Rightarrow> nat option res" where
  "findEOL b =
    rbind (range_of (bytes b) (peek b) (peek b + readableBytes b)) (\<lambda>s.
    Inr (map_option (\<lambda>i. peek b + i) (memchr (CHR 0x0A) s)))"

definition retrieve :: "buffer \<Rightarrow> size_t \<Rightarrow> buffer res" where
  "retrieve b len =
    guard (len \<le> readableBytes b) (AssertFail ''len <= readableBytes()'')
      (Inr (b\<lparr>readerIndex := sz_add (readerIndex b) len\<rparr>))"

definition retrieveUntil :: "buffer \<Rightarrow> nat \<Rightarrow> buffer res" where
  "retrieveUntil b end_ptr =
    guard (peek b \<le> end_ptr) (AssertFail ''peek() <= end'')
   (guard (end_ptr \<le> beginWrite b) (AssertFail ''end <= beginWrite()'')
     (retrieve b (end_ptr - peek b)))"

definition retrieveAll :: "buffer \<Rightarrow> buffer" where
  "retrieveAll b = b\<lparr>readerIndex := kCheapPrepend, writerIndex := kCheapPrepend\<rparr>"

definition retrieveAsString :: "buffer \<Rightarrow> (string \<times> buffer) res" where
  "retrieveAsString b =
    rbind (range_of (bytes b) (peek b) (peek b + readableBytes b)) (\<lambda>str.
    Inr (str, retrieveAll b))"

definition buffer_append :: "buffer \<Rightarrow> string \<Rightarrow> buffer res" where
  "buffer_append b data =
    rbind (ensureWriteableBytes b (length data)) (\<lambda>b1.
    rbind (copy_to data (bytes b1) (beginWrite b1)) (\<lambda>v.
    Inr (hasWritten (b1\<lparr>bytes := v\<rparr>) (length data))))"

definition prepend :: "buffer \<Rightarrow> string \<Rightarrow> buffer res" where
  "prepend b data =
    guard (length data \<le> prependableBytes b) (AssertFail ''len <= prependableBytes()'')
     (let b1 = b\<lparr>readerIndex := sz_sub (readerIndex b) (length data)\<rparr> in
      rbind (copy_to data (bytes b1) (readerIndex b1)) (\<lambda>v. Inr (b1\<lparr>bytes := v\<rparr>)))"

text \<open>\<^verbatim>\<open>shrink\<close> swaps the vectors only: the two indices keep their values.\<close>

definition shrink :: "buffer \<Rightarrow> size_t \<Rightarrow> buffer res" where
  "shrink b reserve =
    rbind (vector_resize [] (sz_add (sz_add kCheapPrepend (readableBytes b)) reserve)) (\<lambda>buf.
    rbind (range_of (bytes b) (peek b) (peek b + readableBytes b)) (\<lambda>s.
    rbind (copy_to s buf kCheapPrepend) (\<lambda>v.
    Inr (b\<lparr>bytes := v\<rparr>))))"

text \<open>
  What \<^verbatim>\<open>readv(2)\<close> delivers: an error number, or the bytes it scattered over the two segments, the
  writeable part of the vector first and the 65536 bytes of the stack buffer after it.
\<close>

datatype readv_result = ReadvErr int | ReadvOk string

definition extrabuf_size :: nat where "extrabuf_size = 65536"

definition readFd :: "buffer \<Rightarrow> readv_result \<Rightarrow> (int \<times> int option \<times> buffer) res" where
  "readFd b r =
    (let writeble = writeableBytes b in
     case r of
       ReadvErr errno \<Rightarrow> Inr (-1, Some errno, b)
     | ReadvOk s \<Rightarrow>
         guard (length s \<le> writeble + extrabuf_size)
           (UndefinedBehaviour ''readv delivered more than it was given room for'')
        (rbind (copy_to (take writeble s) (bytes b) (writerIndex b)) (\<lambda>v.
         let b1 = b\<lparr>bytes := v\<rparr> in
         if length s \<le> writeble then
           Inr (int (length s), None, b1\<lparr>writerIndex := sz_add (writerIndex b1) (length s)\<rparr>)
         else
           rbind (buffer_append (b1\<lparr>writerIndex := length (bytes b1)\<rparr>) (drop writeble s)) (\<lambda>b2.
           Inr (int (length s), None, b2)))))"

section \<open>The contract of a byte queue\<close>

text \<open>
  What the clients of \<open>Buffer\<close> (\<open>TcpConnection\<close>, \<open>HttpContext\<close>, \<open>HttpResponse\<close>) rely on: the content is
  a sequence of bytes, appending adds at the end and cannot fail below a size limit, retrieving
  drops a prefix.
\<close>

locale byte_queue =
  fixes inv :: "'q \<Rightarrow> bool"
    and contents :: "'q \<Rightarrow> 'a list"
    and app :: "'q \<Rightarrow> 'a list \<Rightarrow> 'q res"
    and drp :: "'q \<Rightarrow> nat \<Rightarrow> 'q res"
    and limit :: nat
  assumes app_law: "inv q \<Longrightarrow> length (contents q) + 2 * length s \<le> limit \<Longrightarrow>
      \<exists>q'. app q s = Inr q' \<and> inv q' \<and> contents q' = contents q @ s"
    and drp_law: "inv q \<Longrightarrow> n \<le> length (contents q) \<Longrightarrow>
      \<exists>q'. drp q n = Inr q' \<and> inv q' \<and> contents q' = drop n (contents q)"
begin

fun app_all :: "'q \<Rightarrow> 'a list list \<Rightarrow> 'q res" where
  "app_all q [] = Inr q"
| "app_all q (s # ss) = rbind (app q s) (\<lambda>q'. app_all q' ss)"

lemma app_all_concat:
  "inv q \<Longrightarrow> length (contents q) + 2 * length (concat ss) \<le> limit \<Longrightarrow>
   \<exists>q'. app_all q ss = Inr q' \<and> inv q' \<and> contents q' = contents q @ concat ss"
proof (induction ss arbitrary: q)
  case (Cons s ss)
  from Cons.prems(2) have "length (contents q) + 2 * length s \<le> limit" by simp
  from app_law [OF Cons.prems(1) this] obtain q1 where
    q1: "app q s = Inr q1" "inv q1" "contents q1 = contents q @ s" by blast
  from q1(3) Cons.prems(2) have "length (contents q1) + 2 * length (concat ss) \<le> limit" by simp
  from Cons.IH [OF q1(2) this] q1 show ?case by auto
qed simp

text \<open>First in, first out: what was in the queue comes out before what is appended.\<close>

lemma app_then_drp:
  assumes "inv q" and "length (contents q) + 2 * length s \<le> limit"
    and "n \<le> length (contents q) + length s"
  shows "\<exists>q'. rbind (app q s) (\<lambda>q1. drp q1 n) = Inr q' \<and> inv q' \<and>
           contents q' = drop n (contents q @ s)"
proof -
  from app_law [OF assms(1,2)] obtain q1 where
    q1: "app q s = Inr q1" "inv q1" "contents q1 = contents q @ s" by blast
  with assms(3) have "n \<le> length (contents q1)" by simp
  from drp_law [OF q1(2) this] q1 show ?thesis by auto
qed

lemma app_drp_self:
  assumes "inv q" and "contents q = []" and "2 * length s \<le> limit"
  shows "\<exists>q'. rbind (app q s) (\<lambda>q1. drp q1 (length s)) = Inr q' \<and> inv q' \<and> contents q' = []"
  using app_then_drp [of q s "length s"] assms by simp

end

section \<open>Invariant and content\<close>

definition buf_inv :: "buffer \<Rightarrow> bool" where
  "buf_inv b \<longleftrightarrow> readerIndex b \<le> writerIndex b \<and> writerIndex b \<le> length (bytes b) \<and>
     kCheapPrepend \<le> length (bytes b) \<and> length (bytes b) \<le> vector_max"

definition content :: "buffer \<Rightarrow> string" where
  "content b = take (writerIndex b - readerIndex b) (drop (readerIndex b) (bytes b))"

text \<open>An append that leaves the content below this limit cannot fail.\<close>

abbreviation buf_limit :: nat where "buf_limit \<equiv> vector_max - 8"

lemmas kdefs = kCheapPrepend_def kInitialSize_def

lemma buf_inv_bounds:
  assumes "buf_inv b"
  shows "readerIndex b \<le> writerIndex b" "writerIndex b \<le> length (bytes b)"
    "8 \<le> length (bytes b)" "length (bytes b) \<le> vector_max" "writerIndex b < two64"
    "readerIndex b < two64" "length (bytes b) < two64"
  using assms by (auto simp: buf_inv_def kdefs)

lemma sizes_exact:
  assumes "buf_inv b"
  shows "readableBytes b = writerIndex b - readerIndex b"
    and "writeableBytes b = length (bytes b) - writerIndex b"
    and "prependableBytes b = readerIndex b"
  using buf_inv_bounds [OF assms]
  by (simp_all add: readableBytes_def writeableBytes_def prependableBytes_def sz_sub_exact)

lemma length_content [simp]:
  assumes "buf_inv b"
  shows "length (content b) = readableBytes b"
  using buf_inv_bounds [OF assms] by (simp add: content_def sizes_exact [OF assms])

lemma readable_end: "buf_inv b \<Longrightarrow> readerIndex b + readableBytes b = writerIndex b"
  using buf_inv_bounds(1) by (simp add: sizes_exact)

lemma range_content:
  assumes "buf_inv b"
  shows "range_of (bytes b) (readerIndex b) (writerIndex b) = Inr (content b)"
  using buf_inv_bounds [OF assms] by (simp add: range_of_def content_def)

lemma new_Buffer_inv [simp]: "buf_inv new_Buffer"
  by (simp add: buf_inv_def new_Buffer_def kdefs)

lemma new_Buffer_content [simp]: "content new_Buffer = []"
  by (simp add: content_def new_Buffer_def)

lemma length_overwrite [simp]: "i + length s \<le> length v \<Longrightarrow> length (overwrite v i s) = length v"
  by (simp add: overwrite_def)

lemma overwrite_id_prefix: "i + length s \<le> length v \<Longrightarrow> take i (overwrite v i s) = take i v"
  by (simp add: overwrite_def)

lemma content_split:
  assumes "buf_inv b"
  shows "bytes b = take (readerIndex b) (bytes b) @ content b @ drop (writerIndex b) (bytes b)"
proof -
  let ?r = "readerIndex b" and ?w = "writerIndex b" and ?v = "bytes b"
  have rw: "?r \<le> ?w" using buf_inv_bounds(1) [OF assms] .
  have "take ?w ?v = take ?r ?v @ content b"
    using rw by (simp add: content_def take_add [symmetric])
  then show ?thesis by (metis append_assoc append_take_drop_id)
qed

text \<open>A buffer is determined by what is before, in and after the readable part.\<close>

lemma contentI:
  assumes "bytes b = take (readerIndex b) v @ c @ post" and "readerIndex b \<le> length v"
    and "writerIndex b = readerIndex b + length c"
  shows "content b = c"
  using assms(2,3) by (simp add: content_def assms(1))

subsection \<open>makeSpace and ensureWriteableBytes\<close>

lemma makeSpace_grow:
  assumes inv: "buf_inv b"
    and less: "writeableBytes b + prependableBytes b < len + kCheapPrepend"
    and room: "readableBytes b + 2 * len \<le> buf_limit"
    and need: "writeableBytes b < len"
  shows "\<exists>b'. makeSpace b len = Inr b' \<and> buf_inv b' \<and> content b' = content b \<and>
      readerIndex b' = readerIndex b \<and> writerIndex b' = writerIndex b \<and>
      length (bytes b') = writerIndex b + len"
proof -
  note bd = buf_inv_bounds [OF inv]
  note sz = sizes_exact [OF inv]
  have fits: "writerIndex b + len \<le> vector_max"
    using less room sz bd kCheapPrepend_def by linarith
  then have add: "sz_add (writerIndex b) len = writerIndex b + len" by (simp add: sz_add_exact)
  have cond: "sz_add (writeableBytes b) (prependableBytes b) < sz_add len kCheapPrepend"
    using less room bd sz fits kCheapPrepend_def by (simp add: sz_add_exact)
  let ?b = "b\<lparr>bytes := take (writerIndex b + len) (bytes b) @
     replicate (writerIndex b + len - length (bytes b)) (CHR 0x00)\<rparr>"
  have long: "length (bytes b) \<le> writerIndex b + len" using need sz bd by linarith
  have ms: "makeSpace b len = Inr ?b"
    using cond fits by (simp add: makeSpace_def vector_resize_def add)
  have "content ?b = content b"
    using long bd by (simp add: content_def)
  moreover have "buf_inv ?b"
    using bd long fits by (simp add: buf_inv_def kdefs)
  ultimately show ?thesis using ms long by simp
qed

lemma makeSpace_move:
  assumes inv: "buf_inv b"
    and ge: "len + kCheapPrepend \<le> writeableBytes b + prependableBytes b"
    and need: "writeableBytes b < len"
  shows "\<exists>b'. makeSpace b len = Inr b' \<and> buf_inv b' \<and> content b' = content b \<and>
      readerIndex b' = kCheapPrepend \<and> writerIndex b' = kCheapPrepend + readableBytes b \<and>
      length (bytes b') = length (bytes b)"
proof -
  note bd = buf_inv_bounds [OF inv]
  note sz = sizes_exact [OF inv]
  have front: "kCheapPrepend < readerIndex b" using ge need sz by simp
  have cond: "\<not> sz_add (writeableBytes b) (prependableBytes b) < sz_add len kCheapPrepend"
    using ge bd sz kCheapPrepend_def by (simp add: sz_add_exact)
  have fit: "kCheapPrepend + readableBytes b \<le> length (bytes b)" using front sz bd by linarith
  let ?v = "overwrite (bytes b) kCheapPrepend (content b)"
  let ?b = "b\<lparr>bytes := ?v, readerIndex := kCheapPrepend,
     writerIndex := kCheapPrepend + readableBytes b\<rparr>"
  have cp: "copy_to (content b) (bytes b) kCheapPrepend = Inr ?v"
    using fit by (simp add: copy_to_def inv)
  have wadd: "sz_add kCheapPrepend (readableBytes b) = kCheapPrepend + readableBytes b"
    using fit bd by (simp add: sz_add_exact)
  have lv: "length ?v = length (bytes b)" using fit by (simp add: inv)
  have inv': "buf_inv ?b" using lv fit bd by (simp add: buf_inv_def kdefs)
  have rd': "readableBytes ?b = readableBytes b" using sizes_exact(1) [OF inv'] by simp
  have ms: "makeSpace b len = Inr ?b"
    using cond front by (simp add: makeSpace_def range_content [OF inv] cp wadd rd' Let_def)
  have "content ?b = content b"
    by (rule contentI [where v = "bytes b"]) (use fit in \<open>simp_all add: inv overwrite_def\<close>)
  with ms inv' lv show ?thesis by simp
qed

lemma ensureWriteableBytes_ok:
  assumes inv: "buf_inv b" and room: "readableBytes b + 2 * len \<le> buf_limit"
  shows "\<exists>b'. ensureWriteableBytes b len = Inr b' \<and> buf_inv b' \<and> content b' = content b \<and>
      len \<le> writeableBytes b'"
proof (cases "writeableBytes b < len")
  case True
  have "\<exists>b'. makeSpace b len = Inr b' \<and> buf_inv b' \<and> content b' = content b \<and>
      len \<le> writeableBytes b'"
  proof (cases "writeableBytes b + prependableBytes b < len + kCheapPrepend")
    case less: True
    from makeSpace_grow [OF inv less room True] show ?thesis
      by (metis add_diff_cancel_left' order_refl sizes_exact(2))
  next
    case False
    then have ge: "len + kCheapPrepend \<le> writeableBytes b + prependableBytes b" by simp
    from makeSpace_move [OF inv ge True] obtain b' where
      b': "makeSpace b len = Inr b'" "buf_inv b'" "content b' = content b"
        "writerIndex b' = kCheapPrepend + readableBytes b" "length (bytes b') = length (bytes b)"
      by blast
    have "len \<le> writeableBytes b'"
      using ge buf_inv_bounds [OF inv] sizes_exact [OF inv] sizes_exact [OF b'(2)] b'(4,5) by linarith
    with b' show ?thesis by blast
  qed
  with True show ?thesis by (auto simp: ensureWriteableBytes_def)
next
  case False
  with inv show ?thesis by (simp add: ensureWriteableBytes_def)
qed

subsection \<open>append, retrieve, prepend\<close>

lemma write_at_writer:
  assumes inv: "buf_inv b" and fit: "length s \<le> writeableBytes b"
  shows "copy_to s (bytes b) (writerIndex b) =
      Inr (overwrite (bytes b) (writerIndex b) s)"
    and "buf_inv (b\<lparr>bytes := overwrite (bytes b) (writerIndex b) s,
      writerIndex := writerIndex b + length s\<rparr>)"
    and "content (b\<lparr>bytes := overwrite (bytes b) (writerIndex b) s,
      writerIndex := writerIndex b + length s\<rparr>) = content b @ s"
    and "length (overwrite (bytes b) (writerIndex b) s) = length (bytes b)"
    and "sz_add (writerIndex b) (length s) = writerIndex b + length s"
proof -
  let ?v = "overwrite (bytes b) (writerIndex b) s"
  let ?b = "b\<lparr>bytes := ?v, writerIndex := writerIndex b + length s\<rparr>"
  note bd = buf_inv_bounds [OF inv]
  note sz = sizes_exact [OF inv]
  have f: "writerIndex b + length s \<le> length (bytes b)" using fit sz bd by linarith
  show "copy_to s (bytes b) (writerIndex b) = Inr ?v" using f by (simp add: copy_to_def)
  show lv: "length ?v = length (bytes b)" using f by simp
  show "buf_inv ?b" using f lv bd by (simp add: buf_inv_def kdefs)
  have "take (writerIndex b) (bytes b) = take (readerIndex b) (bytes b) @ content b"
    using bd by (simp add: content_def take_add [symmetric])
  then show "content ?b = content b @ s"
    by (intro contentI [where v = "bytes b"]) (use bd f in \<open>simp_all add: inv sz overwrite_def\<close>)
  show "sz_add (writerIndex b) (length s) = writerIndex b + length s"
    using f bd by (simp add: sz_add_exact)
qed

lemma buffer_append_ok:
  assumes inv: "buf_inv b" and room: "length (content b) + 2 * length s \<le> buf_limit"
  shows "\<exists>b'. buffer_append b s = Inr b' \<and> buf_inv b' \<and> content b' = content b @ s"
proof -
  from room inv have "readableBytes b + 2 * length s \<le> buf_limit" by simp
  from ensureWriteableBytes_ok [OF inv this] obtain b1 where
    b1: "ensureWriteableBytes b (length s) = Inr b1" "buf_inv b1" "content b1 = content b"
      "length s \<le> writeableBytes b1" by blast
  note w = write_at_writer [OF b1(2,4)]
  show ?thesis
    using w b1 by (simp add: buffer_append_def beginWrite_def hasWritten_def)
qed

lemma retrieve_ok:
  assumes inv: "buf_inv b" and le: "n \<le> length (content b)"
  shows "\<exists>b'. retrieve b n = Inr b' \<and> buf_inv b' \<and> content b' = drop n (content b)"
proof -
  note bd = buf_inv_bounds [OF inv]
  from le inv have n: "n \<le> readableBytes b" by simp
  then have rn: "readerIndex b + n \<le> writerIndex b" using sizes_exact(1) [OF inv] bd by linarith
  then have add: "sz_add (readerIndex b) n = readerIndex b + n" using bd by (simp add: sz_add_exact)
  let ?b = "b\<lparr>readerIndex := readerIndex b + n\<rparr>"
  have "buf_inv ?b" using rn bd by (simp add: buf_inv_def kdefs)
  moreover have "content ?b = drop n (content b)"
    using rn by (simp add: content_def drop_take add.commute)
  ultimately show ?thesis using n by (simp add: retrieve_def add)
qed

interpretation bq: byte_queue buf_inv content buffer_append retrieve buf_limit
  by unfold_locales (use buffer_append_ok retrieve_ok in blast)+

lemma retrieveUntil_ok:
  assumes inv: "buf_inv b" and le: "readerIndex b \<le> e" "e \<le> writerIndex b"
  shows "\<exists>b'. retrieveUntil b e = Inr b' \<and> buf_inv b' \<and>
      content b' = drop (e - readerIndex b) (content b)"
proof -
  have "e - readerIndex b \<le> length (content b)" using le inv by (simp add: sizes_exact)
  from retrieve_ok [OF inv this] le show ?thesis
    by (simp add: retrieveUntil_def peek_def beginWrite_def)
qed

lemma retrieveAll_inv [simp]: "buf_inv b \<Longrightarrow> buf_inv (retrieveAll b)"
  by (simp add: buf_inv_def retrieveAll_def)

lemma retrieveAll_content [simp]: "content (retrieveAll b) = []"
  by (simp add: content_def retrieveAll_def)

lemma retrieveAsString_ok:
  "buf_inv b \<Longrightarrow> retrieveAsString b = Inr (content b, retrieveAll b)"
  by (simp add: retrieveAsString_def peek_def readable_end range_content)

lemma prepend_ok:
  assumes inv: "buf_inv b" and le: "length s \<le> prependableBytes b"
  shows "\<exists>b'. prepend b s = Inr b' \<and> buf_inv b' \<and> content b' = s @ content b \<and>
      length (bytes b') = length (bytes b)"
proof -
  note bd = buf_inv_bounds [OF inv]
  let ?r = "readerIndex b - length s"
  from le have ls: "length s \<le> readerIndex b" by (simp add: prependableBytes_def)
  have sub: "sz_sub (readerIndex b) (length s) = ?r" using ls bd by (simp add: sz_sub_exact)
  let ?v = "overwrite (bytes b) ?r s"
  let ?b = "b\<lparr>readerIndex := ?r, bytes := ?v\<rparr>"
  have lv: "length ?v = length (bytes b)" using ls bd by simp
  have "prepend b s = Inr ?b"
    using le ls bd by (simp add: prepend_def sub Let_def copy_to_def)
  moreover have "buf_inv ?b" using lv bd by (simp add: buf_inv_def kdefs)
  moreover have "content ?b = s @ content b"
  proof (rule contentI [where v = "bytes b" and post = "drop (writerIndex b) (bytes b)"])
    have "drop (readerIndex b) (bytes b) = content b @ drop (writerIndex b) (bytes b)"
      using bd(1) by (simp add: content_def) (metis append_take_drop_id drop_drop le_add_diff_inverse2)
    with ls show "bytes ?b = take (readerIndex ?b) (bytes b) @ (s @ content b) @ drop (writerIndex b) (bytes b)"
      by (simp add: overwrite_def)
  qed (use ls bd in \<open>simp_all add: inv sizes_exact\<close>)
  ultimately show ?thesis using lv by simp
qed

subsection \<open>readFd\<close>

lemma readFd_ok:
  assumes inv: "buf_inv b" and del: "length s \<le> writeableBytes b + extrabuf_size"
    and room: "length (content b) + 2 * length s \<le> buf_limit"
  shows "\<exists>b'. readFd b (ReadvOk s) = Inr (int (length s), None, b') \<and> buf_inv b' \<and>
      content b' = content b @ s"
proof (cases "length s \<le> writeableBytes b")
  case True
  note w = write_at_writer [OF inv True]
  from True w del show ?thesis by (simp add: readFd_def Let_def)
next
  case False
  let ?k = "writeableBytes b"
  note bd = buf_inv_bounds [OF inv]
  have lt: "length (take ?k s) \<le> ?k" and ltk: "length (take ?k s) = ?k" using False by simp_all
  note w = write_at_writer [OF inv lt]
  let ?v = "overwrite (bytes b) (writerIndex b) (take ?k s)"
  let ?b = "b\<lparr>bytes := ?v, writerIndex := writerIndex b + length (take ?k s)\<rparr>"
  have full: "writerIndex b + length (take ?k s) = length ?v"
    using ltk sizes_exact(2) [OF inv] bd w(4) by linarith
  then have b1: "b\<lparr>bytes := ?v, writerIndex := length ?v\<rparr> = ?b" by simp
  have "length (content ?b) + 2 * length (drop ?k s) \<le> buf_limit"
    using room False by (simp only: w(3)) (simp add: inv)
  from buffer_append_ok [OF w(2) this] obtain b' where
    b': "buffer_append ?b (drop ?k s) = Inr b'" "buf_inv b'" "content b' = content ?b @ drop ?k s"
    by blast
  have "content b' = content b @ s" using b'(3) w(3) by simp
  moreover have "readFd b (ReadvOk s) = Inr (int (length s), None, b')"
    using False del w(1) b'(1) b1 by (simp add: readFd_def Let_def)
  ultimately show ?thesis using b'(2) by blast
qed

subsection \<open>findCRLF and findEOL\<close>

lemma findCRLF_eq:
  assumes "buf_inv b"
  shows "findCRLF b = Inr (if std_search kCRLF (content b) = length (content b) then None
     else Some (readerIndex b + std_search kCRLF (content b)))"
proof -
  have "readerIndex b + length (content b) = writerIndex b" using assms by (simp add: readable_end)
  then have "readerIndex b + std_search kCRLF (content b) = writerIndex b \<longleftrightarrow>
      std_search kCRLF (content b) = length (content b)" by arith
  then show ?thesis
    by (simp only: findCRLF_def peek_def beginWrite_def range_content [OF assms] rbind_Inr Let_def)
qed

lemma kCRLF_nonempty [simp]: "kCRLF \<noteq> []"
  by (simp add: kCRLF_def)

section \<open>Properties\<close>

text \<open>
  The operations of a buffer as steps, and their specification on byte sequences. The state of a run is the
  buffer and the strings \<^verbatim>\<open>retrieveAsString\<close> has returned so far.
\<close>

datatype buf_op =
    OpAppend string | OpRetrieve nat | OpRetrieveUntil nat | OpRetrieveAll | OpRetrieveAsString
  | OpEnsure nat | OpReadFd string | OpReadError int

fun buf_step :: "buffer \<times> string list \<Rightarrow> buf_op \<Rightarrow> (buffer \<times> string list) res" where
  "buf_step (b, out) (OpAppend s) = rbind (buffer_append b s) (\<lambda>b'. Inr (b', out))"
| "buf_step (b, out) (OpRetrieve n) = rbind (retrieve b n) (\<lambda>b'. Inr (b', out))"
| "buf_step (b, out) (OpRetrieveUntil n) = rbind (retrieveUntil b (peek b + n)) (\<lambda>b'. Inr (b', out))"
| "buf_step (b, out) OpRetrieveAll = Inr (retrieveAll b, out)"
| "buf_step (b, out) OpRetrieveAsString = rbind (retrieveAsString b) (\<lambda>(str, b'). Inr (b', out @ [str]))"
| "buf_step (b, out) (OpEnsure n) = rbind (ensureWriteableBytes b n) (\<lambda>b'. Inr (b', out))"
| "buf_step (b, out) (OpReadFd s) = rbind (readFd b (ReadvOk s)) (\<lambda>(n, e, b'). Inr (b', out))"
| "buf_step (b, out) (OpReadError e) = rbind (readFd b (ReadvErr e)) (\<lambda>(n, e, b'). Inr (b', out))"

fun queue_step :: "string \<times> string list \<Rightarrow> buf_op \<Rightarrow> (string \<times> string list) option" where
  "queue_step (q, out) (OpAppend s) = (if length q + 2 * length s \<le> buf_limit then Some (q @ s, out) else None)"
| "queue_step (q, out) (OpRetrieve n) = (if n \<le> length q then Some (drop n q, out) else None)"
| "queue_step (q, out) (OpRetrieveUntil n) = (if n \<le> length q then Some (drop n q, out) else None)"
| "queue_step (q, out) OpRetrieveAll = Some ([], out)"
| "queue_step (q, out) OpRetrieveAsString = Some ([], out @ [q])"
| "queue_step (q, out) (OpEnsure n) = (if length q + 2 * n \<le> buf_limit then Some (q, out) else None)"
| "queue_step (q, out) (OpReadFd s) =
    (if length s \<le> extrabuf_size \<and> length q + 2 * length s \<le> buf_limit then Some (q @ s, out) else None)"
| "queue_step (q, out) (OpReadError e) = Some (q, out)"

definition run_abs :: "buffer \<times> string list \<Rightarrow> string \<times> string list" where
  "run_abs s = (content (fst s), snd s)"

lemma buf_step_sim:
  assumes inv: "buf_inv b" and spec: "queue_step (content b, out) e = Some (q, out')"
  shows "\<exists>b'. buf_step (b, out) e = Inr (b', out') \<and> buf_inv b' \<and> content b' = q"
proof (cases e)
  case (OpAppend s)
  with spec buffer_append_ok [OF inv, of s] show ?thesis by (auto split: if_splits)
next
  case (OpRetrieve n)
  with spec retrieve_ok [OF inv, of n] show ?thesis by (auto split: if_splits)
next
  case (OpRetrieveUntil n)
  with spec inv have "n \<le> readableBytes b" by (simp split: if_splits)
  then have "readerIndex b + n \<le> writerIndex b" using readable_end [OF inv] by linarith
  with OpRetrieveUntil spec retrieveUntil_ok [OF inv, of "readerIndex b + n"] show ?thesis
    by (auto simp: peek_def split: if_splits)
next
  case (OpEnsure n)
  with spec inv have "readableBytes b + 2 * n \<le> buf_limit" by (simp split: if_splits)
  from ensureWriteableBytes_ok [OF inv this] OpEnsure spec show ?thesis by (auto split: if_splits)
next
  case (OpReadFd s)
  with spec readFd_ok [OF inv, of s] show ?thesis by (auto split: if_splits)
qed (use spec inv in \<open>auto simp: retrieveAsString_ok readFd_def\<close>)

interpretation bsim: forward_simulation buf_step queue_step "\<lambda>s. buf_inv (fst s)" run_abs
  by unfold_locales (use buf_step_sim in \<open>fastforce simp: run_abs_def\<close>)

text \<open>
  C1: any sequence of appends, retrieves of every form, reservations and socket reads on a buffer behaves like the
  same sequence on a queue of bytes: no assertion fails, nothing is written outside the vector, the readable bytes
  are exactly those of the queue, and the strings taken out are those the queue held.
\<close>

theorem buffer_refines_queue:
  assumes "buf_inv b" and "run_spec queue_step (content b, []) ops = Some (q, out)"
  shows "\<exists>b'. run_steps buf_step (b, []) ops = Inr (b', out) \<and> buf_inv b' \<and> content b' = q"
  using bsim.run_sim [of "(b, [])" ops "(q, out)"] assms by (auto simp: run_abs_def)

theorem buffer_refines_queue_witness:
  "\<exists>b'. run_steps buf_step (new_Buffer, [])
     [OpAppend ''hello'', OpRetrieve 2, OpReadFd '' world'', OpRetrieveUntil 1, OpEnsure 4000, OpRetrieveAsString,
      OpAppend ''x''] = Inr (b', [''lo world'']) \<and> buf_inv b' \<and> content b' = ''x''"
  by (rule buffer_refines_queue) (simp_all add: extrabuf_size_def)

text \<open>
  \<^verbatim>\<open>ensureWriteableBytes\<close> on every branch: with enough room behind the writer nothing changes; with
  enough room in total the readable bytes move to the front and the vector keeps its size (the
  assertion of \<^verbatim>\<open>makeSpace\<close> cannot fail); otherwise the vector grows to exactly what is needed.
\<close>

theorem ensureWriteableBytes_branches:
  assumes inv: "buf_inv b" and room: "readableBytes b + 2 * len \<le> buf_limit"
  shows "\<exists>b'. ensureWriteableBytes b len = Inr b' \<and> buf_inv b' \<and> content b' = content b \<and>
    len \<le> writeableBytes b' \<and>
    (if len \<le> writeableBytes b then b' = b
     else if len + kCheapPrepend \<le> writeableBytes b + prependableBytes b then
       readerIndex b' = kCheapPrepend \<and> length (bytes b') = length (bytes b)
     else readerIndex b' = readerIndex b \<and> length (bytes b') = writerIndex b + len)"
proof -
  from ensureWriteableBytes_ok [OF assms] obtain b' where
    b': "ensureWriteableBytes b len = Inr b'" "buf_inv b'" "content b' = content b"
      "len \<le> writeableBytes b'" by blast
  then have step: "(if writeableBytes b < len then makeSpace b len else Inr b) = Inr b'"
    by (auto simp: ensureWriteableBytes_def res_Inr_iffs)
  consider "len \<le> writeableBytes b"
    | "writeableBytes b < len" "len + kCheapPrepend \<le> writeableBytes b + prependableBytes b"
    | "writeableBytes b < len" "writeableBytes b + prependableBytes b < len + kCheapPrepend"
    by linarith
  then show ?thesis
  proof cases
    case 1
    with step b' show ?thesis by simp
  next
    case 2
    with makeSpace_move [OF inv 2(2,1)] step b' show ?thesis by auto
  next
    case 3
    with makeSpace_grow [OF inv 3(2) room 3(1)] step b' show ?thesis by auto
  qed
qed

theorem ensureWriteableBytes_branches_witness:
  "\<exists>b'. ensureWriteableBytes new_Buffer 2000 = Inr b' \<and> readerIndex b' = 8 \<and>
     length (bytes b') = 2008"
proof -
  have "writeableBytes new_Buffer = 1024" "prependableBytes new_Buffer = 8"
    "readableBytes new_Buffer = 0" "writerIndex new_Buffer = 8" "readerIndex new_Buffer = 8"
    by (simp_all add: sizes_exact, simp_all add: new_Buffer_def kdefs)
  then show ?thesis
    using ensureWriteableBytes_branches [of new_Buffer 2000] by (auto simp: kCheapPrepend_def)
qed

text \<open>
  \<^verbatim>\<open>prepend\<close> puts bytes in front of the readable ones without moving or growing anything, so a
  header written after the body is read before it.
\<close>

theorem prepend_then_retrieve:
  assumes "buf_inv b" and "length s \<le> prependableBytes b"
  shows "\<exists>b1 b2. prepend b s = Inr b1 \<and> content b1 = s @ content b \<and>
    length (bytes b1) = length (bytes b) \<and>
    retrieve b1 (length s) = Inr b2 \<and> buf_inv b2 \<and> content b2 = content b"
proof -
  from prepend_ok [OF assms] obtain b1 where
    b1: "prepend b s = Inr b1" "buf_inv b1" "content b1 = s @ content b"
      "length (bytes b1) = length (bytes b)" by blast
  from retrieve_ok [OF b1(2), of "length s"] b1(3) obtain b2 where
    "retrieve b1 (length s) = Inr b2" "buf_inv b2" "content b2 = content b"
    by (metis append_eq_conv_conj length_append le_add1)
  with b1 show ?thesis by blast
qed

theorem prepend_then_retrieve_witness:
  "\<exists>b1 b2. prepend new_Buffer ''len4'' = Inr b1 \<and> content b1 = ''len4'' \<and>
    retrieve b1 4 = Inr b2 \<and> content b2 = []"
proof -
  have "length ''len4'' \<le> prependableBytes new_Buffer"
    by (simp add: prependableBytes_def new_Buffer_def kdefs)
  from prepend_then_retrieve [OF new_Buffer_inv this] show ?thesis
    by (auto simp: numeral_eq_Suc)
qed

text \<open>
  \<^verbatim>\<open>readFd\<close> reports a failed read without touching the buffer, and stores everything one scatter
  read delivers, up to 64 KiB more than the writeable space, behind the readable bytes.
\<close>

theorem readFd_stores_all:
  assumes "buf_inv b"
  shows "readFd b (ReadvErr e) = Inr (-1, Some e, b) \<and>
    (length s \<le> writeableBytes b + extrabuf_size \<longrightarrow> length (content b) + 2 * length s \<le> buf_limit \<longrightarrow>
     (\<exists>b'. readFd b (ReadvOk s) = Inr (int (length s), None, b') \<and> buf_inv b' \<and>
        content b' = content b @ s))"
  using readFd_ok [OF assms] by (simp add: readFd_def)

theorem readFd_stores_all_witness:
  "\<exists>b'. readFd new_Buffer (ReadvOk (replicate 3000 (CHR ''x''))) = Inr (3000, None, b') \<and>
     content b' = replicate 3000 (CHR ''x'')"
  using readFd_stores_all [OF new_Buffer_inv, of 0 "replicate 3000 (CHR ''x'')"]
  by (simp add: extrabuf_size_def del: length_content) blast

text \<open>
  \<^verbatim>\<open>findCRLF\<close> finds the first CRLF of the readable bytes, and returns a null pointer exactly when
  there is none.
\<close>

theorem findCRLF_first:
  assumes "buf_inv b"
  shows "(\<exists>p. findCRLF b = Inr (Some p) \<and> readerIndex b \<le> p \<and> p + 2 \<le> writerIndex b \<and>
      is_prefix kCRLF (drop (p - readerIndex b) (content b)) \<and>
      (\<forall>i. i < p - readerIndex b \<longrightarrow> \<not> is_prefix kCRLF (drop i (content b)))) \<or>
    (findCRLF b = Inr None \<and> (\<forall>i. \<not> is_prefix kCRLF (drop i (content b))))"
proof (cases "std_search kCRLF (content b) = length (content b)")
  case True
  then show ?thesis
    using std_search_none [OF kCRLF_nonempty True] by (simp add: findCRLF_eq [OF assms])
next
  case False
  let ?k = "std_search kCRLF (content b)"
  from False have "?k < length (content b)" by (simp add: le_neq_implies_less)
  then have pre: "is_prefix kCRLF (drop ?k (content b))" by (rule std_search_found [OF kCRLF_nonempty])
  then have "?k + 2 \<le> length (content b)"
    by (auto simp: is_prefix_iff kCRLF_def dest!: arg_cong [where f = length])
  then have "readerIndex b + ?k + 2 \<le> writerIndex b"
    using readable_end [OF assms] by (simp add: assms)
  with False pre std_search_first show ?thesis by (auto simp: findCRLF_eq [OF assms])
qed

theorem findCRLF_first_witness:
  "\<exists>b p. buffer_append new_Buffer [CHR ''a'', CHR 0x0D, CHR 0x0A, CHR ''b''] = Inr b \<and>
     findCRLF b = Inr (Some p) \<and> is_prefix kCRLF (drop (p - readerIndex b) (content b))"
proof -
  let ?s = "[CHR ''a'', CHR 0x0D, CHR 0x0A, CHR ''b'']"
  obtain b where b: "buffer_append new_Buffer ?s = Inr b" "buf_inv b" "content b = ?s"
    using buffer_append_ok [OF new_Buffer_inv, of ?s] by auto
  have "is_prefix kCRLF (drop 1 (content b))" by (simp add: b(3) kCRLF_def)
  with findCRLF_first [OF b(2)] b(1) show ?thesis by blast
qed

text \<open>
  \<^verbatim>\<open>shrink\<close> keeps the readable bytes when the reader index is at its initial place. It does not
  reset the indices, so the result is a valid buffer only if the reader index is at most
  \<^verbatim>\<open>kCheapPrepend + reserve\<close>; past it the readable range lies outside the new vector.
\<close>

theorem shrink_keeps_indices:
  assumes inv: "buf_inv b" and room: "kCheapPrepend + readableBytes b + reserve \<le> vector_max"
  shows "\<exists>b'. shrink b reserve = Inr b' \<and>
    length (bytes b') = kCheapPrepend + readableBytes b + reserve \<and>
    (buf_inv b' \<longleftrightarrow> readerIndex b \<le> kCheapPrepend + reserve) \<and>
    (readerIndex b = kCheapPrepend \<longrightarrow> content b' = content b)"
proof -
  note bd = buf_inv_bounds [OF inv]
  let ?n = "kCheapPrepend + readableBytes b + reserve"
  let ?v = "overwrite (replicate ?n (CHR 0x00)) kCheapPrepend (content b)"
  let ?b = "b\<lparr>bytes := ?v\<rparr>"
  have add: "sz_add (sz_add kCheapPrepend (readableBytes b)) reserve = ?n"
    using room by (simp add: sz_add_exact)
  have lv: "length ?v = ?n" by (simp add: inv)
  have sh: "shrink b reserve = Inr ?b"
    using room by (simp add: shrink_def add vector_resize_def peek_def readable_end [OF inv]
        range_content [OF inv] copy_to_def inv)
  have "buf_inv ?b \<longleftrightarrow> readerIndex b \<le> kCheapPrepend + reserve"
    using bd lv room sizes_exact(1) [OF inv] by (auto simp: buf_inv_def)
  moreover have "content ?b = content b" if "readerIndex b = kCheapPrepend"
    using that bd by (intro contentI [where v = "replicate ?n (CHR 0x00)"])
      (simp_all add: overwrite_def inv sizes_exact)
  ultimately show ?thesis using sh lv by auto
qed

theorem shrink_keeps_indices_witness:
  "\<exists>b b'. rbind (buffer_append new_Buffer ''0123456789'') (\<lambda>b. retrieve b 9) = Inr b \<and> content b = ''9'' \<and>
     shrink b 0 = Inr b' \<and> \<not> buf_inv b'"
proof -
  let ?b = "new_Buffer\<lparr>bytes := overwrite (bytes new_Buffer) 8 ''0123456789'',
     readerIndex := 17, writerIndex := 18\<rparr>"
  have inv: "buf_inv ?b" by (simp add: buf_inv_def new_Buffer_def kdefs overwrite_def)
  have c: "content ?b = ''9''" by (simp add: content_def new_Buffer_def overwrite_def kdefs)
  have "rbind (buffer_append new_Buffer ''0123456789'') (\<lambda>b. retrieve b 9) = Inr ?b"
    by (simp add: buffer_append_def ensureWriteableBytes_def writeableBytes_def new_Buffer_def kdefs
        sz_sub_def sz_add_def copy_to_def beginWrite_def hasWritten_def retrieve_def readableBytes_def)
  moreover have "readableBytes ?b = 1" by (simp add: readableBytes_def sz_sub_def)
  ultimately show ?thesis
    using shrink_keeps_indices [OF inv, of 0] c by (auto simp: kCheapPrepend_def)
qed

end
