(* ===== verification/Sockets.thy ===== *)
theory Sockets
  imports Prelude
begin

text \<open>
  \<^verbatim>\<open>SocketsOps.hpp\<close>, \<^verbatim>\<open>SocketsOps.cpp\<close>, \<^verbatim>\<open>InetAddress.cpp\<close>, \<^verbatim>\<open>Socket.cpp\<close>: byte order conversions (the host is
  little-endian, as the x86-64 build is), IPv4 addresses and their text form, and the wrappers around
  system calls. The outcome of a system call is an argument of the wrapper; the wrapper decides what is
  an error, what is logged and what aborts the process.
\<close>

unbundle bit_operations_syntax

section \<open>Byte order\<close>

definition bswap16 :: "16 word \<Rightarrow> 16 word" where
  "bswap16 w = push_bit 8 w OR drop_bit 8 w"

definition bswap32 :: "32 word \<Rightarrow> 32 word" where
  "bswap32 w = push_bit 24 (take_bit 8 w) OR push_bit 16 (take_bit 8 (drop_bit 8 w)) OR
     push_bit 8 (take_bit 8 (drop_bit 16 w)) OR take_bit 8 (drop_bit 24 w)"

definition bswap64 :: "64 word \<Rightarrow> 64 word" where
  "bswap64 w = (let hi = ucast (drop_bit 32 w) :: 32 word; lo = ucast w :: 32 word
     in push_bit 32 (ucast (bswap32 lo)) OR ucast (bswap32 hi))"

definition hostToNetwork16 :: "16 word \<Rightarrow> 16 word" where "hostToNetwork16 = bswap16"
definition hostToNetwork32 :: "32 word \<Rightarrow> 32 word" where "hostToNetwork32 = bswap32"
definition hostToNetwork64 :: "64 word \<Rightarrow> 64 word" where "hostToNetwork64 = bswap64"
definition networkToHost16 :: "16 word \<Rightarrow> 16 word" where "networkToHost16 = bswap16"
definition networkToHost32 :: "32 word \<Rightarrow> 32 word" where "networkToHost32 = bswap32"
definition networkToHost64 :: "64 word \<Rightarrow> 64 word" where "networkToHost64 = bswap64"

locale byte_order =
  fixes hton :: "'w \<Rightarrow> 'w" and ntoh :: "'w \<Rightarrow> 'w"
  assumes ntoh_hton: "ntoh (hton w) = w" and hton_ntoh: "hton (ntoh w) = w"
begin

lemma hton_inject: "hton v = hton w \<longleftrightarrow> v = w"
  using ntoh_hton by metis

end

lemma high32 [simp]: "\<not> bit (x :: 32 word) (32 + n)" "\<not> bit (x :: 32 word) (n + 32)"
  using bit_imp_le_length [of x "32 + n"] bit_imp_le_length [of x "n + 32"] by auto

lemma bswap16_bswap16: "bswap16 (bswap16 w) = w"
  by (rule bit_word_eqI) (auto simp: bswap16_def bit_simps)

lemma bit_bswap32:
  "n < 8 \<Longrightarrow> bit (bswap32 w) n = bit w (n + 24)"
  "8 \<le> n \<Longrightarrow> n < 16 \<Longrightarrow> bit (bswap32 w) n = bit w (n + 8)"
  "16 \<le> n \<Longrightarrow> n < 24 \<Longrightarrow> bit (bswap32 w) n = bit w (n - 8)"
  "24 \<le> n \<Longrightarrow> n < 32 \<Longrightarrow> bit (bswap32 w) n = bit w (n - 24)"
  by (auto simp: bswap32_def bit_simps add.commute less_diff_conv2)

lemma bswap32_bswap32: "bswap32 (bswap32 w) = w"
proof (rule bit_word_eqI)
  fix n assume "n < LENGTH(32)"
  then consider "n < 8" | "8 \<le> n" "n < 16" | "16 \<le> n" "n < 24" | "24 \<le> n" "n < 32" by fastforce
  then show "bit (bswap32 (bswap32 w)) n = bit w n" by cases (simp_all add: bit_bswap32)
qed

lemma bswap64_bswap64: "bswap64 (bswap64 w) = w"
proof -
  let ?hi = "ucast (drop_bit 32 w) :: 32 word" and ?lo = "ucast w :: 32 word"
  have hi: "ucast (drop_bit 32 (bswap64 w)) = bswap32 ?lo" and lo: "ucast (bswap64 w) = bswap32 ?hi"
    by (rule bit_word_eqI, simp add: bswap64_def bit_simps Let_def)+
  have "push_bit 32 (ucast ?hi) OR ucast ?lo = w" by (rule bit_word_eqI) (auto simp: bit_simps)
  then show ?thesis
    by (subst bswap64_def) (simp add: hi lo bswap32_bswap32 Let_def)
qed

interpretation bo16: byte_order hostToNetwork16 networkToHost16
  by unfold_locales (simp_all add: hostToNetwork16_def networkToHost16_def bswap16_bswap16)

interpretation bo32: byte_order hostToNetwork32 networkToHost32
  by unfold_locales (simp_all add: hostToNetwork32_def networkToHost32_def bswap32_bswap32)

interpretation bo64: byte_order hostToNetwork64 networkToHost64
  by unfold_locales (simp_all add: hostToNetwork64_def networkToHost64_def bswap64_bswap64)

section \<open>Addresses\<close>

text \<open>\<^verbatim>\<open>struct sockaddr_in\<close>: port and address are kept in network byte order.\<close>

record sockaddr_in =
  sin_family :: nat
  sin_port :: "16 word"
  sin_addr :: "32 word"

definition AF_INET :: nat where "AF_INET = 2"
definition INET_ADDRSTRLEN :: nat where "INET_ADDRSTRLEN = 16"

definition zero_addr :: sockaddr_in where
  "zero_addr = \<lparr>sin_family = 0, sin_port = 0, sin_addr = 0\<rparr>"

text \<open>The four bytes of an address as they lie in memory, lowest address first.\<close>

definition addr_bytes :: "32 word \<Rightarrow> nat list" where
  "addr_bytes a = map (\<lambda>i. unat (take_bit 8 (drop_bit (8 * i) a))) [0, 1, 2, 3]"

definition bytes_addr :: "nat list \<Rightarrow> 32 word" where
  "bytes_addr bs = (case bs of [a, b, c, d] \<Rightarrow>
     word_of_nat a OR push_bit 8 (word_of_nat b) OR push_bit 16 (word_of_nat c) OR push_bit 24 (word_of_nat d) | _ \<Rightarrow> 0)"

text \<open>\<^verbatim>\<open>inet_ntop(AF_INET, ...)\<close>: dotted decimal, never longer than 15 characters.\<close>

definition inet_ntop4 :: "nat list \<Rightarrow> string" where
  "inet_ntop4 bs = (case bs of [a, b, c, d] \<Rightarrow>
     show_nat a @ ''.'' @ show_nat b @ ''.'' @ show_nat c @ ''.'' @ show_nat d | _ \<Rightarrow> [])"

text \<open>
  \<^verbatim>\<open>inet_pton(AF_INET, ...)\<close>: four decimal numbers of at most three digits up to 255, without superfluous
  leading zeros, separated by dots; \<open>None\<close> is the return value 0.
\<close>

definition is_digit :: "char \<Rightarrow> bool" where
  "is_digit c \<longleftrightarrow> 48 \<le> (of_char c :: nat) \<and> (of_char c :: nat) < 58"

fun inet_pton4 :: "string \<Rightarrow> nat list \<Rightarrow> nat option \<Rightarrow> nat list option" where
  "inet_pton4 [] done cur = (case cur of None \<Rightarrow> None | Some v \<Rightarrow> if length done = 3 then Some (done @ [v]) else None)"
| "inet_pton4 (c # cs) done cur =
    (if is_digit c then
       (case cur of
          None \<Rightarrow> inet_pton4 cs done (Some (of_char c - 48))
        | Some v \<Rightarrow> if v = 0 \<or> 255 < 10 * v + (of_char c - 48) then None
                    else inet_pton4 cs done (Some (10 * v + (of_char c - 48))))
     else if c = CHR ''.'' then
       (case cur of None \<Rightarrow> None | Some v \<Rightarrow> if length done = 3 then None else inet_pton4 cs (done @ [v]) None)
     else None)"

definition toHostPort :: "nat \<Rightarrow> sockaddr_in \<Rightarrow> string" where
  "toHostPort n addr =
    (let host = snprintf_out INET_ADDRSTRLEN (inet_ntop4 (addr_bytes (sin_addr addr)));
         port = networkToHost16 (sin_port addr)
     in snprintf_out n (host @ '':'' @ show_nat (unat port)))"

text \<open>\<^verbatim>\<open>fromHostPort\<close> logs an address it cannot parse and leaves \<^verbatim>\<open>sin_addr\<close> as it was.\<close>

definition fromHostPort :: "string \<Rightarrow> 16 word \<Rightarrow> sockaddr_in \<Rightarrow> sockaddr_in" where
  "fromHostPort ip port addr =
    (let addr = addr\<lparr>sin_family := AF_INET, sin_port := hostToNetwork16 port\<rparr> in
     case inet_pton4 ip [] None of Some bs \<Rightarrow> addr\<lparr>sin_addr := bytes_addr bs\<rparr> | None \<Rightarrow> addr)"

text \<open>\<^verbatim>\<open>InetAddress\<close>: its three constructors and \<^verbatim>\<open>toHostPort\<close> with its 32-byte buffer.\<close>

record InetAddress =
  ia_addr :: sockaddr_in

definition InetAddress_port :: "16 word \<Rightarrow> InetAddress" where
  "InetAddress_port port = \<lparr>ia_addr = zero_addr\<lparr>sin_family := AF_INET, sin_addr := hostToNetwork32 0,
     sin_port := hostToNetwork16 port\<rparr>\<rparr>"

definition InetAddress_ip :: "string \<Rightarrow> 16 word \<Rightarrow> InetAddress" where
  "InetAddress_ip ip port = \<lparr>ia_addr = fromHostPort ip port zero_addr\<rparr>"

definition InetAddress_of :: "sockaddr_in \<Rightarrow> InetAddress" where
  "InetAddress_of a = \<lparr>ia_addr = a\<rparr>"

definition InetAddress_toHostPort :: "InetAddress \<Rightarrow> string" where
  "InetAddress_toHostPort a = toHostPort 32 (ia_addr a)"

definition setSockAddrInet :: "sockaddr_in \<Rightarrow> InetAddress \<Rightarrow> InetAddress" where
  "setSockAddrInet a i = i\<lparr>ia_addr := a\<rparr>"

section \<open>System call wrappers\<close>

datatype errno =
    EAGAIN | EINPROGRESS | EINTR | EISCONN | EADDRINUSE | EADDRNOTAVAIL | ECONNREFUSED | ENETUNREACH
  | EACCES | EPERM | EAFNOSUPPORT | EALREADY | EBADF | EFAULT | ENOTSOCK | ECONNABORTED | EPROTO | EMFILE
  | EINVAL | ENFILE | ENOBUFS | ENOMEM | EOPNOTSUPP | EPIPE | ECONNRESET | ETIMEDOUT | EOTHER nat

definition EWOULDBLOCK :: errno where "EWOULDBLOCK = EAGAIN"

definition createNonblockingOrDie :: "int \<Rightarrow> int res" where
  "createNonblockingOrDie sockfd = guard (0 \<le> sockfd) (LogFatal ''sockets::createNonblockingOrDie'') (Inr sockfd)"

definition bindOrDie :: "int \<Rightarrow> unit res" where
  "bindOrDie ret = guard (0 \<le> ret) (LogFatal ''sockets::bindOrDie'') (Inr ())"

definition listenOrDie :: "int \<Rightarrow> unit res" where
  "listenOrDie ret = guard (0 \<le> ret) (LogFatal ''sockets::listenOrDie'') (Inr ())"

text \<open>\<^verbatim>\<open>accept4\<close> gives an error or a descriptor with the peer's address; some errors are ignored, the rest abort.\<close>

datatype accept_result = AcceptErr errno | AcceptOk int sockaddr_in

definition accept_ignores :: "errno \<Rightarrow> bool" where
  "accept_ignores e \<longleftrightarrow> e \<in> {EAGAIN, ECONNABORTED, EINTR, EPROTO, EPERM, EMFILE}"

definition sockets_accept :: "accept_result \<Rightarrow> sockaddr_in \<Rightarrow> (int \<times> sockaddr_in) res" where
  "sockets_accept r addr = (case r of
     AcceptOk connfd peer \<Rightarrow> Inr (connfd, peer)
   | AcceptErr e \<Rightarrow> if accept_ignores e then Inr (- 1, addr) else Inl (LogFatal ''unexpected error of ::accept''))"

text \<open>\<^verbatim>\<open>getsockopt(SO_ERROR)\<close>: an error of the call, or the pending error of the socket (\<open>None\<close> is 0).\<close>

datatype sockopt_result = OptErr errno | OptVal "errno option"

definition getSocketError :: "sockopt_result \<Rightarrow> errno option" where
  "getSocketError r = (case r of OptErr e \<Rightarrow> Some e | OptVal optval \<Rightarrow> optval)"

text \<open>\<^verbatim>\<open>getsockname\<close> and \<^verbatim>\<open>getpeername\<close> fail (\<open>None\<close>) or fill in an address; a failure is logged and leaves zeros.\<close>

definition getLocalAddr :: "sockaddr_in option \<Rightarrow> sockaddr_in" where
  "getLocalAddr r = (case r of None \<Rightarrow> zero_addr | Some a \<Rightarrow> a)"

definition getPeerAddr :: "sockaddr_in option \<Rightarrow> sockaddr_in" where
  "getPeerAddr r = (case r of None \<Rightarrow> zero_addr | Some a \<Rightarrow> a)"

definition isSelfConnect :: "sockaddr_in option \<Rightarrow> sockaddr_in option \<Rightarrow> bool" where
  "isSelfConnect sockname peername =
    (let localaddr = getLocalAddr sockname; peeraddr = getPeerAddr peername
     in sin_port localaddr = sin_port peeraddr \<and> sin_addr localaddr = sin_addr peeraddr)"

text \<open>\<^verbatim>\<open>write(2)\<close> on a nonblocking socket: an error, or how many bytes of the data the kernel took.\<close>

datatype write_result = WriteErr errno | WriteN nat

definition Socket_bindAddress :: "int \<Rightarrow> unit res" where "Socket_bindAddress ret = bindOrDie ret"

definition Socket_listen :: "int \<Rightarrow> unit res" where "Socket_listen ret = listenOrDie ret"

definition Socket_accept :: "accept_result \<Rightarrow> InetAddress \<Rightarrow> (int \<times> InetAddress) res" where
  "Socket_accept r peeraddr =
    rbind (sockets_accept r zero_addr) (\<lambda>(connfd, addr).
    Inr (connfd, if 0 \<le> connfd then setSockAddrInet addr peeraddr else peeraddr))"

section \<open>Text form of addresses\<close>

lemma unat_take_bit8: "unat (take_bit 8 (x :: 32 word)) < 256"
  using take_bit_nat_less_exp [of 8 "unat x"] by (simp add: unsigned_take_bit_eq)

lemma addr_bytes_simp:
  "addr_bytes a = [unat (take_bit 8 a), unat (take_bit 8 (drop_bit 8 a)), unat (take_bit 8 (drop_bit 16 a)),
    unat (take_bit 8 (drop_bit 24 a))]"
  by (simp add: addr_bytes_def)

lemma bytes_addr_bytes: "bytes_addr (addr_bytes a) = a"
  unfolding bytes_addr_def addr_bytes_simp list.case
proof (rule bit_word_eqI)
  fix n assume "n < LENGTH(32)"
  then consider "n < 8" | "8 \<le> n" "n < 16" | "16 \<le> n" "n < 24" | "24 \<le> n" "n < 32" by fastforce
  then show "bit (word_of_nat (unat (take_bit 8 a)) OR push_bit 8 (word_of_nat (unat (take_bit 8 (drop_bit 8 a)))) OR
      push_bit 16 (word_of_nat (unat (take_bit 8 (drop_bit 16 a)))) OR
      push_bit 24 (word_of_nat (unat (take_bit 8 (drop_bit 24 a)))) :: 32 word) n = bit a n"
    by cases (auto simp: bit_simps less_diff_conv2)
qed

lemma is_digit_digit_char [simp]: "d < 10 \<Longrightarrow> is_digit (digit_char d)"
  by (simp add: is_digit_def)

lemma show_nat_byte:
  assumes "v < 256"
  shows "show_nat v = (if v < 10 then [digit_char v]
    else if v < 100 then [digit_char (v div 10), digit_char (v mod 10)]
    else [digit_char (v div 100), digit_char (v div 10 mod 10), digit_char (v mod 10)])"
  using assms by (simp add: div_mult2_eq [symmetric])

lemma pton_digits:
  assumes "v < 256"
  shows "inet_pton4 (show_nat v @ cs) done None = inet_pton4 cs done (Some v)"
proof -
  consider "v < 10" | "10 \<le> v" "v < 100" | "100 \<le> v" by linarith
  then show ?thesis
  proof cases
    case 1
    then show ?thesis by (simp add: show_nat_byte assms)
  next
    case 2
    moreover from 2 have "v div 10 < 10" "v div 10 \<noteq> 0" by auto
    moreover have "10 * (v div 10) + v mod 10 = v" by simp
    ultimately show ?thesis using assms by (simp add: show_nat_byte)
  next
    case 3
    define x y z where "x = v div 100" and "y = v div 10 mod 10" and "z = v mod 10"
    have "v div 100 = v div 10 div 10" using div_mult2_eq [of v 10 10] by simp
    then have "10 * x + y = v div 10" by (simp add: x_def y_def)
    then have v: "v = 10 * (10 * x + y) + z" by (simp add: z_def)
    have digits: "x < 10" "x \<noteq> 0" "y < 10" "z < 10" using 3 assms unfolding x_def y_def z_def by auto
    have sn: "show_nat v = [digit_char x, digit_char y, digit_char z]"
      unfolding x_def y_def z_def by (subst show_nat_byte [OF assms]) (use 3 in simp)
    have "10 * x + y \<le> 255" "10 * (10 * x + y) + z \<le> 255" using assms v by simp_all
    with digits have "inet_pton4 ([digit_char x, digit_char y, digit_char z] @ cs) done None =
        inet_pton4 cs done (Some (10 * (10 * x + y) + z))" by simp
    then show ?thesis unfolding sn v [symmetric] .
  qed
qed

lemma pton_dot: "length done < 3 \<Longrightarrow> inet_pton4 (CHR ''.'' # cs) done (Some v) = inet_pton4 cs (done @ [v]) None"
  by (simp add: is_digit_def)

lemma pton_ntop: "\<forall>v \<in> {a, b, c, d}. v < 256 \<Longrightarrow> inet_pton4 (inet_ntop4 [a, b, c, d]) [] None = Some [a, b, c, d]"
  using pton_digits [of d "[]"] by (simp add: inet_ntop4_def pton_digits pton_dot del: inet_pton4.simps(2))

lemma length_show_byte: "v < 256 \<Longrightarrow> length (show_nat v) \<le> 3"
  using length_show_nat_le [of v 2] by simp

lemma toHostPort_full:
  assumes "22 \<le> n"
  shows "toHostPort n a = inet_ntop4 (addr_bytes (sin_addr a)) @ '':'' @ show_nat (unat (networkToHost16 (sin_port a)))"
proof -
  let ?host = "inet_ntop4 (addr_bytes (sin_addr a))" and ?port = "show_nat (unat (networkToHost16 (sin_port a)))"
  have "length (show_nat (unat (take_bit 8 x))) \<le> 3" for x :: "32 word"
    by (rule length_show_byte) (rule unat_take_bit8)
  note l = this [of "sin_addr a"] this [of "drop_bit 8 (sin_addr a)"] this [of "drop_bit 16 (sin_addr a)"]
    this [of "drop_bit 24 (sin_addr a)"]
  have host: "length ?host \<le> 15" using l by (simp add: inet_ntop4_def addr_bytes_simp)
  have "unat (networkToHost16 (sin_port a)) < 2 ^ LENGTH(16)" by (rule unsigned_less)
  then have "length ?port \<le> 5" using length_show_nat_le [of _ 4] by simp
  with host assms show ?thesis
    by (simp add: toHostPort_def snprintf_out_fits INET_ADDRSTRLEN_def)
qed

text \<open>
  C34: The text form of an address is complete and readable back: \<^verbatim>\<open>toHostPort\<close> is the dotted address, a colon
  and the port, never cut off by its 32-byte buffer; the address built from those parts is the same
  address, whatever the byte order conversions do in between.
\<close>

theorem host_port_roundtrip:
  assumes "sin_family (ia_addr i) = AF_INET"
  shows "\<exists>ip port. InetAddress_toHostPort i = ip @ '':'' @ show_nat (unat port) \<and> InetAddress_ip ip port = i"
proof -
  let ?a = "ia_addr i"
  let ?bs = "addr_bytes (sin_addr ?a)"
  have "inet_pton4 (inet_ntop4 ?bs) [] None = Some ?bs"
    unfolding addr_bytes_simp by (intro pton_ntop) (simp add: unat_take_bit8)
  then have "InetAddress_ip (inet_ntop4 ?bs) (networkToHost16 (sin_port ?a)) = i"
    using assms by (simp add: InetAddress_ip_def fromHostPort_def bytes_addr_bytes bo16.hton_ntoh zero_addr_def)
  then show ?thesis
    using toHostPort_full [of 32 ?a] by (auto simp: InetAddress_toHostPort_def)
qed

theorem host_port_roundtrip_witness:
  "\<exists>ip port. InetAddress_toHostPort (InetAddress_port 80) = ip @ '':'' @ show_nat (unat port) \<and>
    InetAddress_ip ip port = InetAddress_port 80"
  by (rule host_port_roundtrip) (simp add: InetAddress_port_def)

end
