(* ===== verification/TcpConnection.thy ===== *)
theory TcpConnection
  imports Buffer Pollers Sockets
begin

text \<open>
  \<^verbatim>\<open>TcpConnection\<close> (\<^verbatim>\<open>src/src/TcpConnection.hpp\<close>, \<^verbatim>\<open>TcpConnection.cpp\<close>) with the poller of its loop, its channel on
  the poller's heap and the functors it has queued in the loop. \<open>tc_wire\<close> is what the kernel has taken from
  \<^verbatim>\<open>write\<close>, \<open>tc_shutdown\<close> whether the write side was shut down, \<open>tc_closeCalls\<close> how often the owner's close callback was
  called, which owners carry out, as often as it was called, when the handler returns. The client's callbacks are a record of
  functions, \<open>None\<close> for an empty \<^verbatim>\<open>std::function\<close>, whose call throws. Outcomes of system calls and whether the
  caller is in the loop's thread are arguments.
\<close>

section \<open>Model\<close>

datatype conn_state = kConnecting | kConnected | kDisconnecting | kDisconnected

text \<open>
  Callbacks stored in the channels of a loop: the four of a connection, the two of a \<^verbatim>\<open>Connector\<close>, the one of an
  \<^verbatim>\<open>Acceptor\<close>, and those of other channels.
\<close>

datatype loop_cb = CbRead | CbWrite | CbClose | CbError | CbConnectorWrite | CbConnectorError | CbAccept | CbOther nat

datatype conn_fn =
    FSendInLoop string
  | FShutdownInLoop
  | FWriteComplete
  | FHighWaterMark nat
  | FConnectDestroyed

record 'ctx tcp_conn =
  tc_name :: string
  tc_state :: conn_state
  tc_fd :: int
  tc_channel :: nat
  tc_localAddr :: InetAddress
  tc_peerAddr :: InetAddress
  tc_highWaterMark :: size_t
  tc_input :: buffer
  tc_output :: buffer
  tc_context :: "'ctx option"
  tc_poller :: "loop_cb epoller"
  tc_pending :: "conn_fn list"
  tc_wire :: string
  tc_shutdown :: bool
  tc_closeCalls :: nat

type_synonym 'ctx conn_fun = "'ctx tcp_conn \<Rightarrow> 'ctx tcp_conn res"

record 'ctx conn_callbacks =
  cb_connection :: "'ctx conn_fun option"
  cb_message :: "(time_point \<Rightarrow> 'ctx conn_fun) option"
  cb_writeComplete :: "'ctx conn_fun option"
  cb_close :: "'ctx conn_fun option"
  cb_highWaterMark :: "(nat \<Rightarrow> 'ctx conn_fun) option"

definition call_function :: "'f option \<Rightarrow> ('f \<Rightarrow> 'a res) \<Rightarrow> 'a res" where
  "call_function f k = (case f of None \<Rightarrow> Inl (StdException ''std::bad_function_call'') | Some g \<Rightarrow> k g)"

definition no_callbacks :: "'ctx conn_callbacks" where
  "no_callbacks = \<lparr>cb_connection = None, cb_message = None, cb_writeComplete = None, cb_close = None, cb_highWaterMark = None\<rparr>"

definition setConnectionCallback :: "'ctx conn_fun \<Rightarrow> 'ctx conn_callbacks \<Rightarrow> 'ctx conn_callbacks" where
  "setConnectionCallback f k = k\<lparr>cb_connection := Some f\<rparr>"

definition setMessageCallback :: "(time_point \<Rightarrow> 'ctx conn_fun) \<Rightarrow> 'ctx conn_callbacks \<Rightarrow> 'ctx conn_callbacks" where
  "setMessageCallback f k = k\<lparr>cb_message := Some f\<rparr>"

definition setWriteCompleteCallback :: "'ctx conn_fun \<Rightarrow> 'ctx conn_callbacks \<Rightarrow> 'ctx conn_callbacks" where
  "setWriteCompleteCallback f k = k\<lparr>cb_writeComplete := Some f\<rparr>"

definition conn_setCloseCallback :: "'ctx conn_fun \<Rightarrow> 'ctx conn_callbacks \<Rightarrow> 'ctx conn_callbacks" where
  "conn_setCloseCallback f k = k\<lparr>cb_close := Some f\<rparr>"

definition setHighWaterMarkCallback :: "(nat \<Rightarrow> 'ctx conn_fun) \<Rightarrow> 'ctx conn_callbacks \<Rightarrow> 'ctx conn_callbacks" where
  "setHighWaterMarkCallback f k = k\<lparr>cb_highWaterMark := Some f\<rparr>"

text \<open>
  The constructor: the channel is created at \<open>p\<close> of the poller's heap; \<^verbatim>\<open>highWaterMark_\<close> is not initialised,
  \<open>hwm\<close> is what it happens to hold.
\<close>

definition new_TcpConnection ::
  "string \<Rightarrow> int \<Rightarrow> nat \<Rightarrow> InetAddress \<Rightarrow> InetAddress \<Rightarrow> size_t \<Rightarrow> loop_cb epoller \<Rightarrow> 'ctx tcp_conn" where
  "new_TcpConnection name sockfd p localAddr peerAddr hwm w =
    \<lparr>tc_name = name, tc_state = kConnecting, tc_fd = sockfd, tc_channel = p, tc_localAddr = localAddr,
     tc_peerAddr = peerAddr, tc_highWaterMark = hwm, tc_input = new_Buffer, tc_output = new_Buffer, tc_context = None,
     tc_poller = ep_put p (setErrorCallback CbError (setCloseCallback CbClose (setWriteCallback CbWrite
       (setReadCallback CbRead (new_Channel sockfd))))) w,
     tc_pending = [], tc_wire = [], tc_shutdown = False, tc_closeCalls = 0\<rparr>"

definition connected :: "'ctx tcp_conn \<Rightarrow> bool" where "connected c \<longleftrightarrow> tc_state c = kConnected"

definition disconnected :: "'ctx tcp_conn \<Rightarrow> bool" where "disconnected c \<longleftrightarrow> tc_state c = kDisconnected"

definition setState :: "conn_state \<Rightarrow> 'ctx tcp_conn \<Rightarrow> 'ctx tcp_conn" where
  "setState s c = c\<lparr>tc_state := s\<rparr>"

definition setContext :: "'ctx \<Rightarrow> 'ctx tcp_conn \<Rightarrow> 'ctx tcp_conn" where
  "setContext x c = c\<lparr>tc_context := Some x\<rparr>"

definition tc_chan :: "'ctx tcp_conn \<Rightarrow> loop_cb channel res" where
  "tc_chan c = ep_chan (tc_poller c) (tc_channel c)"

definition tc_set_events :: "bool \<Rightarrow> (flags \<Rightarrow> flags) \<Rightarrow> 'ctx tcp_conn \<Rightarrow> 'ctx tcp_conn res" where
  "tc_set_events il f c =
    rbind (ep_set_events il f (tc_channel c) (tc_poller c)) (\<lambda>w. Inr (c\<lparr>tc_poller := w\<rparr>))"

definition tc_queue :: "conn_fn \<Rightarrow> 'ctx tcp_conn \<Rightarrow> 'ctx tcp_conn" where
  "tc_queue f c = c\<lparr>tc_pending := tc_pending c @ [f]\<rparr>"

definition queue_writeComplete :: "'ctx conn_callbacks \<Rightarrow> 'ctx tcp_conn \<Rightarrow> 'ctx tcp_conn" where
  "queue_writeComplete k c = (if cb_writeComplete k = None then c else tc_queue FWriteComplete c)"

text \<open>\<^verbatim>\<open>write\<close> to the socket when the kernel has room for \<open>n\<close> bytes, or fails: the count or -1, and \<^verbatim>\<open>errno\<close>.\<close>

definition tc_write :: "write_result \<Rightarrow> string \<Rightarrow> 'ctx tcp_conn \<Rightarrow> int \<times> errno option \<times> 'ctx tcp_conn" where
  "tc_write r data c = (case r of
     WriteErr e \<Rightarrow> (- 1, Some e, c)
   | WriteN n \<Rightarrow> (int (min n (length data)), None, c\<lparr>tc_wire := tc_wire c @ take n data\<rparr>))"

definition append_output :: "bool \<Rightarrow> string \<Rightarrow> 'ctx tcp_conn \<Rightarrow> 'ctx tcp_conn res" where
  "append_output il data c =
    rbind (buffer_append (tc_output c) data) (\<lambda>b.
    let c = c\<lparr>tc_output := b\<rparr> in
    rbind (tc_chan c) (\<lambda>ch. if \<not> isWriting ch then tc_set_events il ev_enableWriting c else Inr c))"

definition sendInLoop :: "'ctx conn_callbacks \<Rightarrow> bool \<Rightarrow> write_result \<Rightarrow> string \<Rightarrow> 'ctx tcp_conn \<Rightarrow> 'ctx tcp_conn res" where
  "sendInLoop k il r message c =
    assertInLoopThread il
   (rbind (tc_chan c) (\<lambda>ch.
    let (nwrote, c) =
      (if \<not> isWriting ch \<and> readableBytes (tc_output c) = 0 then
         let (n, err, c) = tc_write r message c in
         if 0 \<le> n then (n, if n < int (length message) then c else queue_writeComplete k c) else (0, c)
       else (0, c))
    in guard (0 \<le> nwrote) (AssertFail ''nwrote >= 0'')
      (if nwrote < int (length message) then append_output il (drop (nat nwrote) message) c else Inr c)))"

definition queue_highWaterMark :: "'ctx conn_callbacks \<Rightarrow> size_t \<Rightarrow> 'ctx tcp_conn \<Rightarrow> 'ctx tcp_conn" where
  "queue_highWaterMark k remaining c =
    (let oldLen = readableBytes (tc_output c) in
     if tc_highWaterMark c \<le> sz_add oldLen remaining \<and> oldLen < tc_highWaterMark c \<and> cb_highWaterMark k \<noteq> None
     then tc_queue (FHighWaterMark (sz_add oldLen remaining)) c else c)"

definition sendInLoop_buf :: "'ctx conn_callbacks \<Rightarrow> bool \<Rightarrow> write_result \<Rightarrow> string \<Rightarrow> 'ctx tcp_conn \<Rightarrow> 'ctx tcp_conn res" where
  "sendInLoop_buf k il r data c =
    assertInLoopThread il
   (if tc_state c = kDisconnected then Inr c
    else rbind (tc_chan c) (\<lambda>ch.
    let len = length data;
        (nwrote, remaining, faultError, c) =
      (if \<not> isWriting ch \<and> readableBytes (tc_output c) = 0 then
         let (n, err, c) = tc_write r data c in
         if 0 \<le> n then
           (let remaining = sz_sub len (nat n) in
            (n, remaining, False, if remaining = 0 then queue_writeComplete k c else c))
         else (0, len, err \<noteq> Some EWOULDBLOCK \<and> (err = Some EPIPE \<or> err = Some ECONNRESET), c)
       else (0, len, False, c))
    in guard (remaining \<le> len) (AssertFail ''remaining <= len'')
      (if \<not> faultError \<and> 0 < remaining then
         append_output il (take remaining (drop (nat nwrote) data)) (queue_highWaterMark k remaining c)
       else Inr c)))"

definition shutdownInLoop :: "bool \<Rightarrow> 'ctx tcp_conn \<Rightarrow> 'ctx tcp_conn res" where
  "shutdownInLoop il c =
    assertInLoopThread il
   (rbind (tc_chan c) (\<lambda>ch. Inr (if isWriting ch then c else c\<lparr>tc_shutdown := True\<rparr>)))"

definition send :: "'ctx conn_callbacks \<Rightarrow> bool \<Rightarrow> write_result \<Rightarrow> string \<Rightarrow> 'ctx tcp_conn \<Rightarrow> 'ctx tcp_conn res" where
  "send k il r message c =
    (if tc_state c = kConnected then
       if il then sendInLoop k il r message c else Inr (tc_queue (FSendInLoop message) c)
     else Inr c)"

text \<open>\<^verbatim>\<open>send(Buffer *)\<close> from another thread does nothing.\<close>

definition send_buffer ::
  "'ctx conn_callbacks \<Rightarrow> bool \<Rightarrow> write_result \<Rightarrow> buffer \<Rightarrow> 'ctx tcp_conn \<Rightarrow> (buffer \<times> 'ctx tcp_conn) res" where
  "send_buffer k il r buf c =
    (if tc_state c = kConnected \<and> il then
       rbind (range_of (bytes buf) (peek buf) (peek buf + readableBytes buf)) (\<lambda>data.
       rbind (sendInLoop_buf k il r data c) (\<lambda>c. Inr (retrieveAll buf, c)))
     else Inr (buf, c))"

definition conn_shutdown :: "bool \<Rightarrow> 'ctx tcp_conn \<Rightarrow> 'ctx tcp_conn res" where
  "conn_shutdown il c =
    (if tc_state c = kConnected then
       (let c = setState kDisconnecting c in
        if il then shutdownInLoop il c else Inr (tc_queue FShutdownInLoop c))
     else Inr c)"

definition connectEstablished :: "'ctx conn_callbacks \<Rightarrow> bool \<Rightarrow> 'ctx tcp_conn \<Rightarrow> 'ctx tcp_conn res" where
  "connectEstablished k il c =
    assertInLoopThread il
   (guard (tc_state c = kConnecting) (AssertFail ''state_ == kConnecting'')
   (rbind (tc_set_events il ev_enableReading (setState kConnected c)) (\<lambda>c.
    call_function (cb_connection k) (\<lambda>f. f c))))"

definition conn_open :: "'ctx tcp_conn \<Rightarrow> bool" where
  "conn_open c \<longleftrightarrow> tc_state c = kConnected \<or> tc_state c = kDisconnecting"

definition connectDestroyed :: "'ctx conn_callbacks \<Rightarrow> bool \<Rightarrow> 'ctx tcp_conn \<Rightarrow> 'ctx tcp_conn res" where
  "connectDestroyed k il c =
    assertInLoopThread il
   (guard (conn_open c) (AssertFail ''state_ == kConnected || state_ == kDisconnecting'')
   (rbind (tc_set_events il ev_disableAll (setState kDisconnected c)) (\<lambda>c.
    rbind (call_function (cb_connection k) (\<lambda>f. f c)) (\<lambda>c.
    rbind (ep_removeChannel il (tc_channel c) (tc_poller c)) (\<lambda>w. Inr (c\<lparr>tc_poller := w\<rparr>))))))"

definition handleClose :: "'ctx conn_callbacks \<Rightarrow> bool \<Rightarrow> 'ctx tcp_conn \<Rightarrow> 'ctx tcp_conn res" where
  "handleClose k il c =
    assertInLoopThread il
   (guard (conn_open c) (AssertFail ''state_ == kConnected || state_ == kDisconnecting'')
   (rbind (tc_set_events il ev_disableAll c) (\<lambda>c. call_function (cb_close k) (\<lambda>f. f c))))"

text \<open>\<^verbatim>\<open>handleError\<close> only logs the pending error of the socket.\<close>

definition handleError :: "'ctx tcp_conn \<Rightarrow> 'ctx tcp_conn res" where
  "handleError c = rbind (tc_chan c) (\<lambda>ch. Inr c)"

definition handleRead :: "'ctx conn_callbacks \<Rightarrow> bool \<Rightarrow> readv_result \<Rightarrow> time_point \<Rightarrow> 'ctx tcp_conn \<Rightarrow> 'ctx tcp_conn res" where
  "handleRead k il r receiveTime c =
    rbind (readFd (tc_input c) r) (\<lambda>(n, savedErrno, b).
    let c = c\<lparr>tc_input := b\<rparr> in
    if 0 < n then call_function (cb_message k) (\<lambda>f. f receiveTime c)
    else if n = 0 then handleClose k il c
    else handleError c)"

definition handleWrite :: "'ctx conn_callbacks \<Rightarrow> bool \<Rightarrow> write_result \<Rightarrow> 'ctx tcp_conn \<Rightarrow> 'ctx tcp_conn res" where
  "handleWrite k il r c =
    assertInLoopThread il
   (rbind (tc_chan c) (\<lambda>ch.
    if isWriting ch then
      rbind (range_of (bytes (tc_output c)) (peek (tc_output c)) (peek (tc_output c) + readableBytes (tc_output c))) (\<lambda>data.
      let (n, err, c) = tc_write r data c in
      if 0 < n then
        rbind (retrieve (tc_output c) (nat n)) (\<lambda>b.
        let c = c\<lparr>tc_output := b\<rparr> in
        if readableBytes b = 0 then
          rbind (tc_set_events il ev_disableWriting c) (\<lambda>c.
          let c = queue_writeComplete k c in
          if tc_state c = kDisconnecting then shutdownInLoop il c else Inr c)
        else Inr c)
      else Inr c)
    else Inr c))"

text \<open>A queued functor, run by the loop.\<close>

definition run_conn_fn :: "'ctx conn_callbacks \<Rightarrow> write_result \<Rightarrow> conn_fn \<Rightarrow> 'ctx tcp_conn \<Rightarrow> 'ctx tcp_conn res" where
  "run_conn_fn k r f c = (case f of
     FSendInLoop m \<Rightarrow> sendInLoop k True r m c
   | FShutdownInLoop \<Rightarrow> shutdownInLoop True c
   | FWriteComplete \<Rightarrow> call_function (cb_writeComplete k) (\<lambda>g. g c)
   | FHighWaterMark n \<Rightarrow> call_function (cb_highWaterMark k) (\<lambda>g. g n c)
   | FConnectDestroyed \<Rightarrow> connectDestroyed k True c)"

definition defaultConnectionCallback :: "'ctx conn_fun" where
  "defaultConnectionCallback c = Inr c"

definition defaultMessageCallback :: "time_point \<Rightarrow> 'ctx conn_fun" where
  "defaultMessageCallback t c = Inr (c\<lparr>tc_input := retrieveAll (tc_input c)\<rparr>)"

section \<open>Invariant\<close>

text \<open>
  A connection whose channel is registered: interest in writing exactly while there is output left.
  \<open>stream\<close> is everything accepted so far: what the kernel has taken and what is still buffered.
\<close>

definition conn_inv :: "'ctx tcp_conn \<Rightarrow> bool" where
  "conn_inv c \<longleftrightarrow> ep_inv (tc_poller c) \<and> buf_inv (tc_output c) \<and> buf_inv (tc_input c) \<and>
    ep_channels (tc_poller c) (tc_fd c) = Some (tc_channel c) \<and>
    (\<exists>ch. ep_heap (tc_poller c) (tc_channel c) = Some ch \<and> ch_fd ch = tc_fd c \<and>
      (isWriting ch \<longleftrightarrow> content (tc_output c) \<noteq> []))"

definition stream :: "'ctx tcp_conn \<Rightarrow> string" where
  "stream c = tc_wire c @ content (tc_output c)"

lemma conn_invE:
  assumes "conn_inv c"
  obtains ch where "ep_inv (tc_poller c)" "buf_inv (tc_output c)" "buf_inv (tc_input c)"
    "ep_channels (tc_poller c) (tc_fd c) = Some (tc_channel c)" "ep_heap (tc_poller c) (tc_channel c) = Some ch"
    "ch_fd ch = tc_fd c" "isWriting ch \<longleftrightarrow> content (tc_output c) \<noteq> []" "tc_chan c = Inr ch"
  using assms unfolding conn_inv_def by (auto simp: tc_chan_def ep_chan_def)

lemma isWriting_events:
  "ch_events ch = ev_enableWriting e \<Longrightarrow> isWriting ch"
  "ch_events ch = ev_disableWriting e \<Longrightarrow> \<not> isWriting ch"
  "ch_events ch = ev_disableAll e \<Longrightarrow> \<not> isWriting ch"
  by (simp_all add: isWriting_iff ev_defs bit_or_iff bit_and_iff bit_not_iff)

text \<open>
  What an operation on a connection leaves alone: its identity, its context and input, and everything of the poller
  that belongs to other channels.
\<close>

definition poller_frame :: "nat \<Rightarrow> int \<Rightarrow> 'cb epoller \<Rightarrow> 'cb epoller \<Rightarrow> bool" where
  "poller_frame p fd w w' \<longleftrightarrow> (\<forall>q. q \<noteq> p \<longrightarrow> ep_heap w' q = ep_heap w q) \<and> (\<forall>g. g \<noteq> fd \<longrightarrow> ep_channels w' g = ep_channels w g)"

definition keeps_hooks :: "nat \<Rightarrow> 'cb epoller \<Rightarrow> 'cb epoller \<Rightarrow> bool" where
  "keeps_hooks p w w' \<longleftrightarrow> (\<forall>ch. ep_heap w p = Some ch \<longrightarrow> (\<exists>ch'. ep_heap w' p = Some ch' \<and> same_hooks ch' ch))"

lemma keeps_hooks_refl [simp]: "keeps_hooks p w w"
  by (simp add: keeps_hooks_def same_hooks_def)

lemma keeps_hooks_trans: "keeps_hooks p w w' \<Longrightarrow> keeps_hooks p w' w'' \<Longrightarrow> keeps_hooks p w w''"
  by (fastforce simp: keeps_hooks_def same_hooks_def)

definition same_place :: "'ctx tcp_conn \<Rightarrow> 'ctx tcp_conn \<Rightarrow> bool" where
  "same_place c d \<longleftrightarrow> tc_name c = tc_name d \<and> tc_fd c = tc_fd d \<and> tc_channel c = tc_channel d \<and>
    poller_frame (tc_channel d) (tc_fd d) (tc_poller d) (tc_poller c) \<and> keeps_hooks (tc_channel d) (tc_poller d) (tc_poller c)"

definition same_spot :: "'ctx tcp_conn \<Rightarrow> 'ctx tcp_conn \<Rightarrow> bool" where
  "same_spot c d \<longleftrightarrow> tc_name c = tc_name d \<and> tc_fd c = tc_fd d \<and> tc_channel c = tc_channel d \<and>
    poller_frame (tc_channel d) (tc_fd d) (tc_poller d) (tc_poller c)"

lemma same_place_spot: "same_place c d \<Longrightarrow> same_spot c d"
  by (simp add: same_place_def same_spot_def)

lemma same_spot_trans: "same_spot e d \<Longrightarrow> same_spot d c \<Longrightarrow> same_spot e c"
  by (simp add: same_spot_def poller_frame_def)

definition same_conn :: "'ctx tcp_conn \<Rightarrow> 'ctx tcp_conn \<Rightarrow> bool" where
  "same_conn c d \<longleftrightarrow> same_place c d \<and> tc_state c = tc_state d \<and> tc_shutdown c = tc_shutdown d \<and>
    tc_context c = tc_context d \<and> tc_input c = tc_input d \<and> tc_closeCalls c = tc_closeCalls d"

definition quiet :: "'ctx conn_callbacks \<Rightarrow> bool" where
  "quiet k \<longleftrightarrow> cb_writeComplete k = None \<and> cb_highWaterMark k = None"

lemmas same_defs = same_place_def poller_frame_def
lemmas same_conn_defs = same_conn_def same_defs

lemma same_place_refl [simp]: "same_place c c"
  by (simp add: same_defs)

lemma same_place_trans: "same_place e d \<Longrightarrow> same_place d c \<Longrightarrow> same_place e c"
  using keeps_hooks_trans [of "tc_channel c" "tc_poller c" "tc_poller d" "tc_poller e"] by (simp add: same_defs)

lemma same_conn_trans: "same_conn e d \<Longrightarrow> same_conn d c \<Longrightarrow> same_conn e c"
  using same_place_trans [of e d c] by (simp add: same_conn_def)

text \<open>Setting the interest of the channel of a connection, as the poller contract promises it.\<close>

lemma tc_set_events_ok:
  assumes "ep_inv (tc_poller c)" and "ep_heap (tc_poller c) (tc_channel c) = Some ch" and "ch_fd ch = tc_fd c"
    and "ep_channels (tc_poller c) (tc_fd c) = None \<or> ep_channels (tc_poller c) (tc_fd c) = Some (tc_channel c)"
  obtains w ch' where "tc_set_events True f c = Inr (c\<lparr>tc_poller := w\<rparr>)" "ep_inv w"
    "ep_heap w (tc_channel c) = Some ch'" "ch_fd ch' = tc_fd c" "ch_events ch' = f (ch_events ch)" "same_hooks ch' ch"
    "ep_channels w = (ep_channels (tc_poller c))(tc_fd c \<mapsto> tc_channel c)"
    "poller_frame (tc_channel c) (tc_fd c) (tc_poller c) w" "keeps_hooks (tc_channel c) (tc_poller c) w"
proof -
  have "ep_can_set (tc_poller c) (tc_channel c) (f (ch_events ch))"
    using assms by (auto simp: ep_can_set_def)
  from epc.set_law [of "tc_poller c" "tc_channel c" ch f, OF assms(1,2) this] obtain w ch' where
    w: "ep_set_events True f (tc_channel c) (tc_poller c) = Inr w" "ep_inv w" "ep_channels w = (ep_channels (tc_poller c))(ch_fd ch \<mapsto> tc_channel c)"
      "ep_heap w = (ep_heap (tc_poller c))(tc_channel c \<mapsto> ch')" "ch_fd ch' = ch_fd ch" "ch_events ch' = f (ch_events ch)" "same_hooks ch' ch"
    by blast
  then have "poller_frame (tc_channel c) (tc_fd c) (tc_poller c) w" "keeps_hooks (tc_channel c) (tc_poller c) w"
    using assms(2,3) by (simp_all add: poller_frame_def keeps_hooks_def)
  with w assms(3) that show thesis by (simp add: tc_set_events_def)
qed

lemma queue_writeComplete_simps [simp]:
  "tc_poller (queue_writeComplete k c) = tc_poller c" "tc_channel (queue_writeComplete k c) = tc_channel c"
  "tc_fd (queue_writeComplete k c) = tc_fd c" "tc_output (queue_writeComplete k c) = tc_output c"
  "tc_input (queue_writeComplete k c) = tc_input c" "tc_wire (queue_writeComplete k c) = tc_wire c"
  "tc_state (queue_writeComplete k c) = tc_state c" "tc_shutdown (queue_writeComplete k c) = tc_shutdown c"
  "conn_inv (queue_writeComplete k c) = conn_inv c" "stream (queue_writeComplete k c) = stream c"
  by (simp_all add: queue_writeComplete_def tc_queue_def conn_inv_def stream_def)

lemma tc_queue_simps [simp]:
  "conn_inv (tc_queue f c) = conn_inv c" "stream (tc_queue f c) = stream c"
  "tc_shutdown (tc_queue f c) = tc_shutdown c" "tc_state (tc_queue f c) = tc_state c"
  "tc_output (tc_queue f c) = tc_output c" "tc_wire (tc_queue f c) = tc_wire c"
  by (simp_all add: tc_queue_def conn_inv_def stream_def)

lemma append_output_ok:
  assumes inv: "conn_inv c" and s: "s \<noteq> []" and room: "length (content (tc_output c)) + 2 * length s \<le> buf_limit"
  shows "\<exists>c'. append_output True s c = Inr c' \<and> conn_inv c' \<and> stream c' = stream c @ s \<and> same_conn c' c \<and>
    tc_pending c' = tc_pending c \<and> tc_wire c' = tc_wire c"
proof -
  from inv obtain ch where ch: "ep_inv (tc_poller c)" "buf_inv (tc_output c)" "buf_inv (tc_input c)"
    "ep_channels (tc_poller c) (tc_fd c) = Some (tc_channel c)" "ep_heap (tc_poller c) (tc_channel c) = Some ch"
    "ch_fd ch = tc_fd c" "isWriting ch \<longleftrightarrow> content (tc_output c) \<noteq> []" "tc_chan c = Inr ch" by (rule conn_invE)
  from buffer_append_ok [OF ch(2) room] obtain b where
    b: "buffer_append (tc_output c) s = Inr b" "buf_inv b" "content b = content (tc_output c) @ s" by blast
  let ?c = "c\<lparr>tc_output := b\<rparr>"
  have chan: "tc_chan ?c = Inr ch" using ch(8) by (simp add: tc_chan_def)
  show ?thesis
  proof (cases "isWriting ch")
    case True
    with b chan ch s show ?thesis
      by (auto simp: append_output_def conn_inv_def stream_def same_conn_defs)
  next
    case False
    obtain w ch' where w: "tc_set_events True ev_enableWriting ?c = Inr (?c\<lparr>tc_poller := w\<rparr>)" "ep_inv w"
      "ep_heap w (tc_channel ?c) = Some ch'" "ch_fd ch' = tc_fd ?c" "ch_events ch' = ev_enableWriting (ch_events ch)"
      "ep_channels w = (ep_channels (tc_poller ?c))(tc_fd ?c \<mapsto> tc_channel ?c)"
      "poller_frame (tc_channel ?c) (tc_fd ?c) (tc_poller ?c) w" "keeps_hooks (tc_channel ?c) (tc_poller ?c) w"
      by (rule tc_set_events_ok [of ?c ch ev_enableWriting]) (use ch in auto)
    from isWriting_events(1) [OF w(5)] False b chan ch s w show ?thesis
      by (auto simp: append_output_def conn_inv_def stream_def same_conn_defs)
  qed
qed

lemma sendInLoop_ok:
  assumes inv: "conn_inv c" and room: "length (content (tc_output c)) + 2 * length m \<le> buf_limit"
  shows "\<exists>c'. sendInLoop k True r m c = Inr c' \<and> conn_inv c' \<and> stream c' = stream c @ m \<and> same_conn c' c \<and>
    (quiet k \<longrightarrow> tc_pending c' = tc_pending c)"
proof -
  from inv obtain ch where ch: "buf_inv (tc_output c)" "isWriting ch \<longleftrightarrow> content (tc_output c) \<noteq> []" "tc_chan c = Inr ch"
    by (rule conn_invE)
  have readable: "readableBytes (tc_output c) = 0 \<longleftrightarrow> content (tc_output c) = []"
    using length_content [OF ch(1)] by (metis length_0_conv)
  show ?thesis
  proof (cases "content (tc_output c) = []")
    case False
    then have "m = [] \<or> m \<noteq> []" by simp
    with append_output_ok [OF inv _ room] False ch inv show ?thesis
      by (cases "m = []") (auto simp: sendInLoop_def same_conn_defs)
  next
    case empty: True
    show ?thesis
    proof (cases r)
      case (WriteErr e)
      with append_output_ok [OF inv _ room] empty ch readable inv show ?thesis
        by (cases "m = []") (auto simp: sendInLoop_def tc_write_def same_conn_defs)
    next
      case (WriteN n)
      let ?c = "c\<lparr>tc_wire := tc_wire c @ take n m\<rparr>"
      have inv': "conn_inv ?c" using inv by (simp add: conn_inv_def)
      show ?thesis
      proof (cases "n < length m")
        case True
        have "length (content (tc_output ?c)) + 2 * length (drop n m) \<le> buf_limit" using room by simp
        from append_output_ok [OF inv' _ this] True obtain c' where
          "append_output True (drop n m) ?c = Inr c'" "conn_inv c'" "stream c' = stream ?c @ drop n m" "same_conn c' ?c"
          "tc_pending c' = tc_pending c" by auto
        with True empty ch readable WriteN show ?thesis
          by (auto simp: sendInLoop_def tc_write_def stream_def same_conn_defs)
      next
        case False
        with empty ch readable WriteN inv' show ?thesis
          by (auto simp: sendInLoop_def tc_write_def stream_def same_conn_defs queue_writeComplete_def tc_queue_def conn_inv_def quiet_def)
      qed
    qed
  qed
qed

lemma readable_iff: "buf_inv b \<Longrightarrow> readableBytes b = 0 \<longleftrightarrow> content b = []"
  using length_content by (metis length_0_conv)

definition write_fault :: "write_result \<Rightarrow> bool" where
  "write_fault r \<longleftrightarrow> r = WriteErr EPIPE \<or> r = WriteErr ECONNRESET"

text \<open>
  \<^verbatim>\<open>sendInLoop(data, len)\<close> accepts the data like the string version, except that it drops it on \<^verbatim>\<open>EPIPE\<close> and
  \<^verbatim>\<open>ECONNRESET\<close>.
\<close>

lemma sendInLoop_buf_ok:
  assumes inv: "conn_inv c" and room: "length (content (tc_output c)) + 2 * length m \<le> buf_limit"
    and state: "tc_state c \<noteq> kDisconnected"
  shows "\<exists>c'. sendInLoop_buf k True r m c = Inr c' \<and> conn_inv c' \<and> same_conn c' c \<and>
    (stream c' = stream c @ m \<or> write_fault r \<and> c' = c) \<and> (quiet k \<longrightarrow> tc_pending c' = tc_pending c)"
proof -
  from inv obtain ch where ch: "buf_inv (tc_output c)" "isWriting ch \<longleftrightarrow> content (tc_output c) \<noteq> []" "tc_chan c = Inr ch"
    by (rule conn_invE)
  note readable = readable_iff [OF ch(1)]
  have len: "length m < two64" using room by simp
  let ?mark = "\<lambda>d n. queue_highWaterMark k n d"
  have mark: "conn_inv (?mark d n) = conn_inv d" "stream (?mark d n) = stream d" "same_conn (?mark d n) d"
    "tc_output (?mark d n) = tc_output d" "quiet k \<longrightarrow> tc_pending (?mark d n) = tc_pending d" for d :: "'a tcp_conn" and n
    by (simp_all add: queue_highWaterMark_def Let_def same_conn_defs tc_queue_def conn_inv_def stream_def quiet_def)
  have app: "\<exists>c'. append_output True s (?mark d n) = Inr c' \<and> conn_inv c' \<and> stream c' = stream d @ s \<and> same_conn c' d \<and>
      (quiet k \<longrightarrow> tc_pending c' = tc_pending d)"
    if "conn_inv d" "s \<noteq> []" "length (content (tc_output d)) + 2 * length s \<le> buf_limit" for d :: "'a tcp_conn" and s n
    using append_output_ok [of "?mark d n" s] that mark(3,5) [of n d] same_conn_trans [OF _ mark(3) [of n d]]
    unfolding mark by metis
  show ?thesis
  proof (cases "content (tc_output c) = [] \<and> (\<exists>n. r = WriteN n)")
    case False
    then have "sendInLoop_buf k True r m c =
        (if m = [] \<or> write_fault r \<and> content (tc_output c) = [] then Inr c else append_output True m (?mark c (length m)))"
      using ch readable state
      by (cases r) (auto simp: sendInLoop_buf_def tc_write_def write_fault_def EWOULDBLOCK_def Let_def)
    with app [OF inv _ room, of "length m"] inv show ?thesis by (cases "m = []") (auto simp: same_conn_defs)
  next
    case True
    then obtain n where n: "r = WriteN n" by blast
    let ?c = "c\<lparr>tc_wire := tc_wire c @ take n m\<rparr>"
    have inv': "conn_inv ?c" using inv by (simp add: conn_inv_def)
    have sub: "sz_sub (length m) (min n (length m)) = length m - n" using len by (simp add: sz_sub_exact)
    have same: "same_conn (queue_writeComplete k ?c) c" "quiet k \<longrightarrow> tc_pending (queue_writeComplete k ?c) = tc_pending c"
      by (simp_all add: same_conn_defs queue_writeComplete_def tc_queue_def quiet_def)
    have run: "sendInLoop_buf k True r m c =
        (if length m \<le> n then Inr (queue_writeComplete k ?c)
         else append_output True (drop n m) (?mark ?c (length m - n)))"
      using True ch readable state n sub
      by (auto simp: sendInLoop_buf_def tc_write_def Let_def)
    show ?thesis
    proof (cases "length m \<le> n")
      case True
      with run inv' same \<open>_ \<and> _\<close> show ?thesis by (simp add: stream_def)
    next
      case False
      have "length (content (tc_output ?c)) + 2 * length (drop n m) \<le> buf_limit" using room by simp
      from app [OF inv' _ this, of "length m - n"] False \<open>_ \<and> _\<close> run show ?thesis
        by (auto simp: stream_def same_conn_defs)
    qed
  qed
qed

lemma shutdownInLoop_ok:
  "conn_inv c \<Longrightarrow> shutdownInLoop True c = Inr (if content (tc_output c) = [] then c\<lparr>tc_shutdown := True\<rparr> else c)"
  by (elim conn_invE) (auto simp: shutdownInLoop_def)

text \<open>
  \<^verbatim>\<open>handleWrite\<close> moves a prefix of the buffer to the kernel; when the buffer is drained, writing is disabled
  and a pending shutdown is done.
\<close>

lemma handleWrite_ok:
  assumes inv: "conn_inv c"
  shows "\<exists>c'. handleWrite k True r c = Inr c' \<and> conn_inv c' \<and> stream c' = stream c \<and> tc_state c' = tc_state c \<and>
    same_place c' c \<and> tc_input c' = tc_input c \<and> tc_context c' = tc_context c \<and>
    (cb_writeComplete k = None \<longrightarrow> tc_pending c' = tc_pending c) \<and> tc_closeCalls c' = tc_closeCalls c \<and>
    tc_wire c' = tc_wire c @ (case r of WriteErr e \<Rightarrow> [] | WriteN n \<Rightarrow> take n (content (tc_output c))) \<and>
    (tc_shutdown c' \<longleftrightarrow> tc_shutdown c \<or>
      content (tc_output c) \<noteq> [] \<and> content (tc_output c') = [] \<and> tc_state c = kDisconnecting)"
proof -
  from inv obtain ch where ch: "ep_inv (tc_poller c)" "buf_inv (tc_output c)" "buf_inv (tc_input c)"
    "ep_channels (tc_poller c) (tc_fd c) = Some (tc_channel c)" "ep_heap (tc_poller c) (tc_channel c) = Some ch"
    "ch_fd ch = tc_fd c" "isWriting ch \<longleftrightarrow> content (tc_output c) \<noteq> []" "tc_chan c = Inr ch" by (rule conn_invE)
  show ?thesis
  proof (cases "isWriting ch \<and> (\<exists>n. r = WriteN n \<and> 0 < n)")
    case False
    with ch inv show ?thesis
      by (cases r) (auto simp: handleWrite_def tc_write_def peek_def readable_end range_content)
  next
    case True
    then obtain n where n: "r = WriteN n" "0 < n" and ne: "content (tc_output c) \<noteq> []" using ch by blast
    let ?s = "content (tc_output c)"
    have "drop (min n (length ?s)) ?s = drop n ?s" by (simp add: min_def)
    with retrieve_ok [OF ch(2), of "min n (length ?s)"] obtain b where
      b: "retrieve (tc_output c) (min n (length ?s)) = Inr b" "buf_inv b" "content b = drop n ?s"
      by (metis min.cobounded2)
    let ?c = "c\<lparr>tc_wire := tc_wire c @ take n ?s, tc_output := b\<rparr>"
    have stream: "stream ?c = stream c" using b by (simp add: stream_def)
    have run: "handleWrite k True r c =
        (if content b = [] then rbind (tc_set_events True ev_disableWriting ?c) (\<lambda>c.
           let c = queue_writeComplete k c in if tc_state c = kDisconnecting then shutdownInLoop True c else Inr c)
         else Inr ?c)"
      using True n ne ch b readable_iff [OF b(2)] min_less_iff_conj
      by (simp add: handleWrite_def tc_write_def peek_def readable_end range_content)
    show ?thesis
    proof (cases "content b = []")
      case False
      with ne b ch stream run True n show ?thesis by (auto simp: conn_inv_def same_defs)
    next
      case drained: True
      obtain w ch' where w: "tc_set_events True ev_disableWriting ?c = Inr (?c\<lparr>tc_poller := w\<rparr>)" "ep_inv w"
        "ep_heap w (tc_channel ?c) = Some ch'" "ch_fd ch' = tc_fd ?c" "ch_events ch' = ev_disableWriting (ch_events ch)"
        "ep_channels w = (ep_channels (tc_poller ?c))(tc_fd ?c \<mapsto> tc_channel ?c)"
        "poller_frame (tc_channel ?c) (tc_fd ?c) (tc_poller ?c) w" "keeps_hooks (tc_channel ?c) (tc_poller ?c) w"
        by (rule tc_set_events_ok [of ?c ch ev_disableWriting]) (use ch in auto)
      let ?d = "queue_writeComplete k (?c\<lparr>tc_poller := w\<rparr>)"
      have inv': "conn_inv ?d" using w b ch drained isWriting_events(2) [OF w(5)] by (auto simp: conn_inv_def)
      have "stream ?d = stream c" using stream by (simp add: stream_def)
      moreover have "conn_inv (?d\<lparr>tc_shutdown := True\<rparr>)" "stream (?d\<lparr>tc_shutdown := True\<rparr>) = stream ?d"
        using inv' by (simp_all add: conn_inv_def stream_def)
      moreover have "same_place ?d c" "same_place (?d\<lparr>tc_shutdown := True\<rparr>) c" "tc_context ?d = tc_context c"
        "cb_writeComplete k = None \<longrightarrow> tc_pending ?d = tc_pending c" "tc_closeCalls ?d = tc_closeCalls c"
        using w(7,8) by (simp_all add: same_place_def queue_writeComplete_def tc_queue_def)
      ultimately show ?thesis
        using run drained w(1) shutdownInLoop_ok [OF inv'] inv' ne n by (simp add: Let_def)
    qed
  qed
qed

section \<open>The connection as an outgoing byte stream\<close>

text \<open>
  The operations of the loop's thread that concern output: the two \<^verbatim>\<open>send\<close>s, a writable event, \<^verbatim>\<open>shutdown\<close>.
  The specification is the stream of accepted bytes and whether more are accepted; it makes no promise when
  the output could exceed the largest vector, and for \<^verbatim>\<open>send(Buffer *)\<close> on a broken connection.
\<close>

datatype conn_op =
    OpSend string write_result
  | OpSendBuf buffer write_result
  | OpWritable write_result
  | OpShutdown

fun conn_step :: "'ctx conn_callbacks \<Rightarrow> 'ctx tcp_conn \<Rightarrow> conn_op \<Rightarrow> 'ctx tcp_conn res" where
  "conn_step k c (OpSend m r) = send k True r m c"
| "conn_step k c (OpSendBuf b r) = rbind (send_buffer k True r b c) (\<lambda>(b', c'). Inr c')"
| "conn_step k c (OpWritable r) = handleWrite k True r c"
| "conn_step k c OpShutdown = conn_shutdown True c"

definition accept_bytes :: "string \<Rightarrow> string \<times> bool \<Rightarrow> (string \<times> bool) option" where
  "accept_bytes m a = (if snd a then
     if length (fst a) + 2 * length m \<le> buf_limit then Some (fst a @ m, True) else None
   else Some a)"

fun conn_spec :: "string \<times> bool \<Rightarrow> conn_op \<Rightarrow> (string \<times> bool) option" where
  "conn_spec a (OpSend m r) = accept_bytes m a"
| "conn_spec a (OpSendBuf b r) = (if buf_inv b \<and> \<not> write_fault r then accept_bytes (content b) a else None)"
| "conn_spec a (OpWritable r) = Some a"
| "conn_spec a OpShutdown = Some (fst a, False)"

definition conn_abs :: "'ctx tcp_conn \<Rightarrow> string \<times> bool" where
  "conn_abs c = (stream c, connected c)"

text \<open>An open connection: the write side is shut down exactly when that was asked for and nothing is left to write.\<close>

definition conn_ok :: "'ctx tcp_conn \<Rightarrow> bool" where
  "conn_ok c \<longleftrightarrow> conn_inv c \<and> conn_open c \<and>
    (tc_shutdown c \<longleftrightarrow> tc_state c = kDisconnecting \<and> content (tc_output c) = [])"

lemma conn_ok_send:
  assumes ok: "conn_ok c" "tc_state c = kConnected"
    and d: "conn_inv d" "stream d = stream c @ m" "same_conn d c"
  shows "conn_ok d \<and> conn_abs d = (stream c @ m, True)"
  using assms by (auto simp: conn_ok_def conn_open_def same_conn_defs conn_abs_def connected_def)

lemma stream_room:
  "length (stream c) + 2 * n \<le> buf_limit \<Longrightarrow> length (content (tc_output c)) + 2 * n \<le> buf_limit"
  by (simp add: stream_def del: length_content)

lemma conn_step_sim:
  assumes ok: "conn_ok c" and spec: "conn_spec (conn_abs c) op = Some a"
  shows "\<exists>c'. conn_step k c op = Inr c' \<and> conn_ok c' \<and> conn_abs c' = a"
proof (cases op)
  case (OpSend m r)
  show ?thesis
  proof (cases "tc_state c = kConnected")
    case True
    with spec OpSend have a: "a = (stream c @ m, True)" "length (stream c) + 2 * length m \<le> buf_limit"
      by (auto simp: conn_abs_def connected_def accept_bytes_def split: if_splits)
    from ok have "conn_inv c" by (simp add: conn_ok_def)
    from sendInLoop_ok [OF this stream_room [OF a(2)]] obtain d where
      "sendInLoop k True r m c = Inr d" "conn_inv d" "stream d = stream c @ m" "same_conn d c" by blast
    with conn_ok_send [OF ok True] True a(1) OpSend show ?thesis by (simp add: send_def)
  qed (use OpSend ok spec in \<open>simp add: send_def conn_abs_def connected_def accept_bytes_def\<close>)
next
  case (OpSendBuf b r)
  from spec OpSendBuf have b: "buf_inv b" "\<not> write_fault r" by (auto split: if_splits)
  show ?thesis
  proof (cases "tc_state c = kConnected")
    case True
    with spec OpSendBuf have a: "a = (stream c @ content b, True)" "length (stream c) + 2 * length (content b) \<le> buf_limit"
      by (auto simp: conn_abs_def connected_def accept_bytes_def simp del: length_content split: if_splits)
    from ok have inv: "conn_inv c" by (simp add: conn_ok_def)
    from sendInLoop_buf_ok [OF inv stream_room [OF a(2)]] True b(2) obtain d where
      "sendInLoop_buf k True r (content b) c = Inr d" "conn_inv d" "stream d = stream c @ content b" "same_conn d c"
      by auto
    with conn_ok_send [OF ok True] True a(1) b OpSendBuf show ?thesis
      by (simp add: send_buffer_def peek_def readable_end range_content)
  qed (use OpSendBuf b ok spec in \<open>simp add: send_buffer_def conn_abs_def connected_def accept_bytes_def\<close>)
next
  case (OpWritable r)
  from ok have inv: "conn_inv c" by (simp add: conn_ok_def)
  from handleWrite_ok [OF inv, of k r] ok spec OpWritable show ?thesis
    by (auto simp: conn_ok_def conn_open_def conn_abs_def connected_def stream_def split: write_result.splits)
next
  case OpShutdown
  from ok have "conn_inv (setState kDisconnecting c)" by (simp add: conn_ok_def conn_inv_def setState_def)
  from shutdownInLoop_ok [OF this] ok spec OpShutdown show ?thesis
    by (auto simp: conn_shutdown_def conn_ok_def conn_open_def conn_abs_def connected_def setState_def conn_inv_def stream_def)
qed

interpretation csim: forward_simulation "conn_step k" conn_spec conn_ok conn_abs
  by unfold_locales (rule conn_step_sim)

text \<open>
  C2: An open connection is a faithful outgoing byte stream. For every sequence of sends, writable events with
  whatever the kernel takes or refuses, and shutdowns, no operation fails, the bytes on the wire followed by
  those still buffered are exactly the accepted bytes in order, sends after a shutdown add nothing, and the
  write side is shut down exactly when a shutdown was asked for and the last accepted byte is on the wire.
\<close>

theorem connection_refines_stream:
  assumes "conn_ok c" and "run_spec conn_spec (stream c, connected c) ops = Some (s, up)"
  shows "\<exists>c'. run_steps (conn_step k) c ops = Inr c' \<and> conn_ok c' \<and> connected c' = up \<and>
    tc_wire c' @ content (tc_output c') = s \<and> (tc_shutdown c' \<longleftrightarrow> \<not> up \<and> tc_wire c' = s)"
proof -
  have "run_spec conn_spec (conn_abs c) ops = Some (s, up)" using assms(2) by (simp add: conn_abs_def)
  from csim.run_sim [OF assms(1) this, of k] obtain c' where
    "run_steps (conn_step k) c ops = Inr c'" "conn_ok c'" "conn_abs c' = (s, up)" by blast
  then show ?thesis by (auto simp: conn_abs_def conn_ok_def conn_open_def connected_def stream_def)
qed

section \<open>Opening and closing\<close>

text \<open>An unregistered channel may be destroyed.\<close>

lemma ep_inv_drop:
  assumes "ep_inv w" and "ep_heap w p = Some ch" and "ep_channels w (ch_fd ch) \<noteq> Some p"
  shows "ep_inv (w\<lparr>ep_heap := (ep_heap w)(p := None)\<rparr>)"
proof -
  have "ep_channels w fd \<noteq> Some p" for fd using assms ep_inv_parts(1) [OF assms(1)] by fastforce
  with assms show ?thesis unfolding ep_inv_def by (auto split: if_splits)
qed

definition conn_chan :: "int \<Rightarrow> loop_cb channel" where
  "conn_chan sockfd = setErrorCallback CbError (setCloseCallback CbClose (setWriteCallback CbWrite
     (setReadCallback CbRead (new_Channel sockfd))))"

lemma conn_chan_simps [simp]: "ch_fd (conn_chan fd) = fd" "ch_index (conn_chan fd) = kNew" "ch_events (conn_chan fd) = 0"
  by (simp_all add: conn_chan_def setErrorCallback_def setCloseCallback_def setWriteCallback_def setReadCallback_def
    new_Channel_def kNew_def)

lemma set_events_reading:
  "ch_events ch' = ev_enableReading (ch_events ch) \<Longrightarrow> isWriting ch' = isWriting ch"
  by (simp add: isWriting_iff ev_defs bit_or_iff)

text \<open>
  A connection from its construction to \<^verbatim>\<open>connectEstablished\<close>, and from \<^verbatim>\<open>handleClose\<close> to \<^verbatim>\<open>connectDestroyed\<close>, when it is
  registered but silent.
\<close>

definition conn_fresh :: "'ctx tcp_conn \<Rightarrow> bool" where
  "conn_fresh c \<longleftrightarrow> tc_state c = kConnecting \<and> ep_inv (tc_poller c) \<and>
    ep_heap (tc_poller c) (tc_channel c) = Some (conn_chan (tc_fd c)) \<and> ep_channels (tc_poller c) (tc_fd c) = None \<and>
    tc_output c = new_Buffer \<and> tc_input c = new_Buffer \<and> tc_wire c = [] \<and> \<not> tc_shutdown c \<and> tc_context c = None \<and>
    tc_pending c = [] \<and> tc_closeCalls c = 0"

definition conn_silent :: "'ctx tcp_conn \<Rightarrow> bool" where
  "conn_silent c \<longleftrightarrow> ep_inv (tc_poller c) \<and> conn_open c \<and> buf_inv (tc_input c) \<and> ep_channels (tc_poller c) (tc_fd c) = Some (tc_channel c) \<and>
    (\<exists>ch. ep_heap (tc_poller c) (tc_channel c) = Some ch \<and> ch_fd ch = tc_fd c \<and> ch_events ch = 0)"

lemma new_TcpConnection_fresh:
  assumes "ep_inv w" and "ep_heap w p = None" and "ep_channels w fd = None"
  shows "conn_fresh (new_TcpConnection name fd p la pa hwm w)"
    and "tc_poller (new_TcpConnection name fd p la pa hwm w) = ep_put p (conn_chan fd) w"
proof -
  show poller: "tc_poller (new_TcpConnection name fd p la pa hwm w) = ep_put p (conn_chan fd) w"
    by (simp add: new_TcpConnection_def conn_chan_def)
  have "ep_inv (ep_put p (conn_chan fd) w)" using assms by (intro ep_inv_new) simp_all
  with assms show "conn_fresh (new_TcpConnection name fd p la pa hwm w)"
    unfolding conn_fresh_def poller by (simp add: new_TcpConnection_def, simp add: ep_put_def)
qed

text \<open>Establishing a fresh connection gives an open connection with nothing sent, handed to the connection callback.\<close>

lemma connectEstablished_ok:
  assumes fresh: "conn_fresh c"
  shows "\<exists>c'. connectEstablished k True c = call_function (cb_connection k) (\<lambda>f. f c') \<and> conn_ok c' \<and> connected c' \<and>
    stream c' = [] \<and> same_place c' c \<and> content (tc_input c') = [] \<and> tc_context c' = None \<and> tc_pending c' = [] \<and>
    tc_closeCalls c' = 0"
proof -
  let ?c = "setState kConnected c"
  obtain w ch where w: "tc_set_events True ev_enableReading ?c = Inr (?c\<lparr>tc_poller := w\<rparr>)" "ep_inv w"
    "ep_heap w (tc_channel ?c) = Some ch" "ch_fd ch = tc_fd ?c" "ch_events ch = ev_enableReading (ch_events (conn_chan (tc_fd c)))"
    "ep_channels w = (ep_channels (tc_poller ?c))(tc_fd ?c \<mapsto> tc_channel ?c)"
    "poller_frame (tc_channel ?c) (tc_fd ?c) (tc_poller ?c) w" "keeps_hooks (tc_channel ?c) (tc_poller ?c) w"
    by (rule tc_set_events_ok [of ?c "conn_chan (tc_fd c)" ev_enableReading])
      (use fresh in \<open>simp_all add: conn_fresh_def setState_def\<close>)
  have "\<not> isWriting ch" using set_events_reading [OF w(5)] by (simp add: isWriting_iff)
  with w fresh show ?thesis
    by (intro exI [of _ "?c\<lparr>tc_poller := w\<rparr>"])
      (simp add: conn_ok_def conn_inv_def conn_open_def conn_fresh_def setState_def connectEstablished_def stream_def
        connected_def same_place_def)
qed

lemma conn_ok_silent_parts:
  assumes "conn_ok c \<or> conn_silent c"
  obtains ch where "ep_inv (tc_poller c)" "conn_open c" "ep_channels (tc_poller c) (tc_fd c) = Some (tc_channel c)"
    "ep_heap (tc_poller c) (tc_channel c) = Some ch" "ch_fd ch = tc_fd c" "buf_inv (tc_input c)"
  using assms unfolding conn_ok_def conn_inv_def conn_silent_def by blast

lemma handleClose_ok:
  assumes ok: "conn_ok c \<or> conn_silent c" and "cb_close k = Some f"
  shows "\<exists>w. handleClose k True c = f (c\<lparr>tc_poller := w\<rparr>) \<and> conn_silent (c\<lparr>tc_poller := w\<rparr>) \<and>
    poller_frame (tc_channel c) (tc_fd c) (tc_poller c) w \<and> keeps_hooks (tc_channel c) (tc_poller c) w"
proof -
  from ok obtain ch where ch: "ep_inv (tc_poller c)" "conn_open c" "ep_channels (tc_poller c) (tc_fd c) = Some (tc_channel c)"
    "ep_heap (tc_poller c) (tc_channel c) = Some ch" "ch_fd ch = tc_fd c" "buf_inv (tc_input c)" by (rule conn_ok_silent_parts)
  obtain w ch' where w: "tc_set_events True ev_disableAll c = Inr (c\<lparr>tc_poller := w\<rparr>)" "ep_inv w"
    "ep_heap w (tc_channel c) = Some ch'" "ch_fd ch' = tc_fd c" "ch_events ch' = ev_disableAll (ch_events ch)"
    "ep_channels w = (ep_channels (tc_poller c))(tc_fd c \<mapsto> tc_channel c)" "poller_frame (tc_channel c) (tc_fd c) (tc_poller c) w"
    "keeps_hooks (tc_channel c) (tc_poller c) w"
    by (rule tc_set_events_ok [of c ch ev_disableAll]) (use ch in auto)
  with ch(2,6) assms(2) show ?thesis
    by (intro exI [of _ w])
      (simp add: handleClose_def call_function_def conn_silent_def conn_open_def ev_disableAll_def kNoneEvent_def)
qed

lemma connectDestroyed_ok:
  assumes ok: "conn_ok c \<or> conn_silent c" and cb: "cb_connection k = Some f"
    and down: "\<And>d. disconnected d \<Longrightarrow> \<exists>d'. f d = Inr d' \<and> disconnected d' \<and> tc_poller d' = tc_poller d \<and> same_place d' d \<and>
      tc_pending d' = tc_pending d \<and> tc_closeCalls d' = tc_closeCalls d"
  shows "\<exists>c' ch. connectDestroyed k True c = Inr c' \<and> disconnected c' \<and> ep_inv (tc_poller c') \<and> same_place c' c \<and>
    tc_pending c' = tc_pending c \<and> tc_closeCalls c' = tc_closeCalls c \<and>
    ep_heap (tc_poller c') (tc_channel c) = Some ch \<and> ch_fd ch = tc_fd c \<and> ep_channels (tc_poller c') (tc_fd c) = None"
proof -
  from ok obtain ch where ch: "ep_inv (tc_poller c)" "conn_open c" "ep_channels (tc_poller c) (tc_fd c) = Some (tc_channel c)"
    "ep_heap (tc_poller c) (tc_channel c) = Some ch" "ch_fd ch = tc_fd c" by (rule conn_ok_silent_parts)
  let ?c = "setState kDisconnected c"
  obtain w ch' where w: "tc_set_events True ev_disableAll ?c = Inr (?c\<lparr>tc_poller := w\<rparr>)" "ep_inv w"
    "ep_heap w (tc_channel ?c) = Some ch'" "ch_fd ch' = tc_fd ?c" "ch_events ch' = ev_disableAll (ch_events ch)"
    "ep_channels w = (ep_channels (tc_poller ?c))(tc_fd ?c \<mapsto> tc_channel ?c)"
    "poller_frame (tc_channel ?c) (tc_fd ?c) (tc_poller ?c) w" "keeps_hooks (tc_channel ?c) (tc_poller ?c) w"
    by (rule tc_set_events_ok [of ?c ch ev_disableAll]) (use ch in \<open>auto simp: setState_def\<close>)
  have "disconnected (?c\<lparr>tc_poller := w\<rparr>)" by (simp add: disconnected_def setState_def)
  from down [OF this] obtain d where d: "f (?c\<lparr>tc_poller := w\<rparr>) = Inr d" "disconnected d" "tc_poller d = w"
    "same_place d (?c\<lparr>tc_poller := w\<rparr>)" "tc_pending d = tc_pending c" "tc_closeCalls d = tc_closeCalls c"
    by (auto simp: setState_def)
  have none: "isNoneEvent ch'" using w(5) by (simp add: isNoneEvent_def ev_disableAll_def)
  have reg: "ep_channels w (ch_fd ch') = Some (tc_channel c)" using w by (simp add: setState_def)
  have heap: "ep_heap w (tc_channel c) = Some ch'" using w(3) by (simp add: setState_def)
  obtain w2 where w2: "ep_removeChannel True (tc_channel c) w = Inr w2" "ep_inv w2"
    "ep_heap w2 = (ep_heap w)(tc_channel c \<mapsto> ch'\<lparr>ch_index := kNew\<rparr>)" "ep_channels w2 = (ep_channels w)(ch_fd ch' := None)"
    using ep_removeChannel_ok [OF w(2) heap reg none] ep_inv_at [OF w(2) heap disjI2 [OF reg], of "ch'\<lparr>ch_index := kNew\<rparr>" None None]
    by auto
  have "connectDestroyed k True c = Inr (d\<lparr>tc_poller := w2\<rparr>)"
    using ch(2) cb w(1) w2(1) d by (simp add: connectDestroyed_def call_function_def same_place_def setState_def)
  moreover have "keeps_hooks (tc_channel c) (tc_poller c) w2"
    using w(8) heap w2(3) by (auto simp: keeps_hooks_def same_hooks_def setState_def)
  ultimately show ?thesis using w w2 d by (auto simp: disconnected_def same_defs setState_def)
qed

text \<open>A connection on a fresh poller, for the witnesses.\<close>

definition empty_poller :: "loop_cb epoller" where
  "empty_poller = \<lparr>ep_heap = Map.empty, ep_channels = Map.empty, ep_interest = Map.empty,
     ep_events_size = 16, ep_refuses = (\<lambda>op fd. False)\<rparr>"

definition open_sample :: "'ctx tcp_conn" where
  "open_sample = (setState kConnected (new_TcpConnection ''c'' 5 0 (InetAddress_port 80) (InetAddress_port 81) 64 empty_poller))
     \<lparr>tc_poller := ep_put 0 (conn_chan 5\<lparr>ch_events := 3, ch_index := kAdded\<rparr>)
       (empty_poller\<lparr>ep_channels := [5 \<mapsto> 0], ep_interest := [5 \<mapsto> (3, 0)]\<rparr>)\<rparr>"

lemma empty_poller_inv [simp]: "ep_inv empty_poller" "ep_heap empty_poller p = None" "ep_channels empty_poller fd = None"
  by (simp_all add: empty_poller_def ep_inv_def)

lemma sample_conn_ok [simp]: "conn_ok open_sample" "stream open_sample = []" "connected open_sample"
  "tc_input open_sample = new_Buffer" "tc_output open_sample = new_Buffer"
  by (auto simp: conn_ok_def conn_inv_def conn_open_def stream_def connected_def setState_def open_sample_def empty_poller_def
    new_TcpConnection_def ep_put_def ep_inv_def isWriting_def kWriteEvent_def POLLOUT_def)

abbreviation sample_conn :: "unit tcp_conn" where "sample_conn \<equiv> open_sample"

theorem connection_refines_stream_witness:
  "\<exists>c'. run_steps (conn_step no_callbacks) sample_conn
      [OpSend ''abcd'' (WriteN 1), OpShutdown, OpSend ''x'' (WriteN 9), OpWritable (WriteErr EAGAIN), OpWritable (WriteN 5)] = Inr c' \<and>
    conn_ok c' \<and> connected c' = False \<and> tc_wire c' @ content (tc_output c') = ''abcd'' \<and>
    (tc_shutdown c' \<longleftrightarrow> \<not> False \<and> tc_wire c' = ''abcd'')"
  by (rule connection_refines_stream)
    (simp_all add: accept_bytes_def)

section \<open>Draining\<close>

lemma drained_shutdown:
  "conn_ok c \<Longrightarrow> content (tc_output c) = [] \<Longrightarrow> tc_wire c = stream c \<and> (tc_shutdown c \<longleftrightarrow> tc_state c = kDisconnecting)"
  by (simp add: conn_ok_def stream_def)

lemma writable_progress:
  assumes ok: "conn_ok c" and r: "r = WriteN n" "0 < n"
  shows "\<exists>c'. conn_step k c (OpWritable r) = Inr c' \<and> conn_ok c' \<and> stream c' = stream c \<and> tc_state c' = tc_state c \<and>
    length (content (tc_output c')) \<le> length (content (tc_output c)) - 1"
proof -
  from ok have inv: "conn_inv c" by (simp add: conn_ok_def)
  from conn_step_sim [OF ok, of "OpWritable r" "conn_abs c" k] handleWrite_ok [OF inv, of k r] r obtain c' where
    c': "handleWrite k True r c = Inr c'" "conn_ok c'" "stream c' = stream c" "tc_state c' = tc_state c"
      "tc_wire c' = tc_wire c @ take n (content (tc_output c))" by auto
  from c'(3,5) have "take n (content (tc_output c)) @ content (tc_output c') = content (tc_output c)"
    by (simp add: stream_def)
  then have "content (tc_output c') = drop n (content (tc_output c))" by (metis append_take_drop_id same_append_eq)
  with c' r(2) show ?thesis by (auto simp del: length_content)
qed

lemma drain:
  "conn_ok c \<Longrightarrow> list_all (\<lambda>r. \<exists>n > 0. r = WriteN n) rs \<Longrightarrow> length (content (tc_output c)) \<le> length rs \<Longrightarrow>
   \<exists>c'. run_steps (conn_step k) c (map OpWritable rs) = Inr c' \<and> conn_ok c' \<and> stream c' = stream c \<and>
     tc_state c' = tc_state c \<and> content (tc_output c') = []"
proof (induction rs arbitrary: c)
  case (Cons r rs)
  then obtain n where r: "r = WriteN n" "0 < n" by auto
  from writable_progress [OF Cons.prems(1) r, of k] obtain c1 where
    c1: "conn_step k c (OpWritable r) = Inr c1" "conn_ok c1" "stream c1 = stream c" "tc_state c1 = tc_state c"
      "length (content (tc_output c1)) \<le> length (content (tc_output c)) - 1" by blast
  have "length (content (tc_output c1)) \<le> length rs" using c1(5) Cons.prems(3) by (simp del: length_content)
  with Cons.IH [OF c1(2)] Cons.prems(2) c1 show ?case by simp
qed (simp del: length_content)

text \<open>
  C18: Whatever is buffered gets out: on an open connection, if the kernel takes at least one byte at each writable
  event, as many events as there are buffered bytes put the whole accepted stream on the wire, the channel is no
  longer watched for writing, and a shutdown that was waiting has been done.
\<close>

theorem drain_completes:
  assumes "conn_ok c" and "list_all (\<lambda>r. \<exists>n > 0. r = WriteN n) rs" and "length (content (tc_output c)) \<le> length rs"
  shows "\<exists>c' ch. run_steps (conn_step k) c (map OpWritable rs) = Inr c' \<and> tc_wire c' = stream c \<and> content (tc_output c') = [] \<and>
    tc_chan c' = Inr ch \<and> \<not> isWriting ch \<and> (tc_shutdown c' \<longleftrightarrow> tc_state c = kDisconnecting)"
proof -
  from drain [OF assms, of k] obtain c' where
    c': "run_steps (conn_step k) c (map OpWritable rs) = Inr c'" "conn_ok c'" "stream c' = stream c"
      "tc_state c' = tc_state c" "content (tc_output c') = []" by blast
  from c'(2) have "conn_inv c'" by (simp add: conn_ok_def)
  then obtain ch where "tc_chan c' = Inr ch" "isWriting ch \<longleftrightarrow> content (tc_output c') \<noteq> []" by (rule conn_invE)
  with c' drained_shutdown [OF c'(2,5)] show ?thesis by auto
qed

theorem drain_completes_witness:
  "\<exists>c. run_steps (conn_step no_callbacks) sample_conn [OpSend ''abc'' (WriteErr EAGAIN), OpShutdown] = Inr c \<and>
    (\<exists>c' ch. run_steps (conn_step no_callbacks) c (map OpWritable [WriteN 1, WriteN 1, WriteN 1]) = Inr c' \<and>
      tc_wire c' = stream c \<and> content (tc_output c') = [] \<and> tc_chan c' = Inr ch \<and> \<not> isWriting ch \<and>
      (tc_shutdown c' \<longleftrightarrow> tc_state c = kDisconnecting))"
proof -
  have "run_spec conn_spec (conn_abs sample_conn) [OpSend ''abc'' (WriteErr EAGAIN), OpShutdown] = Some (''abc'', False)"
    by (simp add: conn_abs_def accept_bytes_def)
  from csim.run_sim [OF sample_conn_ok(1) this, of no_callbacks] obtain c where
    c: "run_steps (conn_step no_callbacks) sample_conn [OpSend ''abc'' (WriteErr EAGAIN), OpShutdown] = Inr c"
      "conn_ok c" "conn_abs c = (''abc'', False)" by blast
  have "length (content (tc_output c)) \<le> length (stream c)" by (simp add: stream_def del: length_content)
  moreover from c(3) have "stream c = ''abc''" by (simp add: conn_abs_def)
  ultimately have "length (content (tc_output c)) \<le> length [WriteN 1, WriteN 1, WriteN 1]" by (simp del: length_content)
  with drain_completes [OF c(2), of "[WriteN 1, WriteN 1, WriteN 1]" no_callbacks] c(1) show ?thesis
    by (simp del: length_content)
qed

section \<open>A shutdown that overtakes a send\<close>

lemma handleWrite_err: "conn_inv c \<Longrightarrow> handleWrite k True (WriteErr e) c = Inr c"
  by (elim conn_invE) (auto simp: handleWrite_def tc_write_def peek_def readable_end range_content)

text \<open>
  C35: A \<^verbatim>\<open>send\<close> from another thread only queues a functor, so a \<^verbatim>\<open>shutdown\<close> called in the loop's thread before it runs
  closes the write side first, although the send came earlier and was accepted: the message is buffered when the
  functor runs, none of it reaches the wire, and each further writable event fails and leaves everything as it is,
  with the channel still watched for writing.
\<close>

theorem shutdown_overtakes_send:
  assumes ok: "conn_ok c" "connected c" and empty: "content (tc_output c) = []"
    and m: "m \<noteq> []" "2 * length m \<le> buf_limit"
  shows "\<exists>c1 c2 c3 ch. send k False r m c = Inr c1 \<and> conn_shutdown True c1 = Inr c2 \<and> tc_shutdown c2 \<and>
    tc_pending c2 = tc_pending c @ [FSendInLoop m] \<and>
    run_conn_fn k (WriteErr EPIPE) (FSendInLoop m) c2 = Inr c3 \<and> tc_wire c3 = tc_wire c \<and> content (tc_output c3) = m \<and>
    tc_chan c3 = Inr ch \<and> isWriting ch \<and> handleWrite k True (WriteErr EPIPE) c3 = Inr c3"
proof -
  let ?c1 = "tc_queue (FSendInLoop m) c"
  let ?c2 = "setState kDisconnecting ?c1\<lparr>tc_shutdown := True\<rparr>"
  from ok have inv: "conn_inv c" by (simp add: conn_ok_def)
  then have "conn_inv (setState kDisconnecting ?c1)" and inv2: "conn_inv ?c2"
    by (simp_all add: conn_inv_def setState_def tc_queue_def)
  from shutdownInLoop_ok [OF this(1)] ok empty have c2: "conn_shutdown True ?c1 = Inr ?c2"
    by (simp add: conn_shutdown_def connected_def) (simp add: setState_def)
  have empty2: "content (tc_output ?c2) = []" using empty by (simp add: setState_def)
  with m have "length (content (tc_output ?c2)) + 2 * length m \<le> buf_limit" by (simp del: length_content)
  from append_output_ok [OF inv2 m(1) this] obtain c3 where
    c3: "append_output True m ?c2 = Inr c3" "conn_inv c3" "stream c3 = stream ?c2 @ m" "tc_wire c3 = tc_wire ?c2" by blast
  from inv2 obtain ch where "tc_chan ?c2 = Inr ch" "\<not> isWriting ch" "readableBytes (tc_output ?c2) = 0"
    using empty2 by (elim conn_invE) (auto simp: readable_iff)
  with c3 m have run: "run_conn_fn k (WriteErr EPIPE) (FSendInLoop m) ?c2 = Inr c3"
    by (simp add: run_conn_fn_def sendInLoop_def tc_write_def)
  have "content (tc_output c3) = m" "tc_wire c3 = tc_wire c"
    using c3(3,4) empty2 by (simp_all add: stream_def) (simp_all add: setState_def tc_queue_def)
  moreover from c3(2) obtain ch3 where "tc_chan c3 = Inr ch3" "isWriting ch3 \<longleftrightarrow> content (tc_output c3) \<noteq> []"
    by (rule conn_invE)
  ultimately show ?thesis
    using ok(2) c2 run handleWrite_err [OF c3(2), of k EPIPE] m(1)
    by (auto simp: send_def connected_def intro!: exI [of _ ?c1] exI [of _ ?c2]) (simp_all add: setState_def tc_queue_def)
qed

theorem shutdown_overtakes_send_witness:
  "\<exists>c1 c2 c3 ch. send no_callbacks False (WriteN 9) ''bye'' sample_conn = Inr c1 \<and> conn_shutdown True c1 = Inr c2 \<and> tc_shutdown c2 \<and>
    tc_pending c2 = tc_pending sample_conn @ [FSendInLoop ''bye''] \<and>
    run_conn_fn no_callbacks (WriteErr EPIPE) (FSendInLoop ''bye'') c2 = Inr c3 \<and> tc_wire c3 = tc_wire sample_conn \<and>
    content (tc_output c3) = ''bye'' \<and> tc_chan c3 = Inr ch \<and> isWriting ch \<and>
    handleWrite no_callbacks True (WriteErr EPIPE) c3 = Inr c3"
  by (rule shutdown_overtakes_send) (use sample_conn_ok(2) in \<open>simp_all add: stream_def\<close>)

end
