(* ===== verification/Acceptor.thy ===== *)
theory Acceptor
  imports TcpConnection
begin

text \<open>
  \<^verbatim>\<open>Acceptor\<close> (\<^verbatim>\<open>src/src/Acceptor.hpp\<close>, \<^verbatim>\<open>Acceptor.cpp\<close>): the listening socket and its channel. What \<^verbatim>\<open>handleRead\<close> does with
  an accepted descriptor, handing it to the callback or closing it, is its result.
\<close>

record acceptor =
  ac_fd :: int
  ac_channel :: nat
  ac_hasCallback :: bool
  ac_listenning :: bool

text \<open>The constructor: \<open>sockfd\<close> and \<open>ret\<close> are what \<^verbatim>\<open>socket\<close> and \<^verbatim>\<open>bind\<close> return, \<open>p\<close> the address of the channel.\<close>

definition new_Acceptor :: "int \<Rightarrow> int \<Rightarrow> nat \<Rightarrow> loop_cb epoller \<Rightarrow> (acceptor \<times> loop_cb epoller) res" where
  "new_Acceptor sockfd ret p w =
    rbind (createNonblockingOrDie sockfd) (\<lambda>fd.
    rbind (Socket_bindAddress ret) (\<lambda>_.
    Inr (\<lparr>ac_fd = fd, ac_channel = p, ac_hasCallback = False, ac_listenning = False\<rparr>,
      ep_put p (setReadCallback CbAccept (new_Channel fd)) w)))"

definition ac_setNewConnectionCallback :: "acceptor \<Rightarrow> acceptor" where
  "ac_setNewConnectionCallback a = a\<lparr>ac_hasCallback := True\<rparr>"

definition ac_listen :: "bool \<Rightarrow> int \<Rightarrow> acceptor \<Rightarrow> loop_cb epoller \<Rightarrow> (acceptor \<times> loop_cb epoller) res" where
  "ac_listen il ret a w =
    assertInLoopThread il
   (rbind (Socket_listen ret) (\<lambda>_.
    rbind (ep_set_events il ev_enableReading (ac_channel a) w) (\<lambda>w.
    Inr (a\<lparr>ac_listenning := True\<rparr>, w))))"

datatype accept_action = NoConnection | NewConnection int InetAddress | CloseConnection int

definition ac_handleRead :: "bool \<Rightarrow> accept_result \<Rightarrow> acceptor \<Rightarrow> accept_action res" where
  "ac_handleRead il r a =
    assertInLoopThread il
   (rbind (Socket_accept r (InetAddress_port 0)) (\<lambda>(connfd, peerAddr).
    Inr (if 0 \<le> connfd then
           if ac_hasCallback a then NewConnection connfd peerAddr else CloseConnection connfd
         else NoConnection)))"

text \<open>
  A descriptor is handed over with its peer's address; an expected error is skipped; any other error aborts the process.
\<close>

lemma ac_handleRead_cases:
  "ac_hasCallback a \<Longrightarrow> ac_handleRead True (AcceptOk fd peer) a =
    Inr (if 0 \<le> fd then NewConnection fd (InetAddress_of peer) else NoConnection)"
  "accept_ignores e \<Longrightarrow> ac_handleRead True (AcceptErr e) a = Inr NoConnection"
  "\<not> accept_ignores e \<Longrightarrow> ac_handleRead True (AcceptErr e) a = Inl (LogFatal ''unexpected error of ::accept'')"
  by (simp_all add: ac_handleRead_def Socket_accept_def sockets_accept_def setSockAddrInet_def InetAddress_of_def
    InetAddress_port_def)

text \<open>Listening registers the channel of a fresh acceptor for reading.\<close>

lemma ac_listen_ok:
  assumes "ep_inv w" and "ep_heap w p = None" and "ep_channels w fd = None" and "0 \<le> fd" "0 \<le> ret" "0 \<le> ret'"
  shows "\<exists>a w1 w2. new_Acceptor fd ret p w = Inr (a, w1) \<and> ac_listen True ret' a w1 = Inr (a\<lparr>ac_listenning := True\<rparr>, w2) \<and>
    ac_fd a = fd \<and> ep_inv w2 \<and> ep_channels w2 = (ep_channels w)(fd \<mapsto> p) \<and> (\<forall>q. q \<noteq> p \<longrightarrow> ep_heap w2 q = ep_heap w q) \<and>
    ep_watched w2 fd = kReadEvent"
proof -
  let ?ch = "setReadCallback CbAccept (new_Channel fd)" and ?a = "\<lparr>ac_fd = fd, ac_channel = p, ac_hasCallback = False, ac_listenning = False\<rparr>"
  let ?w = "ep_put p ?ch w"
  have ch: "ch_fd ?ch = fd" "ch_index ?ch = kNew" "ch_events ?ch = 0"
    by (simp_all add: setReadCallback_def new_Channel_def kNew_def)
  have inv: "ep_inv ?w" and heap: "ep_heap ?w p = Some ?ch" and own: "ep_channels ?w fd = None"
    using assms(1-3) ch(2) ep_inv_new [of w p ?ch] by (simp_all add: ep_put_def)
  have "ep_can_set ?w p (ev_enableReading (ch_events ?ch))" using heap own ch(1) by (simp add: ep_can_set_def)
  from epc.set_law [of ?w p ?ch ev_enableReading, OF inv heap this] obtain w2 c2 where
    "ep_set_events True ev_enableReading p ?w = Inr w2" "ep_inv w2" "ep_channels w2 = (ep_channels ?w)(fd \<mapsto> p)"
    "ep_heap w2 = (ep_heap ?w)(p \<mapsto> c2)" "ep_watched w2 = (ep_watched ?w)(fd := ev_enableReading 0)" using ch by auto
  with assms(4-6) show ?thesis
    by (intro exI [of _ ?a] exI [of _ ?w] exI [of _ w2])
      (simp add: new_Acceptor_def ac_listen_def createNonblockingOrDie_def Socket_bindAddress_def bindOrDie_def Socket_listen_def
        listenOrDie_def ev_enableReading_def, simp add: ep_put_def)
qed

section \<open>Destruction\<close>

text \<open>
  An acceptor has no destructor of its own, and \<^verbatim>\<open>TcpServer::~TcpServer\<close> is the default one: the channel is destroyed
  without \<^verbatim>\<open>disableAll\<close> and \<^verbatim>\<open>removeChannel\<close>, then the socket is closed, on which the kernel drops the descriptor from the
  interest list.
\<close>

definition destroy_Acceptor :: "acceptor \<Rightarrow> loop_cb epoller \<Rightarrow> loop_cb epoller res" where
  "destroy_Acceptor a w =
    rbind (ep_chan w (ac_channel a)) (\<lambda>c.
    rbind (destroy_Channel c) (\<lambda>_.
    Inr (w\<lparr>ep_heap := (ep_heap w)(ac_channel a := None), ep_interest := (ep_interest w)(ac_fd a := None)\<rparr>)))"

text \<open>
  The poller keeps the address of the destroyed channel, and the next channel of that descriptor number cannot be
  registered: the assertion of \<^verbatim>\<open>updateChannel\<close> fails.
\<close>

theorem destroyed_acceptor_stays_registered:
  assumes "ep_heap w (ac_channel a) = Some c" "\<not> ch_eventHandling c" and reg: "ep_channels w (ac_fd a) = Some (ac_channel a)"
    and ch: "ch_fd ch = ac_fd a" "ch_index ch = kNew"
  shows "\<exists>w'. destroy_Acceptor a w = Inr w' \<and> \<not> ep_inv w' \<and>
    ep_set_events True f q (ep_put q ch w') = Inl (AssertFail ''channels_.find(fd) == channels_.end()'')"
proof -
  let ?w = "w\<lparr>ep_heap := (ep_heap w)(ac_channel a := None), ep_interest := (ep_interest w)(ac_fd a := None)\<rparr>"
  have "destroy_Acceptor a w = Inr ?w" using assms(1,2) by (simp add: destroy_Acceptor_def destroy_Channel_def ep_chan_def)
  moreover have "\<not> ep_inv ?w" using reg by (auto simp: ep_inv_def)
  moreover have "ep_set_events True f q (ep_put q ch ?w) = Inl (AssertFail ''channels_.find(fd) == channels_.end()'')"
    using reg ch by (simp add: ep_set_events_def ep_chan_def ep_updateChannel_def ep_put_def)
  ultimately show ?thesis by blast
qed

end
