(* ===== verification/ConnClient.thy ===== *)
theory ConnClient
  imports TcpConnection
begin

text \<open>
  The contract between a \<^verbatim>\<open>TcpConnection\<close> and the code that uses it through callbacks, as a locale, and what a connection
  guarantees to its owner (\<^verbatim>\<open>TcpServer\<close>, \<^verbatim>\<open>TcpClient\<close>) for every client that keeps the contract: each event handler
  returns and leaves the connection in a phase of its life. The default callbacks keep it.
\<close>

text \<open>
  The owner's close callback: closing is the last thing \<^verbatim>\<open>handleClose\<close> does and the owner's part of it touches nothing of
  the connection, so each call is noted and the owner carries out as many when the handler returns.
\<close>

definition note_close :: "'ctx conn_fun" where
  "note_close c = Inr (c\<lparr>tc_closeCalls := Suc (tc_closeCalls c)\<rparr>)"

definition with_owner :: "'ctx conn_callbacks \<Rightarrow> 'ctx conn_callbacks" where
  "with_owner k = conn_setCloseCallback note_close k"

lemma with_owner_simps [simp]:
  "cb_close (with_owner k) = Some note_close" "cb_connection (with_owner k) = cb_connection k"
  "cb_message (with_owner k) = cb_message k" "cb_writeComplete (with_owner k) = cb_writeComplete k"
  by (simp_all add: with_owner_def conn_setCloseCallback_def)

definition same_notes :: "'ctx tcp_conn \<Rightarrow> 'ctx tcp_conn \<Rightarrow> bool" where
  "same_notes c d \<longleftrightarrow> tc_pending c = tc_pending d \<and> tc_closeCalls c = tc_closeCalls d"

text \<open>
  A client: its callbacks, given the outcome of the one \<^verbatim>\<open>write\<close> a callback may cause; \<open>cinv\<close> is what it keeps of the
  context and the input buffer; \<open>can_read\<close> says which data it can cope with. It sends and shuts down, and queues nothing.
\<close>

locale conn_client =
  fixes k :: "write_result \<Rightarrow> 'ctx conn_callbacks"
    and cinv :: "'ctx tcp_conn \<Rightarrow> bool"
    and can_read :: "'ctx tcp_conn \<Rightarrow> string \<Rightarrow> bool"
  assumes up: "conn_ok c \<Longrightarrow> connected c \<Longrightarrow> stream c = [] \<Longrightarrow> content (tc_input c) = [] \<Longrightarrow>
      \<exists>f c'. cb_connection (k r) = Some f \<and> f c = Inr c' \<and> conn_ok c' \<and> cinv c' \<and> same_place c' c \<and> same_notes c' c"
    and down: "disconnected c \<Longrightarrow> \<exists>f c'. cb_connection (k r) = Some f \<and> f c = Inr c' \<and> disconnected c' \<and>
      tc_poller c' = tc_poller c \<and> same_place c' c \<and> same_notes c' c"
    and message: "conn_ok c \<Longrightarrow> cinv c \<Longrightarrow> can_read c s \<Longrightarrow> buf_inv b \<Longrightarrow> content b = content (tc_input c) @ s \<Longrightarrow>
      \<exists>f c'. cb_message (k r) = Some f \<and> f t (c\<lparr>tc_input := b\<rparr>) = Inr c' \<and> conn_ok c' \<and> cinv c' \<and> same_place c' c \<and> same_notes c' c"
    and cinv_local: "cinv c \<Longrightarrow> tc_context d = tc_context c \<Longrightarrow> tc_input d = tc_input c \<Longrightarrow> cinv d"
    and can_read_poller: "can_read (c\<lparr>tc_poller := w\<rparr>) s = can_read c s"
    and quiet: "cb_writeComplete (k r) = None"

text \<open>What a client keeps depends on nothing but the context and the input buffer.\<close>

definition client_local :: "('ctx tcp_conn \<Rightarrow> bool) \<Rightarrow> bool" where
  "client_local cinv \<longleftrightarrow> (\<forall>c d. cinv c \<longrightarrow> tc_context d = tc_context c \<longrightarrow> tc_input d = tc_input c \<longrightarrow> cinv d)"

text \<open>What the socket can deliver at once, and what the input buffer can hold.\<close>

definition fits_input :: "'ctx tcp_conn \<Rightarrow> string \<Rightarrow> bool" where
  "fits_input c s \<longleftrightarrow> length s \<le> writeableBytes (tc_input c) + extrabuf_size \<and>
    length (content (tc_input c)) + 2 * length s \<le> buf_limit"

lemma readFd_empty: "buf_inv b \<Longrightarrow> \<exists>b'. readFd b (ReadvOk []) = Inr (0, None, b') \<and> buf_inv b'"
  using write_at_writer [of b "[]"] by (simp add: readFd_def Let_def)

text \<open>\<^verbatim>\<open>shutdown\<close> in the loop's thread leaves an open connection open for what is still buffered.\<close>

lemma shutdown_open:
  assumes ok: "conn_ok c"
  shows "\<exists>c'. conn_shutdown True c = Inr c' \<and> conn_ok c' \<and> same_place c' c \<and> same_notes c' c \<and> stream c' = stream c \<and>
    tc_context c' = tc_context c \<and> tc_input c' = tc_input c \<and> \<not> connected c'"
proof -
  from ok have "conn_inv (setState kDisconnecting c)" by (simp add: conn_ok_def conn_inv_def setState_def)
  from shutdownInLoop_ok [OF this] ok show ?thesis
    by (auto simp: conn_shutdown_def conn_ok_def conn_open_def conn_inv_def setState_def same_defs same_notes_def stream_def connected_def)
qed

lemma quiet_no_callbacks [simp]: "quiet no_callbacks"
  by (simp add: quiet_def no_callbacks_def)

text \<open>Sending on an open connection that has room, and shutting it down.\<close>

lemma send_open:
  assumes ok: "conn_ok c" and room: "length (content (tc_output c)) + 2 * length m \<le> buf_limit"
  shows "\<exists>c'. send no_callbacks True r m c = Inr c' \<and> conn_ok c' \<and> same_conn c' c \<and> same_notes c' c \<and>
    stream c' = stream c @ (if connected c then m else [])"
proof (cases "connected c")
  case True
  from ok have inv: "conn_inv c" by (simp add: conn_ok_def)
  from sendInLoop_ok [OF inv room, of no_callbacks r] obtain c' where
    c': "sendInLoop no_callbacks True r m c = Inr c'" "conn_inv c'" "stream c' = stream c @ m" "same_conn c' c" "tc_pending c' = tc_pending c"
    by auto
  with conn_ok_send [OF ok _ c'(2,3,4)] True show ?thesis
    by (simp add: send_def connected_def same_notes_def same_conn_def)
next
  case False
  with ok show ?thesis by (simp add: send_def connected_def same_notes_def same_conn_def)
qed

context conn_client
begin

abbreviation kc :: "write_result \<Rightarrow> 'ctx conn_callbacks" where
  "kc r \<equiv> with_owner (k r)"

lemma loc: "client_local cinv"
  unfolding client_local_def using cinv_local by blast

lemma established:
  assumes "conn_fresh c"
  shows "\<exists>c'. connectEstablished (kc r) True c = Inr c' \<and> conn_ok c' \<and> cinv c' \<and> same_place c' c \<and> same_notes c' c"
proof -
  from connectEstablished_ok [OF assms, of "kc r"] obtain d where
    d: "connectEstablished (kc r) True c = call_function (cb_connection (kc r)) (\<lambda>f. f d)" "conn_ok d" "connected d" "stream d = []"
      "same_place d c" "content (tc_input d) = []" "tc_pending d = []" "tc_closeCalls d = 0" by blast
  from up [OF d(2,3,4,6), of r] obtain f c' where
    "cb_connection (k r) = Some f" "f d = Inr c'" "conn_ok c'" "cinv c'" "same_place c' d" "same_notes c' d" by blast
  moreover from assms d have "same_notes d c" by (simp add: conn_fresh_def same_notes_def)
  ultimately show ?thesis
    using d same_place_trans [of c' d c] by (simp add: call_function_def same_notes_def)
qed

lemma read_data:
  assumes ok: "conn_ok c" "cinv c" and s: "s \<noteq> []" "fits_input c s" "can_read c s"
  shows "\<exists>c'. handleRead (kc r) True (ReadvOk s) t c = Inr c' \<and> conn_ok c' \<and> cinv c' \<and> same_place c' c \<and> same_notes c' c"
proof -
  from ok have "buf_inv (tc_input c)" by (simp add: conn_ok_def conn_inv_def)
  from readFd_ok [OF this] s obtain b where
    b: "readFd (tc_input c) (ReadvOk s) = Inr (int (length s), None, b)" "buf_inv b" "content b = content (tc_input c) @ s"
    by (auto simp: fits_input_def simp del: length_content)
  from message [OF ok s(3) b(2,3), of r t] b(1) s(1) show ?thesis
    by (auto simp: handleRead_def call_function_def)
qed

lemma closed:
  assumes ok: "conn_ok c \<or> conn_silent c"
  shows "\<exists>c'. handleClose (kc r) True c = Inr c' \<and> conn_silent c' \<and> tc_closeCalls c' = Suc (tc_closeCalls c) \<and> tc_pending c' = tc_pending c \<and> same_place c' c"
proof -
  from handleClose_ok [OF ok, of "kc r" note_close] obtain w where
    "handleClose (kc r) True c = note_close (c\<lparr>tc_poller := w\<rparr>)" "conn_silent (c\<lparr>tc_poller := w\<rparr>)"
    "poller_frame (tc_channel c) (tc_fd c) (tc_poller c) w" "keeps_hooks (tc_channel c) (tc_poller c) w" by auto
  then show ?thesis by (simp add: note_close_def conn_silent_def conn_open_def same_place_def)
qed

lemma read_eof:
  assumes ok: "conn_ok c \<or> conn_silent c"
  shows "\<exists>c'. handleRead (kc r) True (ReadvOk []) t c = Inr c' \<and> conn_silent c' \<and> tc_closeCalls c' = Suc (tc_closeCalls c) \<and>
    tc_pending c' = tc_pending c \<and> same_place c' c"
proof -
  from ok have inv: "buf_inv (tc_input c)" by (auto simp: conn_ok_def conn_inv_def conn_silent_def)
  from readFd_empty [OF inv] obtain b where b: "readFd (tc_input c) (ReadvOk []) = Inr (0, None, b)" "buf_inv b" by blast
  have "conn_ok (c\<lparr>tc_input := b\<rparr>) \<or> conn_silent (c\<lparr>tc_input := b\<rparr>)"
    using ok b(2) by (auto simp: conn_ok_def conn_inv_def conn_open_def conn_silent_def)
  from closed [OF this, of r] b(1) show ?thesis by (auto simp: handleRead_def same_place_def)
qed

lemma read_error:
  assumes ok: "conn_ok c \<or> conn_silent c"
  shows "handleRead (kc r) True (ReadvErr e) t c = Inr c"
proof -
  from ok obtain ch where "ep_heap (tc_poller c) (tc_channel c) = Some ch" by (rule conn_ok_silent_parts)
  then show ?thesis by (simp add: handleRead_def readFd_def handleError_def tc_chan_def ep_chan_def)
qed

lemma writable:
  assumes ok: "conn_ok c" "cinv c"
  shows "\<exists>c'. handleWrite (kc r) True wr c = Inr c' \<and> conn_ok c' \<and> cinv c' \<and> same_place c' c \<and> same_notes c' c"
proof -
  from ok(1) have inv: "conn_inv c" by (simp add: conn_ok_def)
  from handleWrite_ok [OF inv, of "kc r" wr] obtain c' where
    c': "handleWrite (kc r) True wr c = Inr c'" "same_place c' c" "tc_input c' = tc_input c" "tc_context c' = tc_context c"
      "same_notes c' c" using quiet [of r] by (auto simp: same_notes_def)
  from conn_step_sim [OF ok(1), of "OpWritable wr" "conn_abs c" "kc r"] c'(1) have "conn_ok c'" by simp
  with c' cinv_local [OF ok(2) c'(4,3)] show ?thesis by blast
qed

lemma destroyed:
  assumes ok: "conn_ok c \<or> conn_silent c"
  shows "\<exists>c' ch. connectDestroyed (kc r) True c = Inr c' \<and> disconnected c' \<and> ep_inv (tc_poller c') \<and> same_place c' c \<and>
    same_notes c' c \<and> ep_heap (tc_poller c') (tc_channel c) = Some ch \<and> ch_fd ch = tc_fd c \<and>
    ep_channels (tc_poller c') (tc_fd c) = None"
proof -
  have "disconnected (undefined\<lparr>tc_state := kDisconnected\<rparr>)" by (simp add: disconnected_def)
  from down [OF this, of r] obtain f where f: "cb_connection (k r) = Some f" by blast
  from connectDestroyed_ok [OF ok, of "kc r" f] f down [where r = r] show ?thesis
    by (fastforce simp: same_notes_def)
qed

end

section \<open>The default callbacks\<close>

definition default_callbacks :: "write_result \<Rightarrow> 'ctx conn_callbacks" where
  "default_callbacks r = setMessageCallback defaultMessageCallback (setConnectionCallback defaultConnectionCallback no_callbacks)"

lemma default_callbacks_simps [simp]:
  "cb_connection (default_callbacks r) = Some defaultConnectionCallback"
  "cb_message (default_callbacks r) = Some defaultMessageCallback" "cb_writeComplete (default_callbacks r) = None"
  by (simp_all add: default_callbacks_def setMessageCallback_def setConnectionCallback_def no_callbacks_def)

interpretation dcl: conn_client default_callbacks "\<lambda>c. True" "\<lambda>c s. True"
  by unfold_locales
    (auto simp: defaultConnectionCallback_def defaultMessageCallback_def same_defs same_notes_def conn_ok_def conn_inv_def conn_open_def)

end
