(* ===== verification/ConnEvents.thy ===== *)
theory ConnEvents
  imports ConnClient
begin

text \<open>
  A connection under its channel: what one \<^verbatim>\<open>Channel::handleEvent\<close> does to a \<^verbatim>\<open>TcpConnection\<close>, with the callbacks that the
  constructor of the connection has stored in the channel. An event may report several conditions at once, so that one
  handler runs after another has already closed the connection.
\<close>

section \<open>Model\<close>

definition conn_get :: "'ctx tcp_conn \<Rightarrow> loop_cb channel" where
  "conn_get c = (case ep_heap (tc_poller c) (tc_channel c) of Some ch \<Rightarrow> ch | None \<Rightarrow> new_Channel (-1))"

definition conn_put :: "(loop_cb channel \<Rightarrow> loop_cb channel) \<Rightarrow> 'ctx tcp_conn \<Rightarrow> 'ctx tcp_conn" where
  "conn_put g c = c\<lparr>tc_poller := ep_put (tc_channel c) (g (conn_get c)) (tc_poller c)\<rparr>"

text \<open>The callbacks of the channel; \<open>wr\<close> and \<open>rv\<close> are the outcomes of \<^verbatim>\<open>write\<close> and \<^verbatim>\<open>readv\<close>.\<close>

definition run_conn_cb :: "'ctx conn_callbacks \<Rightarrow> write_result \<Rightarrow> loop_cb \<Rightarrow> 'ctx conn_fun" where
  "run_conn_cb k wr cb c = (case cb of
     CbWrite \<Rightarrow> handleWrite k True wr c
   | CbClose \<Rightarrow> handleClose k True c
   | CbError \<Rightarrow> handleError c
   | _ \<Rightarrow> Inr c)"

definition run_conn_read :: "'ctx conn_callbacks \<Rightarrow> readv_result \<Rightarrow> loop_cb \<Rightarrow> time_point \<Rightarrow> 'ctx conn_fun" where
  "run_conn_read k rv cb t c = (case cb of CbRead \<Rightarrow> handleRead k True rv t c | _ \<Rightarrow> Inr c)"

definition conn_handleEvent :: "'ctx conn_callbacks \<Rightarrow> readv_result \<Rightarrow> write_result \<Rightarrow> time_point \<Rightarrow> 'ctx conn_fun" where
  "conn_handleEvent k rv wr t c = handleEvent conn_get conn_put (run_conn_cb k wr) (run_conn_read k rv) t c"

section \<open>What the reported conditions ask for\<close>

definition hangs_up :: "flags \<Rightarrow> bool" where
  "hangs_up r \<longleftrightarrow> r AND POLLHUP \<noteq> 0 \<and> r AND POLLIN = 0"

definition reads :: "flags \<Rightarrow> bool" where
  "reads r \<longleftrightarrow> r AND (POLLIN OR POLLPRI OR POLLRDHUP) \<noteq> 0"

text \<open>
  How often \<^verbatim>\<open>handleClose\<close> runs for one event of an open connection: for a hang-up, and for an end of stream read after it.
\<close>

definition closes :: "flags \<Rightarrow> readv_result \<Rightarrow> nat" where
  "closes re rv = (if hangs_up re then 1 else 0) + (if reads re \<and> rv = ReadvOk [] then 1 else 0)"

text \<open>
  The kernel hypothesis of the owners of connections: an event that reports a hang-up without \<^verbatim>\<open>POLLIN\<close>, together with
  \<^verbatim>\<open>POLLPRI\<close> or \<^verbatim>\<open>POLLRDHUP\<close>, has nothing to read, so that its \<^verbatim>\<open>readv\<close> fails. Linux reports \<^verbatim>\<open>POLLIN\<close> with every hang-up
  of a TCP socket; POSIX does not require it.
\<close>

definition hup_unread :: "flags \<Rightarrow> readv_result \<Rightarrow> bool" where
  "hup_unread re rv \<longleftrightarrow> \<not> (hangs_up re \<and> reads re \<and> (case rv of ReadvErr e \<Rightarrow> False | ReadvOk d \<Rightarrow> True))"

lemma closes_unread: "hup_unread re rv \<Longrightarrow> closes re rv = (if hangs_up re \<or> reads re \<and> rv = ReadvOk [] then 1 else 0)"
  by (auto simp: hup_unread_def closes_def)

definition hooked :: "'ctx tcp_conn \<Rightarrow> bool" where
  "hooked c \<longleftrightarrow> (\<exists>ch. ep_heap (tc_poller c) (tc_channel c) = Some ch \<and> ch_readCallback ch = Some CbRead \<and>
    ch_writeCallback ch = Some CbWrite \<and> ch_closeCallback ch = Some CbClose \<and> ch_errorCallback ch = Some CbError)"

lemma hooked_simps:
  assumes "hooked c"
  shows "ch_readCallback (conn_get c) = Some CbRead" "ch_writeCallback (conn_get c) = Some CbWrite"
    "ch_closeCallback (conn_get c) = Some CbClose" "ch_errorCallback (conn_get c) = Some CbError"
  using assms by (auto simp: hooked_def conn_get_def)

lemma hooked_place:
  assumes "hooked c" and "same_place d c"
  shows "hooked d" and "ch_revents (conn_get d) = ch_revents (conn_get c)"
proof -
  from assms(1) obtain ch where ch: "ep_heap (tc_poller c) (tc_channel c) = Some ch" "ch_readCallback ch = Some CbRead"
    "ch_writeCallback ch = Some CbWrite" "ch_closeCallback ch = Some CbClose" "ch_errorCallback ch = Some CbError"
    by (auto simp: hooked_def)
  with assms(2) obtain ch' where "ep_heap (tc_poller d) (tc_channel d) = Some ch'" "same_hooks ch' ch"
    by (auto simp: same_place_def keeps_hooks_def)
  with ch show "hooked d" "ch_revents (conn_get d) = ch_revents (conn_get c)"
    by (auto simp: hooked_def same_hooks_def conn_get_def)
qed

text \<open>A new connection has its callbacks in its channel.\<close>

lemma new_TcpConnection_hooked: "hooked (new_TcpConnection name fd p la pa hwm w)"
  by (simp add: hooked_def new_TcpConnection_def ep_put_def set_callback_defs)

abbreviation flagged :: "bool \<Rightarrow> 'ctx tcp_conn \<Rightarrow> 'ctx tcp_conn" where
  "flagged b c \<equiv> conn_put (\<lambda>ch. ch\<lparr>ch_eventHandling := b\<rparr>) c"

text \<open>The poller has stored what it reports in the channel.\<close>

definition reported :: "flags \<Rightarrow> 'ctx tcp_conn \<Rightarrow> 'ctx tcp_conn" where
  "reported re c = conn_put (\<lambda>ch. ch\<lparr>ch_revents := re\<rparr>) c"

lemma reported_simps:
  assumes "hooked c"
  shows "ch_revents (conn_get (reported re c)) = re" "hooked (reported re c)" "same_spot (reported re c) c"
    "same_notes (reported re c) c" "tc_context (reported re c) = tc_context c" "tc_input (reported re c) = tc_input c"
    "conn_ok c \<Longrightarrow> conn_ok (reported re c)" "\<exists>w. reported re c = c\<lparr>tc_poller := w\<rparr>"
proof -
  from assms obtain ch where ch: "ep_heap (tc_poller c) (tc_channel c) = Some ch" by (auto simp: hooked_def)
  have fl: "reported re c = c\<lparr>tc_poller := ep_put (tc_channel c) (ch\<lparr>ch_revents := re\<rparr>) (tc_poller c)\<rparr>"
    using ch by (simp add: reported_def conn_put_def conn_get_def)
  show "ch_revents (conn_get (reported re c)) = re" "hooked (reported re c)" "same_spot (reported re c) c"
    "same_notes (reported re c) c" "tc_context (reported re c) = tc_context c" "tc_input (reported re c) = tc_input c"
    using ch assms by (simp_all add: fl conn_get_def same_spot_def poller_frame_def same_notes_def hooked_def) (simp_all add: ep_put_def)
  show "conn_ok (reported re c)" if "conn_ok c"
    using that ch ep_inv_revents [of "tc_poller c" "tc_channel c" ch re]
    by (auto simp: fl conn_ok_def conn_inv_def conn_open_def isWriting_def) (auto simp: ep_put_def)
  show "\<exists>w. reported re c = c\<lparr>tc_poller := w\<rparr>" using fl by blast
qed

lemma flagged_simps:
  assumes "hooked c"
  shows "conn_get (flagged b c) = (conn_get c)\<lparr>ch_eventHandling := b\<rparr>" "same_place (flagged b c) c" "same_notes (flagged b c) c"
    "tc_context (flagged b c) = tc_context c" "tc_input (flagged b c) = tc_input c"
    "conn_ok c \<Longrightarrow> conn_ok (flagged b c)" "conn_silent c \<Longrightarrow> conn_silent (flagged b c)"
proof -
  from assms obtain ch where ch: "ep_heap (tc_poller c) (tc_channel c) = Some ch" by (auto simp: hooked_def)
  have fl: "flagged b c = c\<lparr>tc_poller := ep_put (tc_channel c) (ch\<lparr>ch_eventHandling := b\<rparr>) (tc_poller c)\<rparr>"
    using ch by (simp add: conn_put_def conn_get_def)
  show "conn_get (flagged b c) = (conn_get c)\<lparr>ch_eventHandling := b\<rparr>" "same_place (flagged b c) c" "same_notes (flagged b c) c"
    "tc_context (flagged b c) = tc_context c" "tc_input (flagged b c) = tc_input c"
    using ch by (simp_all add: fl conn_get_def same_defs same_notes_def keeps_hooks_def same_hooks_def) (simp_all add: ep_put_def)
  show "conn_ok (flagged b c)" if "conn_ok c"
    using that ch ep_inv_flag [of "tc_poller c" "tc_channel c" ch b]
    by (auto simp: fl conn_ok_def conn_inv_def conn_open_def isWriting_def) (auto simp: ep_put_def)
  show "conn_silent (flagged b c)" if "conn_silent c"
    using that ch ep_inv_flag [of "tc_poller c" "tc_channel c" ch b]
    by (auto simp: fl conn_silent_def conn_open_def) (auto simp: ep_put_def)
qed

text \<open>Handlers that run after the connection was closed do nothing.\<close>

lemma silent_handlers:
  assumes "conn_silent c"
  shows "handleWrite k True wr c = Inr c" "handleError c = Inr c"
  using assms
  by (auto simp: conn_silent_def handleWrite_def handleError_def tc_chan_def ep_chan_def isWriting_def)

lemma open_handleError: "conn_ok c \<Longrightarrow> handleError c = Inr c"
  by (auto simp: conn_ok_def handleError_def elim!: conn_invE)

section \<open>One event\<close>

text \<open>
  The state between two handlers: \<open>n\<close> counts how often the connection was closed on the way.
\<close>

definition conn_stage :: "('ctx tcp_conn \<Rightarrow> bool) \<Rightarrow> 'ctx tcp_conn \<Rightarrow> nat \<Rightarrow> 'ctx tcp_conn \<Rightarrow> bool" where
  "conn_stage cinv c n d \<longleftrightarrow> hooked d \<and> same_place d c \<and> ch_revents (conn_get d) = ch_revents (conn_get c) \<and> tc_pending d = [] \<and>
    tc_closeCalls d = n \<and> (if 0 < n then conn_silent d else conn_ok d \<and> cinv d)"

lemma conn_stage_step:
  assumes "conn_stage cinv c g d" and "same_place e d" and "tc_pending e = []" "tc_closeCalls e = h"
    and "if 0 < h then conn_silent e else conn_ok e \<and> cinv e"
  shows "conn_stage cinv c h e"
  using assms hooked_place [of d e] same_place_trans [of e d c] by (auto simp: conn_stage_def)

context conn_client
begin

lemma stage_flag: "conn_stage cinv c g d \<Longrightarrow> conn_stage cinv c g (flagged b d)"
  using flagged_simps [of d b] loc by (intro conn_stage_step [of cinv c g d "flagged b d" g])
    (auto simp: conn_stage_def same_notes_def client_local_def split: if_splits)

lemma stage_close:
  assumes "conn_stage cinv c 0 d"
  shows "\<exists>e. call_if b (run_conn_cb (kc r) wr) (ch_closeCallback (conn_get d)) d = Inr e \<and> conn_stage cinv c (if b then 1 else 0) e \<and> (\<not> b \<longrightarrow> e = d)"
proof (cases b)
  case True
  from assms have d: "conn_ok d" "hooked d" "tc_pending d = []" "tc_closeCalls d = 0" by (simp_all add: conn_stage_def)
  from closed [OF disjI1 [OF d(1)], of r] obtain e where "handleClose (kc r) True d = Inr e" "conn_silent e" "tc_closeCalls e = 1"
    "tc_pending e = []" "same_place e d" using d(3,4) by auto
  moreover from this have "conn_stage cinv c 1 e" by (intro conn_stage_step [OF assms]) auto
  ultimately show ?thesis using True hooked_simps [OF d(2)] by (simp add: call_if_def run_conn_cb_def)
qed (use assms in \<open>simp add: call_if_def\<close>)

lemma stage_error:
  assumes "conn_stage cinv c g d"
  shows "call_if b (run_conn_cb (kc r) wr) (ch_errorCallback (conn_get d)) d = Inr d"
  using assms silent_handlers(2) [of d] open_handleError [of d] hooked_simps [of d]
  by (auto simp: conn_stage_def call_if_def run_conn_cb_def split: if_splits)

lemma stage_read:
  assumes st: "conn_stage cinv c n d"
    and data: "b \<Longrightarrow> case rv of ReadvErr e \<Rightarrow> True | ReadvOk s \<Rightarrow> s = [] \<or> n = 0 \<and> fits_input d s \<and> can_read d s"
  shows "\<exists>e. call_if b (\<lambda>cb. run_conn_read (kc r) rv cb t) (ch_readCallback (conn_get d)) d = Inr e \<and>
    conn_stage cinv c (n + (if b \<and> rv = ReadvOk [] then 1 else 0)) e"
proof (cases b)
  case True
  from st have d: "conn_ok d \<or> conn_silent d" "hooked d" "tc_pending d = []" "tc_closeCalls d = n"
    by (simp_all add: conn_stage_def split: if_splits)
  have "\<exists>e. handleRead (kc r) True rv t d = Inr e \<and> conn_stage cinv c (n + (if rv = ReadvOk [] then 1 else 0)) e"
  proof (cases "\<exists>s. rv = ReadvOk s")
    case False
    then obtain x where "rv = ReadvErr x" by (cases rv) auto
    with read_error [OF d(1), of r x t] st show ?thesis by simp
  next
    case ok: True
    then obtain s where s: "rv = ReadvOk s" by blast
    show ?thesis
    proof (cases "s = []")
      case True
      from read_eof [OF d(1), of r t] obtain e where
        "handleRead (kc r) True (ReadvOk []) t d = Inr e" "conn_silent e" "tc_closeCalls e = Suc n" "tc_pending e = []" "same_place e d"
        using d(3,4) by auto
      moreover from this have "conn_stage cinv c (Suc n) e" by (intro conn_stage_step [OF st]) auto
      ultimately show ?thesis using s True by simp
    next
      case False
      with data s \<open>b\<close> have n: "n = 0" and fit: "fits_input d s" "can_read d s" by auto
      from st n have ok: "conn_ok d" "cinv d" by (simp_all add: conn_stage_def)
      from read_data [OF ok False fit, of r t] obtain e where
        "handleRead (kc r) True rv t d = Inr e" "conn_ok e" "cinv e" "same_place e d" "same_notes e d" using s by auto
      moreover from this have "conn_stage cinv c 0 e" using d(3,4) n by (intro conn_stage_step [OF st]) (auto simp: same_notes_def)
      ultimately show ?thesis using s False n by simp
    qed
  qed
  with True hooked_simps [OF d(2)] show ?thesis by (simp add: call_if_def run_conn_read_def)
qed (use st in \<open>simp add: call_if_def\<close>)

lemma stage_write:
  assumes st: "conn_stage cinv c g d"
  shows "\<exists>e. call_if b (run_conn_cb (kc r) wr) (ch_writeCallback (conn_get d)) d = Inr e \<and> conn_stage cinv c g e"
proof (cases b)
  case True
  from st have h: "hooked d" by (simp add: conn_stage_def)
  have "\<exists>e. handleWrite (kc r) True wr d = Inr e \<and> conn_stage cinv c g e"
  proof (cases "0 < g")
    case True
    with st silent_handlers(1) [of d] show ?thesis by (simp add: conn_stage_def)
  next
    case False
    with st have d: "conn_ok d" "cinv d" "tc_pending d = []" "tc_closeCalls d = 0" by (simp_all add: conn_stage_def)
    from writable [OF d(1,2), of r wr] obtain e where
      e: "handleWrite (kc r) True wr d = Inr e" "conn_ok e" "cinv e" "same_place e d" "same_notes e d" by blast
    then have "conn_stage cinv c g e" using d False by (intro conn_stage_step [OF st]) (auto simp: same_notes_def)
    with e(1) show ?thesis by blast
  qed
  with True hooked_simps [OF h] show ?thesis by (simp add: call_if_def run_conn_cb_def)
qed (use st in \<open>simp add: call_if_def\<close>)

lemma event_handled:
  assumes ok: "conn_ok c" "cinv c" "hooked c" "tc_pending c = []" "tc_closeCalls c = 0" and re: "ch_revents (conn_get c) = re"
    and data: "reads re \<Longrightarrow> case rv of ReadvErr e \<Rightarrow> True
      | ReadvOk s \<Rightarrow> s = [] \<or> \<not> hangs_up re \<and> fits_input c s \<and> can_read c s"
  shows "\<exists>c'. conn_handleEvent (kc r) rv wr t c = Inr c' \<and> conn_stage cinv c (closes re rv) c' \<and> \<not> ch_eventHandling (conn_get c')"
proof -
  let ?w = "flagged True c" and ?h = "if hangs_up re then 1 else 0 :: nat"
  have revents: "ch_revents (conn_get d) = re" if "conn_stage cinv c g d" for g d using that re by (simp add: conn_stage_def)
  have "conn_stage cinv c 0 c" using ok by (simp add: conn_stage_def)
  then have st0: "conn_stage cinv c 0 ?w" by (rule stage_flag)
  obtain c1 where c1: "call_if (hangs_up re) (run_conn_cb (kc r) wr) (ch_closeCallback (conn_get ?w)) ?w = Inr c1"
    "conn_stage cinv c ?h c1" "\<not> hangs_up re \<longrightarrow> c1 = ?w" using stage_close [OF st0] by blast
  note c2 = stage_error [OF c1(2), of "re AND (POLLERR OR POLLNVAL) \<noteq> 0" r wr]
  have "fits_input ?w s = fits_input c s" "can_read ?w s = can_read c s" for s
    by (simp_all add: conn_put_def fits_input_def can_read_poller)
  with data c1(3) have "reads re \<Longrightarrow> case rv of ReadvErr e \<Rightarrow> True | ReadvOk s \<Rightarrow> s = [] \<or> ?h = 0 \<and> fits_input c1 s \<and> can_read c1 s"
    by (auto split: readv_result.splits)
  from stage_read [OF c1(2) this, where r = r and t = t] obtain c3 where
    c3: "call_if (reads re) (\<lambda>cb. run_conn_read (kc r) rv cb t) (ch_readCallback (conn_get c1)) c1 = Inr c3"
      "conn_stage cinv c (closes re rv) c3" by (auto simp: closes_def)
  obtain c4 where c4: "call_if (re AND POLLOUT \<noteq> 0) (run_conn_cb (kc r) wr) (ch_writeCallback (conn_get c3)) c3 = Inr c4"
    "conn_stage cinv c (closes re rv) c4" using stage_write [OF c3(2)] by blast
  have "conn_handleEvent (kc r) rv wr t c = Inr (flagged False c4)"
    using c1(1) c2 c3(1) c4(1)
    by (simp add: conn_handleEvent_def handleEvent_def Let_def revents [OF st0] revents [OF c1(2)] revents [OF c3(2)]
      flip: hangs_up_def reads_def)
  moreover have "hooked c4" using c4(2) by (simp add: conn_stage_def)
  ultimately show ?thesis using stage_flag [OF c4(2), of False] flagged_simps(1) [of c4 False] by simp
qed

lemma established_hooked:
  assumes "conn_fresh c" and "hooked c"
  obtains c' where "connectEstablished (kc r) True c = Inr c'" "conn_ok c'" "cinv c'" "same_spot c' c" "hooked c'"
    "tc_pending c' = []" "tc_closeCalls c' = 0"
proof -
  from established [OF assms(1), of r] obtain c' where
    "connectEstablished (kc r) True c = Inr c'" "conn_ok c'" "cinv c'" "same_place c' c" "same_notes c' c" by blast
  with that hooked_place [OF assms(2), of c'] assms(1) same_place_spot [of c' c] show thesis
    by (simp add: conn_fresh_def same_notes_def)
qed

lemma event_after_poll:
  assumes ok: "conn_ok c" "cinv c" "hooked c" "tc_pending c = []" "tc_closeCalls c = 0"
    and data: "reads re \<Longrightarrow> case rv of ReadvErr e \<Rightarrow> True
      | ReadvOk s \<Rightarrow> s = [] \<or> \<not> hangs_up re \<and> fits_input c s \<and> can_read c s"
  shows "\<exists>c'. conn_handleEvent (kc r) rv wr t (reported re c) = Inr c' \<and> same_spot c' c \<and> hooked c' \<and> tc_pending c' = [] \<and>
    \<not> ch_eventHandling (conn_get c') \<and> tc_closeCalls c' = closes re rv \<and>
    (if 0 < closes re rv then conn_silent c' else conn_ok c' \<and> cinv c')"
proof -
  note rs = reported_simps [OF ok(3), of re]
  from rs(8) obtain w where w: "reported re c = c\<lparr>tc_poller := w\<rparr>" by blast
  have "fits_input (reported re c) s = fits_input c s" "can_read (reported re c) s = can_read c s" for s
    by (simp_all add: w fits_input_def can_read_poller)
  with data have data': "reads re \<Longrightarrow> case rv of ReadvErr e \<Rightarrow> True
      | ReadvOk s \<Rightarrow> s = [] \<or> \<not> hangs_up re \<and> fits_input (reported re c) s \<and> can_read (reported re c) s"
    by (simp split: readv_result.splits)
  have "cinv (reported re c)" using cinv_local [OF ok(2) rs(5,6)] .
  moreover have "tc_pending (reported re c) = []" "tc_closeCalls (reported re c) = 0" using rs(4) ok(4,5) by (simp_all add: same_notes_def)
  ultimately obtain c' where c': "conn_handleEvent (kc r) rv wr t (reported re c) = Inr c'"
    "conn_stage cinv (reported re c) (closes re rv) c'" "\<not> ch_eventHandling (conn_get c')"
    using event_handled [OF rs(7) [OF ok(1)] _ rs(2) _ _ rs(1) data', of r wr t] by blast
  from c'(2) have "same_spot c' c" using same_spot_trans [OF same_place_spot rs(3)] by (simp add: conn_stage_def)
  with c' show ?thesis by (simp add: conn_stage_def)
qed

end

section \<open>Property\<close>

text \<open>
  C14: A poll event on an open connection is handled whole by the channel and the connection, for every combination of
  reported conditions and every outcome of the read except data that comes with a hang-up without \<^verbatim>\<open>POLLIN\<close>, and
  with user callbacks that keep their contract: no assertion of either fails although
  a handler may run after another has closed the connection. The owner's close callback is called once for a hang-up
  and once for an end of stream, so twice if a hang-up without \<^verbatim>\<open>POLLIN\<close> is reported together with another readable
  condition and the read then finds the end of the stream; if it was called, the channel is silent, and otherwise the
  connection is open and keeps the user's invariant. The channel is not left in the middle of an event, so that it may be
  destroyed. The data read must be what the user's contract copes with.
\<close>

theorem connection_event:
  assumes "conn_client k cinv can_read" and "conn_ok c" "cinv c" "hooked c" "tc_pending c = []" "tc_closeCalls c = 0"
    and "reads re \<Longrightarrow> case rv of ReadvErr e \<Rightarrow> True
      | ReadvOk s \<Rightarrow> s = [] \<or> \<not> hangs_up re \<and> fits_input c s \<and> can_read c s"
  shows "\<exists>c'. conn_handleEvent (with_owner (k r)) rv wr t (reported re c) = Inr c' \<and> destroy_Channel (conn_get c') = Inr () \<and>
    tc_closeCalls c' = (if hangs_up re then 1 else 0) + (if reads re \<and> rv = ReadvOk [] then 1 else 0) \<and>
    (if tc_closeCalls c' = 0 then conn_ok c' \<and> cinv c' else ch_events (conn_get c') = 0)"
proof -
  from conn_client.event_after_poll [OF assms, of r wr t] obtain c' where
    c': "conn_handleEvent (with_owner (k r)) rv wr t (reported re c) = Inr c'" "\<not> ch_eventHandling (conn_get c')"
    "tc_closeCalls c' = closes re rv" "if 0 < closes re rv then conn_silent c' else conn_ok c' \<and> cinv c'" by blast
  then have "destroy_Channel (conn_get c') = Inr ()"
    "if tc_closeCalls c' = 0 then conn_ok c' \<and> cinv c' else ch_events (conn_get c') = 0"
    by (auto simp: destroy_Channel_def conn_silent_def conn_get_def split: if_splits)
  with c'(1,3) show ?thesis by (auto simp: closes_def)
qed

text \<open>The witness is the double call: a hang-up with urgent data announced, and the end of the stream read.\<close>

theorem connection_event_witness:
  "\<exists>c'. conn_handleEvent (with_owner (default_callbacks (WriteN 0))) (ReadvOk []) (WriteN 3) 7 (reported (POLLPRI OR POLLOUT OR POLLHUP) sample_conn) = Inr c' \<and>
    destroy_Channel (conn_get c') = Inr () \<and> tc_closeCalls c' = 2 \<and> ch_events (conn_get c') = 0"
proof -
  have "reads (POLLPRI OR POLLOUT OR POLLHUP)" "hangs_up (POLLPRI OR POLLOUT OR POLLHUP)"
    by (simp_all add: reads_def hangs_up_def poll_flag_defs)
  moreover have "hooked sample_conn" "tc_pending sample_conn = []" "tc_closeCalls sample_conn = 0"
    by (simp_all add: hooked_def open_sample_def setState_def new_TcpConnection_def ep_put_def conn_chan_def set_callback_defs)
  ultimately show ?thesis
    using connection_event [OF dcl.conn_client_axioms, of sample_conn "POLLPRI OR POLLOUT OR POLLHUP" "ReadvOk []" "WriteN 0" "WriteN 3" 7] by auto
qed

end
