(* ===== verification/TcpServer.thy ===== *)
theory TcpServer
  imports Acceptor ConnEvents LoopThreads StdContainers
begin

text \<open>
  \<^verbatim>\<open>TcpServer\<close> (\<^verbatim>\<open>src/src/TcpServer.hpp\<close>, \<^verbatim>\<open>TcpServer.cpp\<close>) over its acceptor, its thread pool, the pollers of all its loops
  (\<open>sv_pollers\<close>, by the address of the loop) and its connections. Connection objects live on a heap \<open>sv_conns\<close> with the
  loop they belong to; \<open>sv_pending\<close> are the functors queued in the loops, in the order they were queued. A connection
  works on the poller of its loop: it is given the poller before each operation and returns it after. The first
  argument \<open>cur\<close> of an operation is the loop in whose thread it runs.
\<close>

section \<open>Model\<close>

datatype server_fn =
    SListen int
  | SEstablish nat
  | SRemove nat
  | SDestroy nat
  | SConn nat conn_fn

record 'ctx tcp_server =
  sv_ipPort :: string
  sv_name :: string
  sv_acceptor :: acceptor
  sv_pool :: thread_pool
  sv_callbacks :: "write_result \<Rightarrow> 'ctx conn_callbacks"
  sv_threadInit :: bool
  sv_started :: bool
  sv_nextConnId :: int
  sv_connections :: "(string \<times> nat) list"
  sv_conns :: "nat \<Rightarrow> (nat \<times> 'ctx tcp_conn) option"
  sv_pollers :: "nat \<Rightarrow> loop_cb epoller"
  sv_pending :: "(nat \<times> server_fn) list"

abbreviation sv_base :: "'ctx tcp_server \<Rightarrow> nat" where
  "sv_base s \<equiv> tp_baseLoop (sv_pool s)"

definition new_TcpServer ::
  "nat \<Rightarrow> InetAddress \<Rightarrow> string \<Rightarrow> int \<Rightarrow> int \<Rightarrow> nat \<Rightarrow> (nat \<Rightarrow> loop_cb epoller) \<Rightarrow> 'ctx tcp_server res" where
  "new_TcpServer base listenAddr nameArg sockfd ret p pollers =
    rbind (new_Acceptor sockfd ret p (pollers base)) (\<lambda>(a, w).
    Inr \<lparr>sv_ipPort = InetAddress_toHostPort listenAddr, sv_name = nameArg, sv_acceptor = ac_setNewConnectionCallback a,
      sv_pool = new_EventLoopThreadPool base, sv_callbacks = default_callbacks, sv_threadInit = False, sv_started = False, sv_nextConnId = 1,
      sv_connections = [], sv_conns = Map.empty, sv_pollers = pollers(base := w), sv_pending = []\<rparr>)"

definition sv_setThreadNum :: "int \<Rightarrow> 'ctx tcp_server \<Rightarrow> 'ctx tcp_server res" where
  "sv_setThreadNum n s = guard (0 \<le> n) (AssertFail ''0 <= numThreads'') (Inr (s\<lparr>sv_pool := setThreadNum n (sv_pool s)\<rparr>))"

text \<open>\<^verbatim>\<open>setThreadInitCallback\<close> stores the callback, which nothing calls: the model keeps that there is one.\<close>

definition setThreadInitCallback :: "'ctx tcp_server \<Rightarrow> 'ctx tcp_server" where
  "setThreadInitCallback s = s\<lparr>sv_threadInit := True\<rparr>"

definition sv_setConnectionCallback :: "(write_result \<Rightarrow> 'ctx conn_fun) \<Rightarrow> 'ctx tcp_server \<Rightarrow> 'ctx tcp_server" where
  "sv_setConnectionCallback f s = s\<lparr>sv_callbacks := (\<lambda>r. setConnectionCallback (f r) (sv_callbacks s r))\<rparr>"

definition sv_setMessageCallback :: "(write_result \<Rightarrow> time_point \<Rightarrow> 'ctx conn_fun) \<Rightarrow> 'ctx tcp_server \<Rightarrow> 'ctx tcp_server" where
  "sv_setMessageCallback f s = s\<lparr>sv_callbacks := (\<lambda>r. setMessageCallback (f r) (sv_callbacks s r))\<rparr>"

definition sv_setWriteCompleteCallback :: "(write_result \<Rightarrow> 'ctx conn_fun) \<Rightarrow> 'ctx tcp_server \<Rightarrow> 'ctx tcp_server" where
  "sv_setWriteCompleteCallback f s = s\<lparr>sv_callbacks := (\<lambda>r. setWriteCompleteCallback (f r) (sv_callbacks s r))\<rparr>"

definition sv_queue :: "nat \<Rightarrow> server_fn \<Rightarrow> 'ctx tcp_server \<Rightarrow> 'ctx tcp_server" where
  "sv_queue l f s = s\<lparr>sv_pending := sv_pending s @ [(l, f)]\<rparr>"

definition sv_listen :: "nat \<Rightarrow> int \<Rightarrow> 'ctx tcp_server \<Rightarrow> 'ctx tcp_server res" where
  "sv_listen cur ret s =
    rbind (ac_listen (cur = sv_base s) ret (sv_acceptor s) (sv_pollers s (sv_base s))) (\<lambda>(a, w).
    Inr (s\<lparr>sv_acceptor := a, sv_pollers := (sv_pollers s)(sv_base s := w)\<rparr>))"

text \<open>\<^verbatim>\<open>start\<close>: \<open>addr\<close> are the addresses of the loops of the pool's threads, \<open>ret\<close> is what \<^verbatim>\<open>listen\<close> returns.\<close>

definition sv_start :: "nat \<Rightarrow> (nat \<Rightarrow> nat) \<Rightarrow> int \<Rightarrow> 'ctx tcp_server \<Rightarrow> 'ctx tcp_server res" where
  "sv_start cur addr ret s =
    (if \<not> sv_started s then
       let s = s\<lparr>sv_started := True\<rparr> in
       rbind (pool_start (cur = sv_base s) addr (sv_pool s)) (\<lambda>pool.
       let s = s\<lparr>sv_pool := pool\<rparr> in
       guard (\<not> ac_listenning (sv_acceptor s)) (AssertFail ''!acceptor_->listenning()'')
         (if cur = sv_base s then sv_listen cur ret s else Inr (sv_queue (sv_base s) (SListen ret) s)))
     else Inr s)"

definition removeConnectionInLoop :: "nat \<Rightarrow> nat \<Rightarrow> 'ctx tcp_server \<Rightarrow> 'ctx tcp_server res" where
  "removeConnectionInLoop cur i s =
    assertInLoopThread (cur = sv_base s)
   (case sv_conns s i of
      None \<Rightarrow> Inl (UndefinedBehaviour ''no connection at this address'')
    | Some (l, c) \<Rightarrow>
        guard (map_of (sv_connections s) (tc_name c) \<noteq> None) (AssertFail ''n == 1'')
          (Inr (sv_queue l (SDestroy i) (s\<lparr>sv_connections := map_erase (tc_name c) (sv_connections s)\<rparr>))))"

definition removeConnection :: "nat \<Rightarrow> nat \<Rightarrow> 'ctx tcp_server \<Rightarrow> 'ctx tcp_server res" where
  "removeConnection cur i s =
    (if cur = sv_base s then removeConnectionInLoop cur i s else Inr (sv_queue (sv_base s) (SRemove i) s))"

text \<open>
  An operation of connection \<open>i\<close> in the thread of \<open>cur\<close>: it gets the poller of the connection's loop; what the
  connection queued goes to that loop, and the close callback is carried out as often as it was called.
\<close>

definition sv_on :: "nat \<Rightarrow> nat \<Rightarrow> (bool \<Rightarrow> 'ctx conn_fun) \<Rightarrow> 'ctx tcp_server \<Rightarrow> 'ctx tcp_server res" where
  "sv_on cur i f s = (case sv_conns s i of
     None \<Rightarrow> Inl (UndefinedBehaviour ''no connection at this address'')
   | Some (l, c) \<Rightarrow>
       rbind (f (cur = l) (c\<lparr>tc_poller := sv_pollers s l\<rparr>)) (\<lambda>c.
       let s = s\<lparr>sv_conns := (sv_conns s)(i \<mapsto> (l, c\<lparr>tc_pending := [], tc_closeCalls := 0\<rparr>)),
             sv_pollers := (sv_pollers s)(l := tc_poller c),
             sv_pending := sv_pending s @ map (\<lambda>f. (l, SConn i f)) (tc_pending c)\<rparr>
       in repeat_calls (tc_closeCalls c) (removeConnection cur i) s))"

definition conn_name :: "'ctx tcp_server \<Rightarrow> int \<Rightarrow> string" where
  "conn_name s n = sv_name s @ snprintf_out 32 (''#'' @ show_int n)"

text \<open>\<^verbatim>\<open>newConnection\<close>: \<open>i\<close> and \<open>p\<close> are the addresses of the new connection and its channel, \<open>sn\<close> the outcome of \<^verbatim>\<open>getsockname\<close>.\<close>

definition newConnection ::
  "nat \<Rightarrow> sockaddr_in option \<Rightarrow> nat \<Rightarrow> nat \<Rightarrow> size_t \<Rightarrow> write_result \<Rightarrow> int \<Rightarrow> InetAddress \<Rightarrow> 'ctx tcp_server \<Rightarrow> 'ctx tcp_server res" where
  "newConnection cur sn i p hwm r sockfd peerAddr s =
    assertInLoopThread (cur = sv_base s)
   (let connName = conn_name s (sv_nextConnId s);
        s = s\<lparr>sv_nextConnId := sv_nextConnId s + 1\<rparr>;
        localAddr = InetAddress_of (getLocalAddr sn)
    in rbind (getNextLoop (cur = sv_base s) (sv_pool s)) (\<lambda>(ioLoop, pool).
       let conn = new_TcpConnection connName sockfd p localAddr peerAddr hwm (sv_pollers s ioLoop);
           s = s\<lparr>sv_pool := pool, sv_conns := (sv_conns s)(i \<mapsto> (ioLoop, conn)),
             sv_pollers := (sv_pollers s)(ioLoop := tc_poller conn),
             sv_connections := map_put connName i (sv_connections s)\<rparr>
       in if cur = ioLoop then sv_on cur i (connectEstablished (with_owner (sv_callbacks s r))) s
          else Inr (sv_queue ioLoop (SEstablish i) s)))"

text \<open>The last reference to a connection is dropped: the object, its channel and its descriptor are gone.\<close>

definition sv_release :: "nat \<Rightarrow> 'ctx tcp_server \<Rightarrow> 'ctx tcp_server" where
  "sv_release i s = (case sv_conns s i of
     None \<Rightarrow> s
   | Some (l, c) \<Rightarrow> s\<lparr>sv_conns := (sv_conns s)(i := None),
       sv_pollers := (sv_pollers s)(l := (sv_pollers s l)\<lparr>ep_heap := (ep_heap (sv_pollers s l))(tc_channel c := None)\<rparr>)\<rparr>)"

definition run_server_fn :: "nat \<Rightarrow> write_result \<Rightarrow> server_fn \<Rightarrow> 'ctx tcp_server \<Rightarrow> 'ctx tcp_server res" where
  "run_server_fn cur r f s = (case f of
     SListen ret \<Rightarrow> sv_listen cur ret s
   | SEstablish i \<Rightarrow> sv_on cur i (connectEstablished (with_owner (sv_callbacks s r))) s
   | SRemove i \<Rightarrow> removeConnectionInLoop cur i s
   | SDestroy i \<Rightarrow> rbind (sv_on cur i (connectDestroyed (with_owner (sv_callbacks s r))) s) (\<lambda>s. Inr (sv_release i s))
   | SConn i g \<Rightarrow> sv_on cur i (\<lambda>il. run_conn_fn (with_owner (sv_callbacks s r)) r g) s)"

section \<open>What happens to a server\<close>

text \<open>
  The acceptor's channel becomes readable, a poll reports conditions for a connection's descriptor and its channel
  handles them, a loop runs the next of its functors; each in the thread of its loop, interleaved in any order.
\<close>

datatype server_ev =
    EvAccept accept_result "sockaddr_in option" nat nat size_t write_result
  | EvEvent nat flags readv_result write_result time_point write_result
  | EvFunctor nat write_result

fun take_first :: "nat \<Rightarrow> (nat \<times> 'f) list \<Rightarrow> ('f \<times> (nat \<times> 'f) list) option" where
  "take_first l [] = None"
| "take_first l ((l', f) # q) =
    (if l' = l then Some (f, q) else map_option (\<lambda>(g, q'). (g, (l', f) # q')) (take_first l q))"

definition loop_of :: "'ctx tcp_server \<Rightarrow> nat \<Rightarrow> nat" where
  "loop_of s i = (case sv_conns s i of None \<Rightarrow> 0 | Some (l, c) \<Rightarrow> l)"

fun server_step :: "'ctx tcp_server \<Rightarrow> server_ev \<Rightarrow> 'ctx tcp_server res" where
  "server_step s (EvAccept r sn i p hwm wr) =
    rbind (ac_handleRead True r (sv_acceptor s)) (\<lambda>act. case act of
      NewConnection fd peer \<Rightarrow> newConnection (sv_base s) sn i p hwm wr fd peer s
    | _ \<Rightarrow> Inr s)"
| "server_step s (EvEvent i re rv wr t r) =
    sv_on (loop_of s i) i (\<lambda>il c. conn_handleEvent (with_owner (sv_callbacks s r)) rv wr t (reported re c)) s"
| "server_step s (EvFunctor l wr) = (case take_first l (sv_pending s) of
     None \<Rightarrow> Inr s
   | Some (f, q) \<Rightarrow> run_server_fn l wr f (s\<lparr>sv_pending := q\<rparr>))"

section \<open>Invariant\<close>

fun fn_conn :: "server_fn \<Rightarrow> nat option" where
  "fn_conn (SListen ret) = None"
| "fn_conn (SEstablish i) = Some i"
| "fn_conn (SRemove i) = Some i"
| "fn_conn (SDestroy i) = Some i"
| "fn_conn (SConn i f) = Some i"

definition about :: "nat \<Rightarrow> (nat \<times> server_fn) list \<Rightarrow> (nat \<times> server_fn) list" where
  "about i q = filter (\<lambda>e. fn_conn (snd e) = Some i) q"

text \<open>
  The life of a connection of a server, told by the one functor that is queued for it: to be established, open (no
  functor), to be removed, to be destroyed. It is in \<^verbatim>\<open>connections_\<close> until it is removed.
\<close>

definition conn_phase ::
  "('ctx tcp_conn \<Rightarrow> bool) \<Rightarrow> nat \<Rightarrow> nat \<Rightarrow> (nat \<times> server_fn) list \<Rightarrow> bool \<Rightarrow> 'ctx tcp_conn \<Rightarrow> bool" where
  "conn_phase cinv base l q listed c \<longleftrightarrow> hooked c \<and> tc_pending c = [] \<and> tc_closeCalls c = 0 \<and>
    (case map snd q of
       [] \<Rightarrow> conn_ok c \<and> cinv c \<and> listed
     | [SEstablish i] \<Rightarrow> conn_fresh c \<and> map fst q = [l] \<and> listed
     | [SRemove i] \<Rightarrow> conn_silent c \<and> map fst q = [base] \<and> listed
     | [SDestroy i] \<Rightarrow> conn_silent c \<and> map fst q = [l] \<and> \<not> listed
     | _ \<Rightarrow> False)"

definition sv_apart :: "'ctx tcp_server \<Rightarrow> bool" where
  "sv_apart s \<longleftrightarrow> (\<forall>i j l m c d. sv_conns s i = Some (l, c) \<longrightarrow> sv_conns s j = Some (m, d) \<longrightarrow> i \<noteq> j \<longrightarrow>
     tc_fd c \<noteq> tc_fd d \<and> tc_name c \<noteq> tc_name d \<and> tc_channel c \<noteq> tc_channel d)"

definition sv_phases :: "('ctx tcp_conn \<Rightarrow> bool) \<Rightarrow> 'ctx tcp_server \<Rightarrow> bool" where
  "sv_phases cinv s \<longleftrightarrow> (\<forall>i l c. sv_conns s i = Some (l, c) \<longrightarrow>
     conn_phase cinv (sv_base s) l (about i (sv_pending s)) (map_of (sv_connections s) (tc_name c) = Some i)
       (c\<lparr>tc_poller := sv_pollers s l\<rparr>) \<and>
     (\<exists>n. 1 \<le> n \<and> n < sv_nextConnId s \<and> tc_name c = conn_name s n))"

definition sv_listed :: "'ctx tcp_server \<Rightarrow> bool" where
  "sv_listed s \<longleftrightarrow> keys_ordered (sv_connections s) \<and>
    (\<forall>name i. map_of (sv_connections s) name = Some i \<longrightarrow> (\<exists>l c. sv_conns s i = Some (l, c) \<and> tc_name c = name)) \<and>
    (\<forall>e \<in> set (sv_pending s). \<exists>i. fn_conn (snd e) = Some i \<and> sv_conns s i \<noteq> None)"

definition sv_inv :: "('ctx tcp_conn \<Rightarrow> bool) \<Rightarrow> 'ctx tcp_server \<Rightarrow> bool" where
  "sv_inv cinv s \<longleftrightarrow> (\<forall>l. ep_inv (sv_pollers s l)) \<and> pool_inv (sv_pool s) \<and> ac_hasCallback (sv_acceptor s) \<and>
    1 \<le> sv_nextConnId s \<and> sv_nextConnId s \<le> 2147483647 \<and> sv_apart s \<and> sv_phases cinv s \<and> sv_listed s"

text \<open>
  What the kernel and the loops guarantee: a new descriptor and new objects are fresh, an event is reported only for a
  descriptor that is watched, a hang-up that is reported without \<^verbatim>\<open>POLLIN\<close> but with another readable condition leaves
  nothing to read (\<open>hup_unread\<close>; \<open>double_close_aborts\<close> below shows what happens otherwise), and what a socket
  delivers the client can cope with. Errors of \<^verbatim>\<open>accept\<close> outside the
  expected ones abort the process, and connection numbers stay below the largest \<^verbatim>\<open>int\<close>.
\<close>

definition sv_watched :: "'ctx tcp_server \<Rightarrow> nat \<Rightarrow> bool" where
  "sv_watched s i \<longleftrightarrow> (case sv_conns s i of None \<Rightarrow> False | Some (l, c) \<Rightarrow> ep_watched (sv_pollers s l) (tc_fd c) \<noteq> 0)"

fun server_enabled :: "('ctx tcp_conn \<Rightarrow> string \<Rightarrow> bool) \<Rightarrow> 'ctx tcp_server \<Rightarrow> server_ev \<Rightarrow> bool" where
  "server_enabled can_read s (EvAccept r sn i p hwm wr) \<longleftrightarrow> (case r of
     AcceptErr e \<Rightarrow> accept_ignores e
   | AcceptOk fd peer \<Rightarrow> 0 \<le> fd \<and> sv_nextConnId s < 2147483647 \<and> sv_conns s i = None \<and>
       (\<forall>l. ep_heap (sv_pollers s l) p = None \<and> ep_channels (sv_pollers s l) fd = None) \<and>
       (\<forall>j l c. sv_conns s j = Some (l, c) \<longrightarrow> tc_fd c \<noteq> fd))"
| "server_enabled can_read s (EvEvent i re rv wr t r) \<longleftrightarrow> sv_watched s i \<and> hup_unread re rv \<and> (reads re \<longrightarrow> (case rv of
     ReadvErr e \<Rightarrow> True
   | ReadvOk d \<Rightarrow> d = [] \<or> (case sv_conns s i of None \<Rightarrow> False | Some (l, c) \<Rightarrow> fits_input c d \<and> can_read c d)))"
| "server_enabled can_read s (EvFunctor l wr) \<longleftrightarrow> True"

lemma sv_invD:
  assumes "sv_inv cinv s"
  shows "map_of (sv_connections s) name = Some j \<Longrightarrow> \<exists>k d. sv_conns s j = Some (k, d) \<and> tc_name d = name"
    and "e \<in> set (sv_pending s) \<Longrightarrow> \<exists>j. fn_conn (snd e) = Some j \<and> sv_conns s j \<noteq> None"
    and "keys_ordered (sv_connections s)"
    and "sv_conns s i = Some (l, c) \<Longrightarrow>
      conn_phase cinv (sv_base s) l (about i (sv_pending s)) (map_of (sv_connections s) (tc_name c) = Some i)
       (c\<lparr>tc_poller := sv_pollers s l\<rparr>)"
    and "ep_inv (sv_pollers s l)"
  using assms unfolding sv_inv_def sv_listed_def sv_phases_def by blast+

subsection \<open>Connections do not disturb each other\<close>

lemma phase_frame:
  assumes fr: "poller_frame p fd w w'" "ep_inv w'" and ne: "tc_channel c \<noteq> p" "tc_fd c \<noteq> fd"
    and loc: "client_local cinv"
    and ph: "conn_phase cinv base l q b (c\<lparr>tc_poller := w\<rparr>)"
  shows "conn_phase cinv base l q b (c\<lparr>tc_poller := w'\<rparr>)"
proof -
  have same: "ep_heap w' (tc_channel c) = ep_heap w (tc_channel c)" "ep_channels w' (tc_fd c) = ep_channels w (tc_fd c)"
    using fr(1) ne by (simp_all add: poller_frame_def)
  have "conn_ok (c\<lparr>tc_poller := w\<rparr>) \<Longrightarrow> conn_ok (c\<lparr>tc_poller := w'\<rparr>)"
    "conn_fresh (c\<lparr>tc_poller := w\<rparr>) \<Longrightarrow> conn_fresh (c\<lparr>tc_poller := w'\<rparr>)"
    "conn_silent (c\<lparr>tc_poller := w\<rparr>) \<Longrightarrow> conn_silent (c\<lparr>tc_poller := w'\<rparr>)"
    "hooked (c\<lparr>tc_poller := w\<rparr>) \<Longrightarrow> hooked (c\<lparr>tc_poller := w'\<rparr>)"
    using same fr(2) by (simp_all add: conn_ok_def conn_inv_def conn_fresh_def conn_silent_def conn_open_def hooked_def)
  moreover have "cinv (c\<lparr>tc_poller := w\<rparr>) \<Longrightarrow> cinv (c\<lparr>tc_poller := w'\<rparr>)" using loc by (auto simp: client_local_def)
  ultimately show ?thesis
    using ph by (auto simp: conn_phase_def split: list.splits server_fn.splits)
qed

lemma about_append [simp]: "about i (q @ q') = about i q @ about i q'"
  by (simp add: about_def)

lemma conn_name_upd [simp]:
  "conn_name (s\<lparr>sv_conns := a, sv_pollers := b, sv_pending := q, sv_connections := m\<rparr>) = conn_name s"
  by (simp add: conn_name_def fun_eq_iff)

text \<open>
  A connection changes, in its own part of the poller, its functors and its entry of \<^verbatim>\<open>connections_\<close>: the invariant
  holds if the connection is in a phase again.
\<close>

lemma sv_listed_update:
  assumes inv: "sv_inv cinv s" and i: "sv_conns s i = Some (l, c)" and c': "tc_name c' = tc_name c"
    and q: "\<And>j. j \<noteq> i \<Longrightarrow> about j q = about j (sv_pending s)" "\<forall>e \<in> set q. fn_conn (snd e) \<noteq> None"
    and m: "m = sv_connections s \<or> m = map_erase (tc_name c) (sv_connections s)"
  shows "sv_listed (s\<lparr>sv_conns := (sv_conns s)(i \<mapsto> (l, c')), sv_pollers := (sv_pollers s)(l := w), sv_pending := q,
    sv_connections := m\<rparr>)" (is "sv_listed ?s")
  unfolding sv_listed_def
proof (intro conjI allI impI ballI)
  show "keys_ordered (sv_connections ?s)"
    using inv m by (auto simp: sv_inv_def sv_listed_def keys_ordered_map_erase)
  fix name j assume "map_of (sv_connections ?s) name = Some j"
  then have "map_of (sv_connections s) name = Some j" using m by (auto simp: map_of_map_erase split: if_splits)
  then obtain k d where "sv_conns s j = Some (k, d)" "tc_name d = name" using inv unfolding sv_inv_def sv_listed_def by blast
  then show "\<exists>k d. sv_conns ?s j = Some (k, d) \<and> tc_name d = name" using c' i by (cases "j = i") auto
next
  fix e assume e: "e \<in> set (sv_pending ?s)"
  then obtain j where j: "fn_conn (snd e) = Some j" using q(2) by auto
  show "\<exists>j. fn_conn (snd e) = Some j \<and> sv_conns ?s j \<noteq> None"
  proof (cases "j = i")
    case False
    from e j have "e \<in> set (about j q)" by (simp add: about_def)
    with q(1) [OF False] have "e \<in> set (sv_pending s)" by (auto simp: about_def)
    with inv j False show ?thesis unfolding sv_inv_def sv_listed_def by auto
  qed (use j in simp)
qed

lemma sv_inv_update:
  assumes inv: "sv_inv cinv s" and i: "sv_conns s i = Some (l, c)"
    and loc: "client_local cinv"
    and c': "tc_name c' = tc_name c" "tc_fd c' = tc_fd c" "tc_channel c' = tc_channel c"
    and w: "ep_inv w" "poller_frame (tc_channel c) (tc_fd c) (sv_pollers s l) w"
    and q: "\<And>j. j \<noteq> i \<Longrightarrow> about j q = about j (sv_pending s)" "\<forall>e \<in> set q. fn_conn (snd e) \<noteq> None"
    and m: "m = sv_connections s \<or> m = map_erase (tc_name c) (sv_connections s)"
    and ph: "conn_phase cinv (sv_base s) l (about i q) (map_of m (tc_name c) = Some i) (c'\<lparr>tc_poller := w\<rparr>)"
  shows "sv_inv cinv (s\<lparr>sv_conns := (sv_conns s)(i \<mapsto> (l, c')), sv_pollers := (sv_pollers s)(l := w), sv_pending := q,
    sv_connections := m\<rparr>)" (is "sv_inv cinv ?s")
proof -
  have apart: "tc_fd d \<noteq> tc_fd c" "tc_name d \<noteq> tc_name c" "tc_channel d \<noteq> tc_channel c"
    if "sv_conns s j = Some (k, d)" "j \<noteq> i" for j k d
    using inv that i unfolding sv_inv_def sv_apart_def by blast+
  have m_other: "map_of m x = map_of (sv_connections s) x" if "x \<noteq> tc_name c" for x
    using m that by (auto simp: map_of_map_erase)
  have "sv_apart ?s" using inv c' i unfolding sv_inv_def sv_apart_def by (simp split: if_splits)
  moreover have "sv_phases cinv ?s"
    unfolding sv_phases_def
  proof (intro allI impI)
    fix j k d assume j: "sv_conns ?s j = Some (k, d)"
    show "conn_phase cinv (sv_base ?s) k (about j (sv_pending ?s)) (map_of (sv_connections ?s) (tc_name d) = Some j)
        (d\<lparr>tc_poller := sv_pollers ?s k\<rparr>) \<and> (\<exists>n. 1 \<le> n \<and> n < sv_nextConnId ?s \<and> tc_name d = conn_name ?s n)"
    proof (cases "j = i")
      case True
      with j ph c' inv i show ?thesis by (auto simp: sv_inv_def sv_phases_def)
    next
      case False
      with j have d: "sv_conns s j = Some (k, d)" by simp
      then have old: "conn_phase cinv (sv_base s) k (about j (sv_pending s)) (map_of (sv_connections s) (tc_name d) = Some j)
          (d\<lparr>tc_poller := sv_pollers s k\<rparr>)" "\<exists>n. 1 \<le> n \<and> n < sv_nextConnId s \<and> tc_name d = conn_name s n"
        using inv by (simp_all add: sv_inv_def sv_phases_def)
      note ap = apart [OF d False]
      have "conn_phase cinv (sv_base s) k (about j (sv_pending s)) (map_of (sv_connections s) (tc_name d) = Some j)
          (d\<lparr>tc_poller := if k = l then w else sv_pollers s k\<rparr>)"
        using phase_frame [OF w(2,1) ap(3,1) loc] old(1) by (cases "k = l") simp_all
      with old(2) q(1) [OF False] m_other [OF ap(2)] show ?thesis by simp
    qed
  qed
  moreover have "sv_listed ?s" by (rule sv_listed_update [OF inv i c'(1) q m])
  ultimately show ?thesis using inv w(1) by (simp add: sv_inv_def)
qed

text \<open>A connection is released: nothing refers to it any more.\<close>

lemma sv_inv_release:
  assumes inv: "sv_inv cinv s" and i: "sv_conns s i = Some (l, c)"
    and loc: "client_local cinv"
    and w: "ep_inv w" "poller_frame (tc_channel c) (tc_fd c) (sv_pollers s l) w"
    and q: "\<And>j. j \<noteq> i \<Longrightarrow> about j q = about j (sv_pending s)" "about i q = []" "set q \<subseteq> set (sv_pending s)"
    and unlisted: "map_of (sv_connections s) (tc_name c) \<noteq> Some i"
  shows "sv_inv cinv (s\<lparr>sv_conns := (sv_conns s)(i := None), sv_pollers := (sv_pollers s)(l := w), sv_pending := q\<rparr>)"
    (is "sv_inv cinv ?s")
proof -
  have "sv_apart ?s" using inv unfolding sv_inv_def sv_apart_def by (simp split: if_splits)
  moreover have "sv_phases cinv ?s"
    unfolding sv_phases_def
  proof (intro allI impI)
    fix j k d assume "sv_conns ?s j = Some (k, d)"
    then have d: "sv_conns s j = Some (k, d)" and ne: "j \<noteq> i" by (simp_all split: if_splits)
    then have old: "conn_phase cinv (sv_base s) k (about j (sv_pending s)) (map_of (sv_connections s) (tc_name d) = Some j)
        (d\<lparr>tc_poller := sv_pollers s k\<rparr>)" "\<exists>n. 1 \<le> n \<and> n < sv_nextConnId s \<and> tc_name d = conn_name s n"
      using inv by (simp_all add: sv_inv_def sv_phases_def)
    have ap: "tc_channel d \<noteq> tc_channel c" "tc_fd d \<noteq> tc_fd c" using inv d ne i unfolding sv_inv_def sv_apart_def by blast+
    have "conn_phase cinv (sv_base s) k (about j (sv_pending s)) (map_of (sv_connections s) (tc_name d) = Some j)
        (d\<lparr>tc_poller := if k = l then w else sv_pollers s k\<rparr>)"
      using phase_frame [OF w(2,1) ap loc] old(1) by (cases "k = l") simp_all
    with old(2) q(1) [OF ne] show "conn_phase cinv (sv_base ?s) k (about j (sv_pending ?s))
        (map_of (sv_connections ?s) (tc_name d) = Some j) (d\<lparr>tc_poller := sv_pollers ?s k\<rparr>) \<and>
        (\<exists>n. 1 \<le> n \<and> n < sv_nextConnId ?s \<and> tc_name d = conn_name ?s n)" by (simp add: conn_name_def)
  qed
  moreover have "sv_listed ?s"
    unfolding sv_listed_def
  proof (intro conjI allI impI ballI)
    show "keys_ordered (sv_connections ?s)" using inv by (simp add: sv_inv_def sv_listed_def)
    fix name j assume "map_of (sv_connections ?s) name = Some j"
    then have "map_of (sv_connections s) name = Some j" by simp
    moreover from sv_invD(1) [OF inv this] obtain k d where "sv_conns s j = Some (k, d)" "tc_name d = name" by blast
    ultimately show "\<exists>k d. sv_conns ?s j = Some (k, d) \<and> tc_name d = name" using unlisted i by (cases "j = i") auto
  next
    fix e assume e: "e \<in> set (sv_pending ?s)"
    then obtain j where j: "fn_conn (snd e) = Some j" "sv_conns s j \<noteq> None"
      using q(3) inv unfolding sv_inv_def sv_listed_def by fastforce
    with e q(2) have "j \<noteq> i" by (auto simp: about_def filter_empty_conv)
    with j show "\<exists>j. fn_conn (snd e) = Some j \<and> sv_conns ?s j \<noteq> None" by simp
  qed
  ultimately show ?thesis using inv w(1) by (simp add: sv_inv_def)
qed

subsection \<open>New connections\<close>

lemma conn_name_inj:
  assumes "conn_name s m = conn_name s n" and "1 \<le> m" "m \<le> 2147483647" "1 \<le> n" "n \<le> 2147483647"
  shows "m = n"
proof -
  have fits: "snprintf_out 32 (''#'' @ show_int x) = ''#'' @ show_nat (nat x)" if "1 \<le> x" "x \<le> 2147483647" for x :: int
  proof -
    have "length (show_nat (nat x)) \<le> Suc 9" using that by (intro length_show_nat_le) simp
    with that show ?thesis by (simp add: show_int_def snprintf_out_fits)
  qed
  from assms(1) have "show_nat (nat m) = show_nat (nat n)"
    unfolding conn_name_def fits [OF assms(2,3)] fits [OF assms(4,5)] by simp
  then have "nat m = nat n" by (rule show_nat_inj)
  with assms show ?thesis by simp
qed

lemma about_new:
  assumes "sv_listed s" and "sv_conns s i = None"
  shows "about i (sv_pending s) = []"
  using assms by (fastforce simp: about_def filter_empty_conv sv_listed_def)

text \<open>The name and the channel of a connection to come are not those of another one.\<close>

lemma sv_others:
  assumes inv: "sv_inv cinv s" and d: "sv_conns s j = Some (k, d)" and small: "sv_nextConnId s < 2147483647"
  shows "tc_name d \<noteq> conn_name s (sv_nextConnId s)" and "ep_heap (sv_pollers s k) p = None \<Longrightarrow> tc_channel d \<noteq> p"
proof -
  from inv d obtain n where n: "1 \<le> n" "n < sv_nextConnId s" "tc_name d = conn_name s n"
    and ph: "conn_phase cinv (sv_base s) k (about j (sv_pending s)) (map_of (sv_connections s) (tc_name d) = Some j)
      (d\<lparr>tc_poller := sv_pollers s k\<rparr>)" unfolding sv_inv_def sv_phases_def by blast
  with small conn_name_inj [of s n "sv_nextConnId s"] show "tc_name d \<noteq> conn_name s (sv_nextConnId s)" by fastforce
  from ph have "ep_heap (sv_pollers s k) (tc_channel d) \<noteq> None"
    by (auto simp: conn_phase_def conn_ok_def conn_inv_def conn_fresh_def conn_silent_def split: list.splits server_fn.splits)
  then show "ep_heap (sv_pollers s k) p = None \<Longrightarrow> tc_channel d \<noteq> p" by auto
qed

text \<open>The phase of another connection when a functor of connection \<open>i\<close> is queued and the name of \<open>i\<close> is added to the table.\<close>

lemma sv_phase_other:
  assumes inv: "sv_inv cinv s" and loc: "client_local cinv" and d: "sv_conns s j = Some (k, d)" "j \<noteq> i"
    and w: "poller_frame p fd (sv_pollers s l) w" "ep_inv w" and ne: "tc_channel d \<noteq> p" "tc_fd d \<noteq> fd" "tc_name d \<noteq> name"
    and f: "fn_conn f = Some i"
  shows "conn_phase cinv (sv_base s) k (about j (sv_pending s @ [(l, f)]))
    (map_of (map_put name i (sv_connections s)) (tc_name d) = Some j) (d\<lparr>tc_poller := ((sv_pollers s)(l := w)) k\<rparr>)"
proof -
  from inv d(1) have old: "conn_phase cinv (sv_base s) k (about j (sv_pending s)) (map_of (sv_connections s) (tc_name d) = Some j)
      (d\<lparr>tc_poller := sv_pollers s k\<rparr>)" and keys: "keys_ordered (sv_connections s)"
    by (simp_all add: sv_inv_def sv_phases_def sv_listed_def)
  have "conn_phase cinv (sv_base s) k (about j (sv_pending s)) (map_of (sv_connections s) (tc_name d) = Some j)
      (d\<lparr>tc_poller := if k = l then w else sv_pollers s k\<rparr>)"
    using phase_frame [OF w ne(1,2) loc] old by (cases "k = l") simp_all
  then show ?thesis using d(2) f keys ne(3) by (simp add: map_of_map_put about_def)
qed

lemma sv_inv_add:
  assumes inv: "sv_inv cinv s" and i: "sv_conns s i = None"
    and loc: "client_local cinv"
    and fresh: "\<And>l. ep_heap (sv_pollers s l) p = None" "\<And>l. ep_channels (sv_pollers s l) fd = None"
      "\<And>j l c. sv_conns s j = Some (l, c) \<Longrightarrow> tc_fd c \<noteq> fd"
    and small: "sv_nextConnId s < 2147483647" and pool: "pool_inv pool" "tp_baseLoop pool = sv_base s"
    and c: "c = new_TcpConnection (conn_name s (sv_nextConnId s)) fd p la pa hwm (sv_pollers s l)"
  shows "sv_inv cinv (s\<lparr>sv_nextConnId := sv_nextConnId s + 1, sv_pool := pool, sv_conns := (sv_conns s)(i \<mapsto> (l, c)),
    sv_pollers := (sv_pollers s)(l := tc_poller c), sv_connections := map_put (conn_name s (sv_nextConnId s)) i (sv_connections s),
    sv_pending := sv_pending s @ [(l, SEstablish i)]\<rparr>)" (is "sv_inv cinv ?s")
proof -
  let ?name = "conn_name s (sv_nextConnId s)" and ?w = "ep_put p (conn_chan fd) (sv_pollers s l)"
  have inv_l: "ep_inv (sv_pollers s l)" using inv by (simp add: sv_inv_def)
  have cf: "conn_fresh c" and cw: "tc_poller c = ?w"
    using new_TcpConnection_fresh [OF inv_l fresh(1,2)] c by simp_all
  have cs: "tc_name c = ?name" "tc_fd c = fd" "tc_channel c = p" "tc_pending c = []" "tc_closeCalls c = 0"
    using c by (simp_all add: new_TcpConnection_def)
  have hk: "hooked c" using c new_TcpConnection_hooked by simp
  have w: "ep_inv ?w" using cf cw by (simp add: conn_fresh_def)
  have frame: "poller_frame p fd (sv_pollers s l) ?w" by (simp add: poller_frame_def ep_put_def)
  have other: "tc_name d \<noteq> ?name" "tc_channel d \<noteq> p" "tc_fd d \<noteq> fd" if d: "sv_conns s j = Some (k, d)" for j k d
    using sv_others [OF inv d small] fresh(1,3) d by blast+
  have new: "map_of (sv_connections s) ?name = None"
    using inv other(1) unfolding sv_inv_def sv_listed_def by (meson not_None_eq)
  have keys: "keys_ordered (sv_connections s)" using inv by (simp add: sv_inv_def sv_listed_def)
  have "sv_apart ?s" using inv other cs unfolding sv_inv_def sv_apart_def by (simp split: if_splits) metis
  moreover have "sv_phases cinv ?s"
    unfolding sv_phases_def
  proof (intro allI impI)
    fix j k d assume j: "sv_conns ?s j = Some (k, d)"
    show "conn_phase cinv (sv_base ?s) k (about j (sv_pending ?s)) (map_of (sv_connections ?s) (tc_name d) = Some j)
        (d\<lparr>tc_poller := sv_pollers ?s k\<rparr>) \<and> (\<exists>n. 1 \<le> n \<and> n < sv_nextConnId ?s \<and> tc_name d = conn_name ?s n)"
    proof (cases "j = i")
      case True
      have "about i (sv_pending s) = []" using inv i by (intro about_new) (simp_all add: sv_inv_def)
      moreover have "conn_fresh (c\<lparr>tc_poller := tc_poller c\<rparr>)" "hooked (c\<lparr>tc_poller := tc_poller c\<rparr>)" using cf hk by simp_all
      moreover have "1 \<le> sv_nextConnId s" using inv by (simp add: sv_inv_def)
      ultimately show ?thesis
        using True j cs keys
        by (auto simp: conn_phase_def about_def map_of_map_put conn_name_def intro!: exI [of _ "sv_nextConnId s"])
    next
      case False
      with j have d: "sv_conns s j = Some (k, d)" by simp
      then have "\<exists>n. 1 \<le> n \<and> n < sv_nextConnId s \<and> tc_name d = conn_name s n" using inv by (simp add: sv_inv_def sv_phases_def)
      then have "\<exists>n. 1 \<le> n \<and> n < sv_nextConnId ?s \<and> tc_name d = conn_name ?s n"
        by (auto simp: conn_name_def intro: exI)
      with sv_phase_other [OF inv loc d False frame w other(2,3,1) [OF d], of "SEstablish i"] show ?thesis
        using pool(2) cw by simp
    qed
  qed
  moreover have "sv_listed ?s"
    unfolding sv_listed_def
  proof (intro conjI allI impI ballI)
    show "keys_ordered (sv_connections ?s)" using keys by (simp add: keys_ordered_map_put)
    fix name j assume "map_of (sv_connections ?s) name = Some j"
    then show "\<exists>k d. sv_conns ?s j = Some (k, d) \<and> tc_name d = name"
      using sv_invD(1) [OF inv, of name j] keys cs(1) i by (auto simp: map_of_map_put split: if_splits)
  next
    fix e assume "e \<in> set (sv_pending ?s)"
    then show "\<exists>j. fn_conn (snd e) = Some j \<and> sv_conns ?s j \<noteq> None" using sv_invD(2) [OF inv, of e] i by fastforce
  qed
  ultimately show ?thesis using inv w pool cw small by (simp add: sv_inv_def)
qed

subsection \<open>Functors\<close>

lemma take_first_split:
  "take_first l p = Some (f, q) \<Longrightarrow> \<exists>p1 p2. p = p1 @ (l, f) # p2 \<and> q = p1 @ p2"
proof (induction p arbitrary: q)
  case (Cons e p)
  obtain l' g where e: "e = (l', g)" by (cases e)
  show ?case
  proof (cases "l' = l")
    case True
    with Cons.prems e have "e # p = [] @ (l, f) # q" by simp
    then show ?thesis by (metis append_Nil)
  next
    case False
    with Cons.prems e obtain q' where "take_first l p = Some (f, q')" "q = e # q'" by auto
    with Cons.IH [of q'] show ?thesis by (metis append_Cons)
  qed
qed simp

text \<open>The functor a loop runs next belongs to a connection that has no other functor queued.\<close>

lemma functor_phase:
  assumes inv: "sv_inv cinv s" and f: "take_first l (sv_pending s) = Some (f, q)"
  obtains i m c where "fn_conn f = Some i" "sv_conns s i = Some (m, c)" "about i q = []"
    "\<And>j. j \<noteq> i \<Longrightarrow> about j q = about j (sv_pending s)" "set q \<subseteq> set (sv_pending s)" "\<forall>e \<in> set q. fn_conn (snd e) \<noteq> None"
    "conn_phase cinv (sv_base s) m [(l, f)] (map_of (sv_connections s) (tc_name c) = Some i) (c\<lparr>tc_poller := sv_pollers s m\<rparr>)"
proof -
  from take_first_split [OF f] obtain p1 p2 where p: "sv_pending s = p1 @ (l, f) # p2" "q = p1 @ p2" by blast
  from sv_invD(2) [OF inv, of "(l, f)"] p obtain i where i: "fn_conn f = Some i" "sv_conns s i \<noteq> None" by auto
  then obtain m c where c: "sv_conns s i = Some (m, c)" by auto
  from sv_invD(4) [OF inv c] have ph: "conn_phase cinv (sv_base s) m (about i (sv_pending s))
      (map_of (sv_connections s) (tc_name c) = Some i) (c\<lparr>tc_poller := sv_pollers s m\<rparr>)" .
  then have "length (about i (sv_pending s)) \<le> 1" by (auto simp: conn_phase_def split: list.splits server_fn.splits)
  then have one: "about i (sv_pending s) = [(l, f)]" "about i q = []" using p i by (auto simp: about_def)
  have "about j q = about j (sv_pending s)" if "j \<noteq> i" for j using p i that by (simp add: about_def)
  moreover have "\<forall>e \<in> set q. fn_conn (snd e) \<noteq> None" using sv_invD(2) [OF inv] p by fastforce
  ultimately show thesis using that [OF i(1) c one(2)] ph one p by auto
qed

lemma sv_on_quiet:
  assumes i: "sv_conns s i = Some (l, c)" and f: "f True (c\<lparr>tc_poller := sv_pollers s l\<rparr>) = Inr c'"
    and n: "tc_pending c' = []" "tc_closeCalls c' = 0"
  shows "sv_on l i f (s\<lparr>sv_pending := q\<rparr>) =
    Inr (s\<lparr>sv_conns := (sv_conns s)(i \<mapsto> (l, c')), sv_pollers := (sv_pollers s)(l := tc_poller c'), sv_pending := q\<rparr>)"
proof -
  have "c'\<lparr>tc_pending := [], tc_closeCalls := 0\<rparr> = c'" using n by (cases c') simp
  note eq = this
  show ?thesis using i f n by (simp add: sv_on_def eq)
qed

lemma phase_notes: "conn_phase cinv b l q x c \<Longrightarrow> tc_pending c = [] \<and> tc_closeCalls c = 0"
  by (simp add: conn_phase_def)

definition double_close_fatal :: "'ctx tcp_server \<Rightarrow> bool" where
  "double_close_fatal s \<longleftrightarrow> (\<forall>i re wr t r. sv_watched s i \<longrightarrow> loop_of s i = sv_base s \<longrightarrow> hangs_up re \<longrightarrow> reads re \<longrightarrow>
     server_step s (EvEvent i re (ReadvOk []) wr t r) = Inl (AssertFail ''n == 1''))"

definition server_ok :: "(write_result \<Rightarrow> 'ctx conn_callbacks) \<Rightarrow> ('ctx tcp_conn \<Rightarrow> bool) \<Rightarrow> 'ctx tcp_server \<Rightarrow> bool" where
  "server_ok k cinv s \<longleftrightarrow> sv_inv cinv s \<and> sv_callbacks s = k"

context conn_client
begin

text \<open>An operation after which the connection is open leaves the server in order.\<close>

lemma sv_on_open:
  assumes ok: "server_ok k cinv s" and i: "sv_conns s i = Some (l, c)"
    and q: "about i q = []" "\<And>j. j \<noteq> i \<Longrightarrow> about j q = about j (sv_pending s)" "\<forall>e \<in> set q. fn_conn (snd e) \<noteq> None"
    and listed: "map_of (sv_connections s) (tc_name c) = Some i"
    and f: "f True (c\<lparr>tc_poller := sv_pollers s l\<rparr>) = Inr c'" "conn_ok c'" "cinv c'"
      "same_spot c' (c\<lparr>tc_poller := sv_pollers s l\<rparr>)" "hooked c'" and n: "tc_pending c' = []" "tc_closeCalls c' = 0"
  shows "\<exists>s'. sv_on l i f (s\<lparr>sv_pending := q\<rparr>) = Inr s' \<and> server_ok k cinv s'"
proof -
  have inv: "sv_inv cinv s" and cb: "sv_callbacks s = k" using ok by (simp_all add: server_ok_def)
  have "sv_inv cinv (s\<lparr>sv_conns := (sv_conns s)(i \<mapsto> (l, c')), sv_pollers := (sv_pollers s)(l := tc_poller c'),
      sv_pending := q, sv_connections := sv_connections s\<rparr>)"
  proof (rule sv_inv_update [OF inv i loc])
    show "ep_inv (tc_poller c')" using f(2) by (simp add: conn_ok_def conn_inv_def)
    show "conn_phase cinv (sv_base s) l (about i q) (map_of (sv_connections s) (tc_name c) = Some i) (c'\<lparr>tc_poller := tc_poller c'\<rparr>)"
      using q(1) f(2,3,5) listed n by (simp add: conn_phase_def)
  qed (use f(4) q in \<open>simp_all add: same_spot_def\<close>)
  with sv_on_quiet [of s i l c f c' q, OF i f(1) n] cb show ?thesis by (simp add: server_ok_def)
qed

lemma watched_open:
  assumes inv: "sv_inv cinv s" and w: "sv_watched s i"
  obtains l c where "sv_conns s i = Some (l, c)" "loop_of s i = l" "about i (sv_pending s) = []" "conn_ok (c\<lparr>tc_poller := sv_pollers s l\<rparr>)"
    "cinv (c\<lparr>tc_poller := sv_pollers s l\<rparr>)" "map_of (sv_connections s) (tc_name c) = Some i" "tc_pending c = []" "tc_closeCalls c = 0"
    "hooked (c\<lparr>tc_poller := sv_pollers s l\<rparr>)"
proof -
  from w obtain l c where c: "sv_conns s i = Some (l, c)" "ep_watched (sv_pollers s l) (tc_fd c) \<noteq> 0"
    by (auto simp: sv_watched_def split: option.splits)
  let ?c = "c\<lparr>tc_poller := sv_pollers s l\<rparr>"
  note inv_l = sv_invD(5) [OF inv, of l]
  have "\<not> conn_fresh ?c" using c(2) ep_inv_parts(3) [OF inv_l] by (auto simp: conn_fresh_def ep_watched_def)
  moreover have "\<not> conn_silent ?c"
    using c(2) ep_invD [OF inv_l] by (fastforce simp: conn_silent_def ep_watched_def)
  ultimately show thesis
    using sv_invD(4) [OF inv c(1)] that [OF c(1)] c(1)
    by (auto simp: conn_phase_def loop_of_def about_def split: list.splits server_fn.splits)
qed

end

context conn_client
begin

lemma server_event:
  assumes ok: "server_ok k cinv s" and en: "server_enabled can_read s (EvEvent i re rv wr t r)"
  shows "\<exists>s'. server_step s (EvEvent i re rv wr t r) = Inr s' \<and> server_ok k cinv s'"
proof -
  have inv: "sv_inv cinv s" and cb: "sv_callbacks s = k" using ok by (simp_all add: server_ok_def)
  have w: "sv_watched s i" using en by simp
  obtain l c where c: "sv_conns s i = Some (l, c)" "loop_of s i = l" "about i (sv_pending s) = []"
    "conn_ok (c\<lparr>tc_poller := sv_pollers s l\<rparr>)" "cinv (c\<lparr>tc_poller := sv_pollers s l\<rparr>)" "map_of (sv_connections s) (tc_name c) = Some i"
    "tc_pending c = []" "tc_closeCalls c = 0" "hooked (c\<lparr>tc_poller := sv_pollers s l\<rparr>)"
    using watched_open [OF inv w] by blast
  let ?c = "c\<lparr>tc_poller := sv_pollers s l\<rparr>" and ?gone = "hangs_up re \<or> reads re \<and> rv = ReadvOk []"
  have "fits_input ?c d = fits_input c d" for d by (simp add: fits_input_def)
  with en c(1) have data: "reads re \<Longrightarrow> case rv of ReadvErr e \<Rightarrow> True
      | ReadvOk d \<Rightarrow> d = [] \<or> \<not> hangs_up re \<and> fits_input ?c d \<and> can_read ?c d"
    by (auto simp: can_read_poller hup_unread_def split: readv_result.splits)
  have once: "closes re rv = (if ?gone then 1 else 0)" using en by (simp add: closes_unread)
  from event_after_poll [OF c(4,5,9) _ _ data, where r = r and wr = wr and t = t] c(7,8) obtain c' where
    c': "conn_handleEvent (kc r) rv wr t (reported re ?c) = Inr c'" "same_spot c' ?c" "hooked c'" "tc_pending c' = []"
      "tc_closeCalls c' = (if ?gone then 1 else 0)" "if ?gone then conn_silent c' else conn_ok c' \<and> cinv c'"
    unfolding once by (auto split: if_splits)
  let ?f = "\<lambda>il c. conn_handleEvent (kc r) rv wr t (reported re c)"
  have step: "server_step s (EvEvent i re rv wr t r) = sv_on l i ?f s" using c(2) cb by simp
  show ?thesis
  proof (cases ?gone)
    case False
    have "\<forall>e \<in> set (sv_pending s). fn_conn (snd e) \<noteq> None" using sv_invD(2) [OF inv] by fastforce
    with False c' sv_on_open [of s i l c "sv_pending s" ?f c', OF ok c(1,3) refl _ c(6)] show ?thesis unfolding step by simp
  next
    case True
    let ?d = "c'\<lparr>tc_pending := [], tc_closeCalls := 0\<rparr>"
    have d: "conn_silent (?d\<lparr>tc_poller := tc_poller c'\<rparr>)" "ep_inv (tc_poller c')" "hooked (?d\<lparr>tc_poller := tc_poller c'\<rparr>)"
      using c'(3,6) True by (auto simp: conn_silent_def conn_open_def hooked_def)
    have place: "tc_name ?d = tc_name c" "tc_fd ?d = tc_fd c" "tc_channel ?d = tc_channel c"
      "poller_frame (tc_channel c) (tc_fd c) (sv_pollers s l) (tc_poller c')" using c'(2) by (simp_all add: same_spot_def)
    let ?t = "\<lambda>e m. s\<lparr>sv_conns := (sv_conns s)(i \<mapsto> (l, ?d)), sv_pollers := (sv_pollers s)(l := tc_poller c'),
        sv_pending := sv_pending s @ [e], sv_connections := m\<rparr>"
    have run: "server_step s (EvEvent i re rv wr t r) =
        Inr (if l = sv_base s then ?t (l, SDestroy i) (map_erase (tc_name c) (sv_connections s)) else ?t (sv_base s, SRemove i) (sv_connections s))"
      using c c' True place(1) unfolding step by (simp add: sv_on_def removeConnection_def removeConnectionInLoop_def sv_queue_def)
    have q: "about j (sv_pending s @ [(m, f)]) = about j (sv_pending s)" if "j \<noteq> i" "fn_conn f = Some i" for j m f
      using that by (simp add: about_def)
    have qs: "\<forall>e \<in> set (sv_pending s). fn_conn (snd e) \<noteq> None" using sv_invD(2) [OF inv] by fastforce
    have "sv_inv cinv (?t (l, SDestroy i) (map_erase (tc_name c) (sv_connections s)))"
      by (rule sv_inv_update [OF inv c(1) loc place(1-3) d(2) place(4)])
        (use q qs d(1,3) c(3) in \<open>simp_all add: conn_phase_def map_of_map_erase, simp_all add: about_def\<close>)
    moreover have "sv_inv cinv (?t (sv_base s, SRemove i) (sv_connections s))"
      by (rule sv_inv_update [OF inv c(1) loc place(1-3) d(2) place(4)])
        (use q qs d(1,3) c(3,6) in \<open>simp_all add: conn_phase_def, simp_all add: about_def\<close>)
    ultimately show ?thesis using run cb by (cases "l = sv_base s") (simp_all add: server_ok_def)
  qed
qed

text \<open>
  What \<open>hup_unread\<close> excludes: the close handler runs twice, and the second removal does not find the connection.
\<close>

lemma server_double_close:
  assumes ok: "server_ok k cinv s" and w: "sv_watched s i" and base: "loop_of s i = sv_base s"
    and re: "hangs_up re" "reads re"
  shows "server_step s (EvEvent i re (ReadvOk []) wr t r) = Inl (AssertFail ''n == 1'')"
proof -
  have inv: "sv_inv cinv s" and cb: "sv_callbacks s = k" using ok by (simp_all add: server_ok_def)
  obtain l c where c: "sv_conns s i = Some (l, c)" "loop_of s i = l"
    "conn_ok (c\<lparr>tc_poller := sv_pollers s l\<rparr>)" "cinv (c\<lparr>tc_poller := sv_pollers s l\<rparr>)" "map_of (sv_connections s) (tc_name c) = Some i"
    "tc_pending c = []" "tc_closeCalls c = 0" "hooked (c\<lparr>tc_poller := sv_pollers s l\<rparr>)"
    using watched_open [OF inv w] by blast
  let ?c = "c\<lparr>tc_poller := sv_pollers s l\<rparr>"
  from event_after_poll [OF c(3,4,8), of re "ReadvOk []" r wr t] c(6,7) re obtain c' where
    c': "conn_handleEvent (kc r) (ReadvOk []) wr t (reported re ?c) = Inr c'" "same_spot c' ?c" "tc_pending c' = []"
      "tc_closeCalls c' = Suc (Suc 0)" by (auto simp: closes_def)
  have "tc_name c' = tc_name c" using c'(2) by (simp add: same_spot_def)
  with c c' base cb show ?thesis
    by (simp add: sv_on_def removeConnection_def removeConnectionInLoop_def sv_queue_def map_of_map_erase)
qed

text \<open>The functor that destroys a closed connection, the last that knows it.\<close>

lemma server_destroy:
  assumes ok: "server_ok k cinv s" and i: "sv_conns s i = Some (m, c)" "about i q = []"
      "\<And>j. j \<noteq> i \<Longrightarrow> about j q = about j (sv_pending s)" "set q \<subseteq> set (sv_pending s)" "\<forall>e \<in> set q. fn_conn (snd e) \<noteq> None"
    and e: "conn_silent (c\<lparr>tc_poller := sv_pollers s m\<rparr>)" "map_of (sv_connections s) (tc_name c) \<noteq> Some i"
    and clean: "tc_pending c = []" "tc_closeCalls c = 0"
  shows "\<exists>s'. run_server_fn m r (SDestroy i) (s\<lparr>sv_pending := q\<rparr>) = Inr s' \<and> server_ok k cinv s'"
proof -
  let ?c = "c\<lparr>tc_poller := sv_pollers s m\<rparr>"
  have inv: "sv_inv cinv s" and cb: "sv_callbacks s = k" using ok by (simp_all add: server_ok_def)
  from destroyed [OF disjI2 [OF e(1)], of r] obtain c' ch where
    c': "connectDestroyed (kc r) True ?c = Inr c'" "ep_inv (tc_poller c')" "same_place c' ?c" "same_notes c' ?c"
      "ep_heap (tc_poller c') (tc_channel c) = Some ch" "ch_fd ch = tc_fd c" "ep_channels (tc_poller c') (tc_fd c) = None" by auto
  let ?w = "(tc_poller c')\<lparr>ep_heap := (ep_heap (tc_poller c'))(tc_channel c := None)\<rparr>"
  let ?s = "s\<lparr>sv_conns := (sv_conns s)(i := None), sv_pollers := (sv_pollers s)(m := ?w), sv_pending := q\<rparr>"
  have "ep_inv ?w" using ep_inv_drop [OF c'(2,5)] c'(6,7) by simp
  moreover have "poller_frame (tc_channel c) (tc_fd c) (sv_pollers s m) ?w"
    using c'(3) by (simp add: same_place_def poller_frame_def)
  ultimately have "sv_inv cinv ?s" by (rule sv_inv_release [OF inv i(1) loc]) (use i e(2) in auto)
  moreover have n: "tc_pending c' = []" "tc_closeCalls c' = 0" using c'(4) clean by (simp_all add: same_notes_def)
  have "run_server_fn m r (SDestroy i) (s\<lparr>sv_pending := q\<rparr>) = Inr ?s"
    using cb sv_on_quiet [of s i m c "connectDestroyed (kc r)" c' q, OF i(1) c'(1) n] c'(3)
    by (simp add: run_server_fn_def sv_release_def same_place_def)
  ultimately show ?thesis using cb by (simp add: server_ok_def)
qed

lemma server_functor:
  assumes ok: "server_ok k cinv s"
  shows "\<exists>s'. server_step s (EvFunctor l r) = Inr s' \<and> server_ok k cinv s'"
proof (cases "take_first l (sv_pending s)")
  case None
  with ok show ?thesis by simp
next
  case (Some fq)
  obtain f q where "fq = (f, q)" by (cases fq)
  with Some have f: "take_first l (sv_pending s) = Some (f, q)" by simp
  have inv: "sv_inv cinv s" and cb: "sv_callbacks s = k" using ok by (simp_all add: server_ok_def)
  obtain i m c where i: "fn_conn f = Some i" "sv_conns s i = Some (m, c)" "about i q = []"
    "\<And>j. j \<noteq> i \<Longrightarrow> about j q = about j (sv_pending s)" "set q \<subseteq> set (sv_pending s)" "\<forall>e \<in> set q. fn_conn (snd e) \<noteq> None"
    and ph: "conn_phase cinv (sv_base s) m [(l, f)] (map_of (sv_connections s) (tc_name c) = Some i) (c\<lparr>tc_poller := sv_pollers s m\<rparr>)"
    using functor_phase [OF inv f] by blast
  let ?c = "c\<lparr>tc_poller := sv_pollers s m\<rparr>"
  from phase_notes [OF ph] have clean: "tc_pending c = []" "tc_closeCalls c = 0" by simp_all
  have step: "server_step s (EvFunctor l r) = run_server_fn l r f (s\<lparr>sv_pending := q\<rparr>)" using f by simp
  show ?thesis
  proof (cases f)
    case (SEstablish j)
    with ph i(1) have e: "j = i" "l = m" "conn_fresh ?c" "map_of (sv_connections s) (tc_name c) = Some i" "hooked ?c"
      by (auto simp: conn_phase_def)
    from e(3,5) obtain c' where c': "connectEstablished (kc r) True ?c = Inr c'" "conn_ok c'" "cinv c'" "same_spot c' ?c" "hooked c'"
      "tc_pending c' = []" "tc_closeCalls c' = 0" by (rule established_hooked)
    from sv_on_open [of s i m c q "connectEstablished (kc r)" c', OF ok i(2,3,4,6) e(4) c'] step SEstablish e cb show ?thesis by (simp add: run_server_fn_def)
  next
    case (SRemove j)
    with ph i(1) have e: "j = i" "l = sv_base s" "conn_silent ?c" "map_of (sv_connections s) (tc_name c) = Some i" "hooked ?c"
      by (auto simp: conn_phase_def)
    let ?s = "s\<lparr>sv_conns := (sv_conns s)(i \<mapsto> (m, c)), sv_pollers := (sv_pollers s)(m := sv_pollers s m),
      sv_pending := q @ [(m, SDestroy i)], sv_connections := map_erase (tc_name c) (sv_connections s)\<rparr>"
    have "sv_inv cinv ?s"
      by (rule sv_inv_update [OF inv i(2) loc])
        (use i e(3,5) clean sv_invD(5) [OF inv, of m] in \<open>auto simp: about_def poller_frame_def conn_phase_def map_of_map_erase\<close>)
    moreover have "server_step s (EvFunctor l r) = Inr ?s"
      using step SRemove e i(2) by (simp add: run_server_fn_def removeConnectionInLoop_def sv_queue_def fun_upd_idem)
    ultimately show ?thesis using cb by (simp add: server_ok_def)
  next
    case (SDestroy j)
    with ph i(1) have e: "j = i" "l = m" "conn_silent ?c" "map_of (sv_connections s) (tc_name c) \<noteq> Some i"
      by (auto simp: conn_phase_def)
    with server_destroy [OF ok i(2-6) e(3,4) clean, of r] step SDestroy show ?thesis by simp
  qed (use ph i(1) in \<open>simp_all add: conn_phase_def\<close>)
qed

lemma getNextLoop_inv:
  assumes "pool_inv p"
  shows "\<exists>l p'. getNextLoop True p = Inr (l, p') \<and> pool_inv p' \<and> tp_baseLoop p' = tp_baseLoop p"
proof (cases "tp_loops p = []")
  case True
  with assms show ?thesis by (simp add: getNextLoop_def)
next
  case False
  then have "0 < length (tp_loops p)" by simp
  then have "Suc (nat (tp_next p)) mod length (tp_loops p) < length (tp_loops p)" by (rule mod_less_divisor)
  with False getNextLoop_ok [OF assms False] show ?thesis by (simp add: pool_inv_def)
qed

lemma server_accept:
  assumes ok: "server_ok k cinv s" and en: "server_enabled can_read s (EvAccept ar sn i p hwm r)"
  shows "\<exists>s'. server_step s (EvAccept ar sn i p hwm r) = Inr s' \<and> server_ok k cinv s'"
proof (cases ar)
  case (AcceptErr e)
  with ok en show ?thesis by (simp add: ac_handleRead_cases)
next
  case (AcceptOk fd peer)
  have inv: "sv_inv cinv s" and cb: "sv_callbacks s = k" using ok by (simp_all add: server_ok_def)
  from inv have "ac_hasCallback (sv_acceptor s)" "pool_inv (sv_pool s)" by (simp_all add: sv_inv_def)
  with getNextLoop_inv obtain l pool where
    l: "getNextLoop True (sv_pool s) = Inr (l, pool)" "pool_inv pool" "tp_baseLoop pool = sv_base s" by blast
  let ?n = "conn_name s (sv_nextConnId s)"
  define c where "c = (new_TcpConnection ?n fd p (InetAddress_of (getLocalAddr sn)) (InetAddress_of peer) hwm (sv_pollers s l) :: 'ctx tcp_conn)"
  let ?s = "s\<lparr>sv_nextConnId := sv_nextConnId s + 1, sv_pool := pool, sv_conns := (sv_conns s)(i \<mapsto> (l, c)),
    sv_pollers := (sv_pollers s)(l := tc_poller c), sv_connections := map_put ?n i (sv_connections s),
    sv_pending := sv_pending s @ [(l, SEstablish i)]\<rparr>"
  have fresh: "0 \<le> fd" "sv_nextConnId s < 2147483647" "sv_conns s i = None" "ep_heap (sv_pollers s m) p = None"
    "ep_channels (sv_pollers s m) fd = None" "sv_conns s j = Some (m, d) \<Longrightarrow> tc_fd d \<noteq> fd" for m j d
    using en AcceptOk by auto
  have new: "server_ok k cinv ?s"
    using sv_inv_add [OF inv fresh(3) loc fresh(4,5,6,2) l(2,3) c_def] cb by (simp add: server_ok_def)
  have run: "server_step s (EvAccept ar sn i p hwm r) =
      (if l = sv_base s then sv_on l i (connectEstablished (kc r)) (?s\<lparr>sv_pending := sv_pending s\<rparr>) else Inr ?s)"
    using AcceptOk fresh(1) l(1,3) \<open>ac_hasCallback (sv_acceptor s)\<close> cb
    by (simp add: ac_handleRead_cases newConnection_def sv_queue_def Let_def c_def)
  show ?thesis
  proof (cases "l = sv_base s")
    case False
    with run new show ?thesis by simp
  next
    case True
    have inv': "sv_inv cinv ?s" using new by (simp add: server_ok_def)
    have i: "sv_conns ?s i = Some (l, c)" by simp
    have q: "about i (sv_pending s) = []" using inv fresh(3) by (intro about_new) (simp_all add: sv_inv_def)
    from sv_invD(4) [OF inv' i] q have "conn_fresh (c\<lparr>tc_poller := sv_pollers ?s l\<rparr>)"
      "map_of (sv_connections ?s) (tc_name c) = Some i" "hooked (c\<lparr>tc_poller := sv_pollers ?s l\<rparr>)"
      by (auto simp: conn_phase_def about_def)
    moreover from this(1,3) obtain c' where
      c': "connectEstablished (kc r) True (c\<lparr>tc_poller := sv_pollers ?s l\<rparr>) = Inr c'" "conn_ok c'" "cinv c'"
        "same_spot c' (c\<lparr>tc_poller := sv_pollers ?s l\<rparr>)" "hooked c'" "tc_pending c' = []" "tc_closeCalls c' = 0" by (rule established_hooked)
    moreover have "about j (sv_pending s) = about j (sv_pending ?s)" if "j \<noteq> i" for j using that by (simp add: about_def)
    moreover have "\<forall>e \<in> set (sv_pending s). fn_conn (snd e) \<noteq> None" using sv_invD(2) [OF inv] by fastforce
    ultimately have "\<exists>s'. sv_on l i (connectEstablished (kc r)) (?s\<lparr>sv_pending := sv_pending s\<rparr>) = Inr s' \<and> server_ok k cinv s'"
      by (intro sv_on_open [OF new i q, of "connectEstablished (kc r)" c'])
    with run True show ?thesis by simp
  qed
qed

lemma server_step_safe:
  assumes "server_ok k cinv s" and "server_enabled can_read s ev"
  shows "\<exists>s'. server_step s ev = Inr s' \<and> server_ok k cinv s'"
  using assms server_accept server_event server_functor by (cases ev) blast+

end

text \<open>Every client that keeps the contract of a connection makes the server safe.\<close>

sublocale conn_client < sv: safe_steps server_step "server_ok k cinv" "server_enabled can_read"
  by unfold_locales (rule server_step_safe)

context conn_client
begin

lemmas server_run_safe = sv.run_safe

lemma double_close_aborts: "server_ok k cinv s \<Longrightarrow> double_close_fatal s"
  unfolding double_close_fatal_def using server_double_close by blast

end

section \<open>Properties\<close>

text \<open>What the invariant says of \<^verbatim>\<open>connections_\<close>: it holds exactly the connections that are not waiting to be destroyed.\<close>

definition connections_exact :: "'ctx tcp_server \<Rightarrow> bool" where
  "connections_exact s \<longleftrightarrow>
    (\<forall>i l c. sv_conns s i = Some (l, c) \<longrightarrow>
      (map_of (sv_connections s) (tc_name c) = Some i \<longleftrightarrow> (l, SDestroy i) \<notin> set (sv_pending s))) \<and>
    (\<forall>name i. map_of (sv_connections s) name = Some i \<longrightarrow> (\<exists>l c. sv_conns s i = Some (l, c) \<and> tc_name c = name))"

lemma sv_inv_exact:
  assumes inv: "sv_inv cinv s"
  shows "connections_exact s"
  unfolding connections_exact_def
proof (intro conjI allI impI)
  fix i l c assume i: "sv_conns s i = Some (l, c)"
  have "(l, SDestroy i) \<in> set (sv_pending s) \<longleftrightarrow> (l, SDestroy i) \<in> set (about i (sv_pending s))" by (simp add: about_def)
  moreover have "\<forall>e \<in> set (about i (sv_pending s)). fn_conn (snd e) = Some i" by (simp add: about_def)
  ultimately show "map_of (sv_connections s) (tc_name c) = Some i \<longleftrightarrow> (l, SDestroy i) \<notin> set (sv_pending s)"
    using sv_invD(4) [OF inv i] by (auto simp: conn_phase_def split: list.splits server_fn.splits)
qed (use sv_invD(1) [OF inv] in blast)

context conn_client
begin

lemma server_run_report:
  assumes "server_ok k cinv s" and "enabled_run server_step (server_enabled can_read) s evs"
  shows "\<exists>s'. run_steps server_step s evs = Inr s' \<and> connections_exact s' \<and> sv_apart s' \<and> double_close_fatal s'"
proof -
  from server_run_safe [OF assms] obtain s' where s': "run_steps server_step s evs = Inr s'" "server_ok k cinv s'" by blast
  from s'(2) have inv: "sv_inv cinv s'" by (simp add: server_ok_def)
  then have "sv_apart s'" by (simp add: sv_inv_def)
  with s' sv_inv_exact [OF inv] double_close_aborts [OF s'(2)] show ?thesis by blast
qed

end

lemma server_started:
  assumes "\<forall>l. ep_inv (pollers l)" and "ep_heap (pollers base) p = None" "ep_channels (pollers base) fd = None"
    and "0 \<le> fd" "0 \<le> ret" "0 \<le> ret'" "0 \<le> n"
  shows "\<exists>s0 s1 s. new_TcpServer base addr name fd ret p pollers = Inr s0 \<and> sv_callbacks s0 = default_callbacks \<and>
    sv_setThreadNum n (s0\<lparr>sv_callbacks := k\<rparr>) = Inr s1 \<and> sv_start base laddr ret' s1 = Inr s \<and> server_ok k cinv s \<and>
    sv_conns s = Map.empty \<and> sv_nextConnId s = 1 \<and>
    (\<forall>l q g. q \<noteq> p \<longrightarrow> g \<noteq> fd \<longrightarrow> ep_heap (sv_pollers s l) q = ep_heap (pollers l) q \<and>
      ep_channels (sv_pollers s l) g = ep_channels (pollers l) g)"
proof -
  from ac_listen_ok [of "pollers base" p fd ret ret'] assms obtain a w1 w2 where
    a: "new_Acceptor fd ret p (pollers base) = Inr (a, w1)" "ac_listen True ret' a w1 = Inr (a\<lparr>ac_listenning := True\<rparr>, w2)" "ep_inv w2"
    "ep_channels w2 = (ep_channels (pollers base))(fd \<mapsto> p)" "\<forall>q. q \<noteq> p \<longrightarrow> ep_heap w2 q = ep_heap (pollers base) q"
    by blast
  have al: "\<not> ac_listenning a" using a(1) by (auto simp: new_Acceptor_def res_Inr_iffs)
  have listen: "ac_listen True ret' (a\<lparr>ac_hasCallback := True\<rparr>) w1 = Inr (a\<lparr>ac_hasCallback := True, ac_listenning := True\<rparr>, w2)"
    using a(2) by (auto simp: ac_listen_def res_Inr_iffs)
  let ?pool = "setThreadNum n (new_EventLoopThreadPool base)"
  obtain ts where pool: "pool_start True laddr ?pool = Inr (?pool\<lparr>tp_started := True, tp_threads := ts, tp_loops := map laddr [0..<nat n]\<rparr>)"
    using start_threads_ok [of "map laddr [0..<nat n]" "?pool\<lparr>tp_started := True\<rparr>"]
    by (auto simp: pool_start_def setThreadNum_def new_EventLoopThreadPool_def)
  show ?thesis
    using a(1,3,4,5) al listen pool assms(1,7)
    by (auto simp: new_TcpServer_def ac_setNewConnectionCallback_def sv_setThreadNum_def sv_start_def sv_listen_def Let_def
      server_ok_def sv_inv_def sv_apart_def sv_phases_def sv_listed_def pool_inv_def setThreadNum_def new_EventLoopThreadPool_def)
qed

text \<open>
  C3: A server is safe under every interleaving of its loops, but for one kind of event. With user callbacks that keep the
  contract of a connection (they send, shut down and queue nothing, and there is no write-complete callback), after
  construction and \<^verbatim>\<open>start\<close> with any number of threads, in every run in which connections arrive, polls report
  events for watched descriptors, data is delivered that the callbacks cope with, peers close and functors run in whatever
  order the loops run them, no assertion fails, no destroyed connection is used and no poller is called from another
  thread; \<^verbatim>\<open>connections_\<close> holds exactly the connections that are not about to be destroyed, and no two connections share
  a name, a descriptor or a channel. The runs leave out, with \<open>hup_unread\<close>, an event that reports a hang-up without
  \<^verbatim>\<open>POLLIN\<close> but with \<^verbatim>\<open>POLLPRI\<close> or \<^verbatim>\<open>POLLRDHUP\<close> and whose read does not fail: in every state reached, such an event with an end of stream,
  on a connection of the base loop, closes the connection twice and fails \<^verbatim>\<open>assert(n == 1)\<close>.
\<close>

theorem tcp_server_safe:
  assumes "conn_client k cinv can_read"
    and "\<forall>l. ep_inv (pollers l)" and "ep_heap (pollers base) p = None" "ep_channels (pollers base) fd = None"
    and "0 \<le> fd" "0 \<le> ret" "0 \<le> ret'" "0 \<le> n"
  shows "\<exists>(s0 :: 'ctx tcp_server) s1 s. new_TcpServer base addr name fd ret p pollers = Inr s0 \<and>
    sv_setThreadNum n (s0\<lparr>sv_callbacks := k\<rparr>) = Inr s1 \<and> sv_start base laddr ret' s1 = Inr s \<and>
    (\<forall>evs. enabled_run server_step (server_enabled can_read) s evs \<longrightarrow>
      (\<exists>s'. run_steps server_step s evs = Inr s' \<and> connections_exact s' \<and> sv_apart s' \<and> double_close_fatal s'))"
proof -
  from server_started [OF assms(2-), of addr name k laddr cinv] obtain s0 s1 s :: "'ctx tcp_server" where
    s: "new_TcpServer base addr name fd ret p pollers = Inr s0"
      "sv_setThreadNum n (s0\<lparr>sv_callbacks := k\<rparr>) = Inr s1" "sv_start base laddr ret' s1 = Inr s" "server_ok k cinv s" by blast
  with conn_client.server_run_report [OF assms(1) s(4)] show ?thesis by blast
qed

theorem tcp_server_safe_witness:
  "\<exists>(s0 :: unit tcp_server) s1 s s' evs. new_TcpServer 0 (InetAddress_port 80) ''srv'' 3 0 7 (\<lambda>l. empty_poller) = Inr s0 \<and>
    sv_setThreadNum 2 (s0\<lparr>sv_callbacks := default_callbacks\<rparr>) = Inr s1 \<and> sv_start 0 Suc 0 s1 = Inr s \<and>
    evs = [EvAccept (AcceptOk 9 zero_addr) None 4 8 64 (WriteN 0), EvFunctor 1 (WriteN 0)] \<and>
    enabled_run server_step (server_enabled (\<lambda>c d. True)) s evs \<and>
    run_steps server_step s evs = Inr s' \<and> connections_exact s' \<and> sv_apart s' \<and> double_close_fatal s'"
proof -
  let ?e = "EvAccept (AcceptOk 9 zero_addr) None 4 8 64 (WriteN 0)"
  have "\<forall>l :: nat. ep_inv empty_poller" "(0 :: int) \<le> 3" "(0 :: int) \<le> 0" "(0 :: int) \<le> 2" by simp_all
  from server_started [OF this(1) _ _ this(2,3,3,4), of 7 0 "InetAddress_port 80" "''srv''" default_callbacks Suc "\<lambda>c. True"]
  obtain s0 s1 s :: "unit tcp_server" where
    s: "new_TcpServer 0 (InetAddress_port 80) ''srv'' 3 0 7 (\<lambda>l. empty_poller) = Inr s0"
      "sv_setThreadNum 2 (s0\<lparr>sv_callbacks := default_callbacks\<rparr>) = Inr s1" "sv_start 0 Suc 0 s1 = Inr s"
      "server_ok default_callbacks (\<lambda>c. True) s" "sv_conns s = Map.empty" "sv_nextConnId s = 1"
      "\<forall>l q g. q \<noteq> 7 \<longrightarrow> g \<noteq> 3 \<longrightarrow> ep_heap (sv_pollers s l) q = None \<and> ep_channels (sv_pollers s l) g = None" by auto
  from s(7) [rule_format, of 8 9] have fresh: "ep_heap (sv_pollers s l) 8 = None \<and> ep_channels (sv_pollers s l) 9 = None" for l by simp
  have en: "server_enabled (\<lambda>c d. True) s ?e" using s(5,6) fresh by simp
  from dcl.server_step_safe [OF s(4) en] obtain t where t: "server_step s ?e = Inr t" "server_ok default_callbacks (\<lambda>c. True) t" by blast
  from dcl.server_functor [OF t(2), of 1 "WriteN 0"] obtain u where "server_step t (EvFunctor 1 (WriteN 0)) = Inr u" by blast
  with en t(1) have run: "enabled_run server_step (server_enabled (\<lambda>c d. True)) s [?e, EvFunctor 1 (WriteN 0)]" by simp
  from tcp_server_safe [OF dcl.conn_client_axioms, of "\<lambda>l. empty_poller" 0 7 3 0 0 2 "InetAddress_port 80" "''srv''" Suc]
  obtain r0 r1 r :: "unit tcp_server" where
    r: "new_TcpServer 0 (InetAddress_port 80) ''srv'' 3 0 7 (\<lambda>l. empty_poller) = Inr r0"
      "sv_setThreadNum 2 (r0\<lparr>sv_callbacks := default_callbacks\<rparr>) = Inr r1"
      "sv_start 0 Suc 0 r1 = Inr r" "\<forall>evs. enabled_run server_step (server_enabled (\<lambda>c d. True)) r evs \<longrightarrow>
        (\<exists>s'. run_steps server_step r evs = Inr s' \<and> connections_exact s' \<and> sv_apart s' \<and> double_close_fatal s')" by auto
  from r(1-3) s(1-3) have "r = s" by simp
  with r(4) run obtain s' where "run_steps server_step s [?e, EvFunctor 1 (WriteN 0)] = Inr s'" "connections_exact s'" "sv_apart s'"
    "double_close_fatal s'" by blast
  with s(1-3) run show ?thesis by blast
qed

end
