(* ===== verification/HttpParser.thy ===== *)
theory HttpParser
  imports Buffer
begin

text \<open>
  The HTTP request parser: the classes \<open>HttpRequest\<close> (\<^verbatim>\<open>src/src/http/HttpRequest.hpp\<close>) and \<open>HttpContext\<close>
  (\<^verbatim>\<open>src/src/http/HttpContext.hpp\<close>, \<^verbatim>\<open>HttpContext.cpp\<close>), running on the model of \<open>Buffer\<close>. The parse loop
  can run forever (in the states \<open>ExpectBody\<close> and \<open>GotAll\<close>), so it is a partial function; the lemmas
  give its result in the other states through a specification on byte strings.
\<close>

section \<open>HttpRequest\<close>

datatype http_method = MInvalid | MGet | MPost | MHead | MPut | MDelete

datatype http_version = VUnknown | Http10 | Http11

record http_request =
  rq_method :: http_method
  rq_version :: http_version
  rq_path :: string
  rq_query :: string
  rq_receiveTime :: time_point
  rq_headers :: "string \<Rightarrow> string option"

definition new_HttpRequest :: http_request where
  "new_HttpRequest = \<lparr>rq_method = MInvalid, rq_version = VUnknown, rq_path = [], rq_query = [],
     rq_receiveTime = 0, rq_headers = Map.empty\<rparr>"

definition method_of_string :: "string \<Rightarrow> http_method" where
  "method_of_string m =
    (if m = ''GET'' then MGet
     else if m = ''POST'' then MPost
     else if m = ''HEAD'' then MHead
     else if m = ''PUT'' then MPut
     else if m = ''DELETE'' then MDelete
     else MInvalid)"

definition setMethod :: "http_request \<Rightarrow> string \<Rightarrow> (bool \<times> http_request) res" where
  "setMethod rq m =
    guard (rq_method rq = MInvalid) (AssertFail ''method_ == Method::Invalid'')
      (let rq' = rq\<lparr>rq_method := method_of_string m\<rparr>
       in Inr (rq_method rq' \<noteq> MInvalid, rq'))"

fun methodString :: "http_method \<Rightarrow> string" where
  "methodString MGet = ''GET''"
| "methodString MPost = ''POST''"
| "methodString MHead = ''HEAD''"
| "methodString MPut = ''PUT''"
| "methodString MDelete = ''DELETE''"
| "methodString MInvalid = ''UNKNOWN''"

definition setPath :: "http_request \<Rightarrow> string \<Rightarrow> http_request" where
  "setPath rq s = rq\<lparr>rq_path := s\<rparr>"

definition setQuery :: "http_request \<Rightarrow> string \<Rightarrow> http_request" where
  "setQuery rq s = rq\<lparr>rq_query := s\<rparr>"

definition setReceiveTime :: "http_request \<Rightarrow> time_point \<Rightarrow> http_request" where
  "setReceiveTime rq t = rq\<lparr>rq_receiveTime := t\<rparr>"

definition setVersion :: "http_request \<Rightarrow> http_version \<Rightarrow> http_request" where
  "setVersion rq v = rq\<lparr>rq_version := v\<rparr>"

text \<open>\<^verbatim>\<open>isspace\<close> of the C locale.\<close>

definition isspace :: "char \<Rightarrow> bool" where
  "isspace c \<longleftrightarrow> (9 \<le> (of_char c :: nat) \<and> (of_char c :: nat) \<le> 13) \<or> c = CHR '' ''"

definition trim_right :: "string \<Rightarrow> string" where
  "trim_right s = rev (dropWhile isspace (rev s))"

text \<open>The three pointers of \<^verbatim>\<open>addHeader\<close> are a line and the index of the separator in it.\<close>

definition addHeader :: "http_request \<Rightarrow> string \<Rightarrow> nat \<Rightarrow> http_request" where
  "addHeader rq line colon =
    (let field = take colon line;
         val = trim_right (dropWhile isspace (drop (Suc colon) line))
     in rq\<lparr>rq_headers := (rq_headers rq)(field \<mapsto> val)\<rparr>)"

definition getHeader :: "http_request \<Rightarrow> string \<Rightarrow> string" where
  "getHeader rq field = (case rq_headers rq field of None \<Rightarrow> [] | Some v \<Rightarrow> v)"

text \<open>\<^verbatim>\<open>HttpRequest::swap\<close> exchanges five of the six members: \<^verbatim>\<open>query_\<close> is left out.\<close>

definition swap_request :: "http_request \<Rightarrow> http_request \<Rightarrow> http_request \<times> http_request" where
  "swap_request this that =
    (this\<lparr>rq_method := rq_method that, rq_version := rq_version that, rq_path := rq_path that,
       rq_receiveTime := rq_receiveTime that, rq_headers := rq_headers that\<rparr>,
     that\<lparr>rq_method := rq_method this, rq_version := rq_version this, rq_path := rq_path this,
       rq_receiveTime := rq_receiveTime this, rq_headers := rq_headers this\<rparr>)"

section \<open>HttpContext\<close>

datatype parse_state = ExpectRequestLine | ExpectHeaders | ExpectBody | GotAll

record http_context =
  cx_state :: parse_state
  cx_request :: http_request

definition new_HttpContext :: http_context where
  "new_HttpContext = \<lparr>cx_state = ExpectRequestLine, cx_request = new_HttpRequest\<rparr>"

definition gotAll :: "http_context \<Rightarrow> bool" where
  "gotAll cx \<longleftrightarrow> cx_state cx = GotAll"

definition reset_context :: "http_context \<Rightarrow> http_context" where
  "reset_context cx =
    cx\<lparr>cx_state := ExpectRequestLine, cx_request := fst (swap_request (cx_request cx) new_HttpRequest)\<rparr>"

definition processRequestLine :: "http_request \<Rightarrow> string \<Rightarrow> (bool \<times> http_request) res" where
  "processRequestLine rq line =
    (let space = std_find (CHR '' '') line in
     if space = length line then Inr (False, rq)
     else rbind (setMethod rq (take space line)) (\<lambda>(succ, rq1).
       if \<not> succ then Inr (False, rq1)
       else
        (let rest = drop (Suc space) line; space2 = std_find (CHR '' '') rest in
         if space2 = length rest then Inr (False, rq1)
         else
          (let target = take space2 rest;
               question = std_find (CHR ''?'') target;
               rq2 = (if question \<noteq> length target
                      then setQuery (setPath rq1 (take question target)) (drop question target)
                      else setPath rq1 target);
               ver = drop (Suc space2) rest
           in if length ver = 8 \<and> take 7 ver = ''HTTP/1.'' then
                if ver ! 7 = CHR ''1'' then Inr (True, setVersion rq2 Http11)
                else if ver ! 7 = CHR ''0'' then Inr (True, setVersion rq2 Http10)
                else Inr (False, rq2)
              else Inr (False, rq2)))))"

text \<open>
  The loop of \<^verbatim>\<open>parseRequest\<close>; \<open>None\<close> is a loop that never ends. The line between the reader and the
  CRLF is read from the buffer, as the pointers do.
\<close>

partial_function (option) parse_loop ::
  "bool \<Rightarrow> http_context \<Rightarrow> buffer \<Rightarrow> time_point \<Rightarrow> (bool \<times> http_context \<times> buffer) res option" where
  "parse_loop okv cx b t =
    (if cx_state cx = ExpectRequestLine then
       (case findCRLF b of
          Inl e \<Rightarrow> Some (Inl e)
        | Inr None \<Rightarrow> Some (Inr (okv, cx, b))
        | Inr (Some crlf) \<Rightarrow>
            (case rbind (range_of (bytes b) (peek b) crlf) (processRequestLine (cx_request cx)) of
               Inl e \<Rightarrow> Some (Inl e)
             | Inr (ok1, rq) \<Rightarrow>
                 if ok1 then
                   (case retrieveUntil b (crlf + 2) of
                      Inl e \<Rightarrow> Some (Inl e)
                    | Inr b1 \<Rightarrow>
                        parse_loop ok1 (cx\<lparr>cx_request := setReceiveTime rq t,
                          cx_state := ExpectHeaders\<rparr>) b1 t)
                 else Some (Inr (ok1, cx\<lparr>cx_request := rq\<rparr>, b))))
     else if cx_state cx = ExpectHeaders then
       (case findCRLF b of
          Inl e \<Rightarrow> Some (Inl e)
        | Inr None \<Rightarrow> Some (Inr (okv, cx, b))
        | Inr (Some crlf) \<Rightarrow>
            (case range_of (bytes b) (peek b) crlf of
               Inl e \<Rightarrow> Some (Inl e)
             | Inr line \<Rightarrow>
                 (let colon = std_find (CHR '';'') line in
                  if colon \<noteq> length line then
                    (case retrieveUntil b (crlf + 2) of
                       Inl e \<Rightarrow> Some (Inl e)
                     | Inr b1 \<Rightarrow>
                         parse_loop okv (cx\<lparr>cx_request := addHeader (cx_request cx) line colon\<rparr>) b1 t)
                  else
                    (case retrieveUntil b (crlf + 2) of
                       Inl e \<Rightarrow> Some (Inl e)
                     | Inr b1 \<Rightarrow> Some (Inr (okv, cx\<lparr>cx_state := GotAll\<rparr>, b1))))))
     else parse_loop okv cx b t)"

definition parseRequest ::
  "http_context \<Rightarrow> buffer \<Rightarrow> time_point \<Rightarrow> (bool \<times> http_context \<times> buffer) res option" where
  "parseRequest cx b t = parse_loop True cx b t"

section \<open>Specification on byte strings\<close>

text \<open>The first complete line and what follows its CRLF.\<close>

definition split_line :: "string \<Rightarrow> (string \<times> string) option" where
  "split_line s = (let k = std_search kCRLF s
    in if k = length s then None else Some (take k s, drop (k + 2) s))"

lemma split_line_Some:
  assumes "split_line s = Some (line, rest)"
  shows "s = line @ kCRLF @ rest" and "length line = std_search kCRLF s"
    and "std_search kCRLF s + 2 \<le> length s"
proof -
  let ?k = "std_search kCRLF s"
  from assms have k: "?k < length s" and l: "line = take ?k s" "rest = drop (?k + 2) s"
    by (auto simp: split_line_def Let_def le_neq_implies_less split: if_splits)
  from std_search_found [OF kCRLF_nonempty k] obtain z where z: "drop ?k s = kCRLF @ z"
    by (auto simp: is_prefix_iff)
  have "drop (?k + 2) s = drop 2 (drop ?k s)" by (simp add: add.commute)
  then have "rest = z" unfolding l(2) z by (simp add: kCRLF_def)
  then show "s = line @ kCRLF @ rest" using z l(1) by (metis append_take_drop_id)
  show "length line = ?k" using l(1) k by simp
  show "?k + 2 \<le> length s" using z k by (auto simp: kCRLF_def dest!: arg_cong [where f = length])
qed

lemma split_line_shorter:
  "split_line s = Some (line, rest) \<Longrightarrow> length rest < length s"
  using split_line_Some(1) [of s line rest] by (auto simp: kCRLF_def)

lemma split_line_eq:
  assumes "\<And>i. i < length line \<Longrightarrow> \<not> is_prefix kCRLF (drop i (line @ kCRLF @ rest))"
  shows "split_line (line @ kCRLF @ rest) = Some (line, rest)"
proof -
  have "std_search kCRLF (line @ kCRLF @ rest) = length line"
    by (rule std_search_eqI) (use assms in \<open>auto simp: kCRLF_def\<close>)
  then show ?thesis by (simp add: split_line_def kCRLF_def)
qed

text \<open>A line without a carriage return is cut at the CRLF behind it.\<close>

lemma split_line_no_cr:
  assumes "CHR 0x0D \<notin> set line"
  shows "split_line (line @ kCRLF @ rest) = Some (line, rest)"
proof (rule split_line_eq)
  fix i assume i: "i < length line"
  with assms have "line ! i \<noteq> CHR 0x0D" by (metis nth_mem)
  with i show "\<not> is_prefix kCRLF (drop i (line @ kCRLF @ rest))"
    by (simp add: kCRLF_def Cons_nth_drop_Suc [symmetric])
qed

lemma split_line_append:
  assumes "split_line s = Some (line, rest)"
  shows "split_line (s @ x) = Some (line, rest @ x)"
proof -
  note sp = split_line_Some [OF assms]
  have "\<not> is_prefix kCRLF (drop i (line @ kCRLF @ rest @ x))" if "i < length line" for i
  proof
    assume "is_prefix kCRLF (drop i (line @ kCRLF @ rest @ x))"
    then have "is_prefix kCRLF (drop i s @ x)" using that sp(1) by simp
    moreover have "2 \<le> length (drop i s)" using that sp(2,3) by simp
    ultimately have "is_prefix kCRLF (drop i s)"
      by (auto intro: is_prefix_shorten simp: kCRLF_def)
    then show False using std_search_first [of i kCRLF s] that sp(2) by simp
  qed
  then have "split_line (line @ kCRLF @ rest @ x) = Some (line, rest @ x)"
    by (intro split_line_eq) simp
  with sp(1) show ?thesis by simp
qed

function http_spec ::
  "http_context \<Rightarrow> string \<Rightarrow> time_point \<Rightarrow> (bool \<times> http_context \<times> string) res" where
  "http_spec cx s t =
    (case split_line s of
       None \<Rightarrow> Inr (True, cx, s)
     | Some (line, rest) \<Rightarrow>
         if cx_state cx = ExpectRequestLine then
           rbind (processRequestLine (cx_request cx) line) (\<lambda>(ok1, rq).
             if ok1 then http_spec (cx\<lparr>cx_request := setReceiveTime rq t, cx_state := ExpectHeaders\<rparr>) rest t
             else Inr (False, cx\<lparr>cx_request := rq\<rparr>, s))
         else if std_find (CHR '';'') line \<noteq> length line then
           http_spec (cx\<lparr>cx_request := addHeader (cx_request cx) line (std_find (CHR '';'') line)\<rparr>) rest t
         else Inr (True, cx\<lparr>cx_state := GotAll\<rparr>, rest))"
  by pat_completeness auto
termination
  by (relation "measure (\<lambda>(cx, s, t). length s)") (auto dest: split_line_shorter)

declare http_spec.simps [simp del]

definition parsing :: "http_context \<Rightarrow> bool" where
  "parsing cx \<longleftrightarrow> cx_state cx = ExpectRequestLine \<or> cx_state cx = ExpectHeaders"

text \<open>One turn of the loop finds the line on the buffer that \<open>split_line\<close> finds in its content.\<close>

lemma findCRLF_split_line_None:
  assumes "buf_inv b" and "split_line (content b) = None"
  shows "findCRLF b = Inr None"
  using assms(2) by (simp add: findCRLF_eq [OF assms(1)] split_line_def Let_def split: if_splits)

lemma buffer_line:
  assumes inv: "buf_inv b" and sp: "split_line (content b) = Some (line, rest)"
  shows "\<exists>crlf b1. findCRLF b = Inr (Some crlf) \<and> range_of (bytes b) (peek b) crlf = Inr line \<and>
    retrieveUntil b (crlf + 2) = Inr b1 \<and> buf_inv b1 \<and> content b1 = rest"
proof -
  let ?k = "std_search kCRLF (content b)" and ?r = "readerIndex b"
  note s = split_line_Some [OF sp]
  note bd = buf_inv_bounds [OF inv]
  from s(3) have k: "?k \<noteq> length (content b)" by linarith
  then have 1: "findCRLF b = Inr (Some (?r + ?k))" by (simp add: findCRLF_eq [OF inv])
  have w: "?r + ?k + 2 \<le> writerIndex b" using s(3) readable_end [OF inv] by (simp add: inv)
  have "take ?k (drop ?r (bytes b)) = take ?k (content b)"
    using w by (simp add: content_def)
  also have "\<dots> = line" using sp by (auto simp: split_line_def Let_def split: if_splits)
  finally have 2: "range_of (bytes b) (peek b) (?r + ?k) = Inr line"
    using w bd by (simp add: range_of_def peek_def)
  from retrieveUntil_ok [OF inv _ w] obtain b1 where
    b1: "retrieveUntil b (?r + ?k + 2) = Inr b1" "buf_inv b1" "content b1 = drop (?k + 2) (content b)"
    by (auto simp: add.assoc)
  have "drop (?k + 2) (content b) = rest" using sp by (auto simp: split_line_def Let_def split: if_splits)
  with 1 2 b1 show ?thesis by auto
qed

text \<open>The loop ends, and its result is the one of the specification.\<close>

definition refines_result ::
  "(bool \<times> http_context \<times> string) res \<Rightarrow> (bool \<times> http_context \<times> buffer) res option \<Rightarrow> bool" where
  "refines_result spec r \<longleftrightarrow>
    (case spec of
       Inl e \<Rightarrow> r = Some (Inl e)
     | Inr (okv, cx, s) \<Rightarrow> \<exists>b. r = Some (Inr (okv, cx, b)) \<and> buf_inv b \<and> content b = s)"

lemma parse_loop_request_line:
  "cx_state cx = ExpectRequestLine \<Longrightarrow> findCRLF b = Inr None \<Longrightarrow>
   parse_loop okv cx b t = Some (Inr (okv, cx, b))"
  "cx_state cx = ExpectRequestLine \<Longrightarrow> findCRLF b = Inr (Some crlf) \<Longrightarrow>
   range_of (bytes b) (peek b) crlf = Inr line \<Longrightarrow> retrieveUntil b (crlf + 2) = Inr b1 \<Longrightarrow>
   parse_loop okv cx b t =
    (case processRequestLine (cx_request cx) line of
       Inl e \<Rightarrow> Some (Inl e)
     | Inr (ok1, rq) \<Rightarrow>
         if ok1 then parse_loop True (cx\<lparr>cx_request := setReceiveTime rq t, cx_state := ExpectHeaders\<rparr>) b1 t
         else Some (Inr (False, cx\<lparr>cx_request := rq\<rparr>, b)))"
  by (subst parse_loop.simps, simp split: sum.splits)+

lemma parse_loop_headers:
  "cx_state cx = ExpectHeaders \<Longrightarrow> findCRLF b = Inr None \<Longrightarrow>
   parse_loop okv cx b t = Some (Inr (okv, cx, b))"
  "cx_state cx = ExpectHeaders \<Longrightarrow> findCRLF b = Inr (Some crlf) \<Longrightarrow>
   range_of (bytes b) (peek b) crlf = Inr line \<Longrightarrow> retrieveUntil b (crlf + 2) = Inr b1 \<Longrightarrow>
   parse_loop okv cx b t =
    (if std_find (CHR '';'') line \<noteq> length line then
       parse_loop okv (cx\<lparr>cx_request := addHeader (cx_request cx) line (std_find (CHR '';'') line)\<rparr>) b1 t
     else Some (Inr (okv, cx\<lparr>cx_state := GotAll\<rparr>, b1)))"
  by (subst parse_loop.simps, simp add: Let_def)+

lemma parse_loop_refines:
  assumes "buf_inv b" and "parsing cx"
  shows "refines_result (http_spec cx (content b) t) (parse_loop True cx b t)"
  using assms
proof (induction "length (content b)" arbitrary: b cx rule: less_induct)
  case less
  note inv = less.prems(1)
  show ?case
  proof (cases "split_line (content b)")
    case None
    with less.prems findCRLF_split_line_None [OF inv None] show ?thesis
      by (auto simp: http_spec.simps [of cx "content b"] parse_loop_request_line parse_loop_headers
          refines_result_def parsing_def)
  next
    case (Some lr)
    then obtain line rest where sp: "split_line (content b) = Some (line, rest)" by (cases lr) auto
    from buffer_line [OF inv sp] obtain crlf b1 where
      b1: "findCRLF b = Inr (Some crlf)" "range_of (bytes b) (peek b) crlf = Inr line"
        "retrieveUntil b (crlf + 2) = Inr b1" "buf_inv b1" "content b1 = rest" by blast
    have "length (content b1) < length (content b)" using split_line_shorter [OF sp] b1(5) by simp
    note IH = less.hyps [OF this b1(4)]
    show ?thesis
    proof (cases "cx_state cx = ExpectRequestLine")
      case True
      show ?thesis
      proof (cases "processRequestLine (cx_request cx) line")
        case (Inl e)
        with True sp b1 show ?thesis
          by (simp add: http_spec.simps [of cx "content b"] parse_loop_request_line [OF True] refines_result_def)
      next
        case (Inr p)
        let ?cx = "cx\<lparr>cx_request := setReceiveTime (snd p) t, cx_state := ExpectHeaders\<rparr>"
        from IH [of ?cx] have "refines_result (http_spec ?cx rest t) (parse_loop True ?cx b1 t)"
          by (simp add: parsing_def b1(5))
        with True sp b1 Inr inv show ?thesis
          by (cases p) (auto simp: http_spec.simps [of cx "content b"] parse_loop_request_line(2) [OF True b1(1-3)]
              refines_result_def)
      qed
    next
      case False
      with less.prems(2) have st: "cx_state cx = ExpectHeaders" by (simp add: parsing_def)
      let ?cx = "cx\<lparr>cx_request := addHeader (cx_request cx) line (std_find (CHR '';'') line)\<rparr>"
      from IH [of ?cx] have "refines_result (http_spec ?cx rest t) (parse_loop True ?cx b1 t)"
        by (simp add: parsing_def st b1(5))
      with st sp b1 show ?thesis
        by (auto simp: http_spec.simps [of cx "content b"] parse_loop_headers(2) [OF st b1(1-3)]
            refines_result_def)
    qed
  qed
qed

lemma parseRequest_refines:
  "buf_inv b \<Longrightarrow> parsing cx \<Longrightarrow> refines_result (http_spec cx (content b) t) (parseRequest cx b t)"
  by (simp add: parseRequest_def parse_loop_refines)

section \<open>Request lines and header lines\<close>

text \<open>The text of a request line, and what may stand in it.\<close>

fun versionString :: "http_version \<Rightarrow> string" where
  "versionString Http10 = ''HTTP/1.0''"
| "versionString Http11 = ''HTTP/1.1''"
| "versionString VUnknown = []"

definition request_line :: "http_method \<Rightarrow> string \<Rightarrow> string \<Rightarrow> http_version \<Rightarrow> string" where
  "request_line m path query v = methodString m @ '' '' @ path @ query @ '' '' @ versionString v"

definition line_ok :: "http_method \<Rightarrow> string \<Rightarrow> string \<Rightarrow> http_version \<Rightarrow> bool" where
  "line_ok m path query v \<longleftrightarrow> m \<noteq> MInvalid \<and> v \<noteq> VUnknown \<and>
     {CHR '' '', CHR ''?'', CHR 0x0D} \<inter> set path = {} \<and>
     {CHR '' '', CHR 0x0D} \<inter> set query = {} \<and> (query = [] \<or> hd query = CHR ''?'')"

lemma method_of_methodString: "m \<noteq> MInvalid \<Longrightarrow> method_of_string (methodString m) = m"
  by (cases m) (simp_all add: method_of_string_def)

lemma methodString_chars: "set (methodString m) \<subseteq> set ''GETPOSHADULKNW''"
  by (cases m) simp_all

lemma std_find_target:
  assumes "CHR ''?'' \<notin> set path" and "query = [] \<or> hd query = CHR ''?''"
  shows "std_find (CHR ''?'') (path @ query) = length path"
  using assms
proof (cases query)
  case (Cons a list)
  with assms show ?thesis by (simp add: std_find_append_notin)
qed (simp add: std_find_length_iff)

lemma processRequestLine_print:
  assumes ok: "line_ok m path query v" and fresh: "rq_method rq = MInvalid"
  shows "processRequestLine rq (request_line m path query v) =
    Inr (True, rq\<lparr>rq_method := m, rq_path := path,
      rq_query := (if query = [] then rq_query rq else query), rq_version := v\<rparr>)"
proof -
  let ?v = "versionString v" and ?t = "path @ query"
  have sp: "CHR '' '' \<notin> set (methodString m)" using methodString_chars [of m] by auto
  have 1: "std_find (CHR '' '') (request_line m path query v) = length (methodString m)"
    using std_find_append_notin [OF sp, of "path @ query @ '' '' @ ?v"] by (simp add: request_line_def)
  have "CHR '' '' \<notin> set ?t" using ok by (auto simp: line_ok_def)
  then have 2: "std_find (CHR '' '') (?t @ '' '' @ ?v) = length ?t"
    using std_find_append_notin [of "CHR '' ''" ?t ?v] by simp
  have q: "std_find (CHR ''?'') ?t = length path"
    by (rule std_find_target) (use ok in \<open>auto simp: line_ok_def\<close>)
  have m: "setMethod rq (methodString m) = Inr (True, rq\<lparr>rq_method := m\<rparr>)"
    using ok fresh by (simp add: setMethod_def method_of_methodString line_ok_def)
  have v: "length ?v = 8" "take 7 ?v = ''HTTP/1.''"
    "?v ! 7 = CHR ''1'' \<longleftrightarrow> v = Http11" "?v ! 7 = CHR ''0'' \<longleftrightarrow> v = Http10"
    using ok by (cases v; simp add: line_ok_def)+
  have rest: "drop (Suc (length (methodString m))) (request_line m path query v) = ?t @ '' '' @ ?v"
    by (simp add: request_line_def)
  have tk: "take (length (methodString m)) (request_line m path query v) = methodString m"
    by (simp add: request_line_def)
  have ne: "length (methodString m) \<noteq> length (request_line m path query v)"
    by (simp add: request_line_def)
  have v': "v = Http10 \<or> v = Http11" using ok by (cases v) (auto simp: line_ok_def)
  show ?thesis
    unfolding processRequestLine_def Let_def 1 tk m rest 2
    using q v ne v' by (auto simp: setQuery_def setPath_def setVersion_def)
qed

text \<open>Header lines as the parser reads them: the field name ends at a semicolon.\<close>

definition header_line :: "string \<times> string \<Rightarrow> string" where
  "header_line h = fst h @ '';'' @ snd h"

definition header_ok :: "string \<times> string \<Rightarrow> bool" where
  "header_ok h \<longleftrightarrow> {CHR '';'', CHR 0x0D} \<inter> set (fst h) = {} \<and> CHR 0x0D \<notin> set (snd h) \<and>
     (snd h = [] \<or> \<not> isspace (hd (snd h)) \<and> \<not> isspace (last (snd h)))"

lemma trim_id:
  assumes "val = [] \<or> \<not> isspace (hd val) \<and> \<not> isspace (last val)"
  shows "trim_right (dropWhile isspace val) = val"
proof (cases val)
  case (Cons a list)
  with assms have "dropWhile isspace val = val" by simp
  moreover have "dropWhile isspace (rev val) = rev val"
    using assms Cons by (metis dropWhile_eq_self_iff hd_rev list.distinct(1))
  ultimately show ?thesis by (simp add: trim_right_def)
qed (simp add: trim_right_def)

lemma addHeader_line:
  assumes "header_ok h"
  shows "std_find (CHR '';'') (header_line h) \<noteq> length (header_line h)"
    and "addHeader rq (header_line h) (std_find (CHR '';'') (header_line h)) =
      rq\<lparr>rq_headers := (rq_headers rq)(fst h \<mapsto> snd h)\<rparr>"
proof -
  have f: "std_find (CHR '';'') (header_line h) = length (fst h)"
    using assms by (simp add: header_line_def header_ok_def std_find_append_notin)
  then show "std_find (CHR '';'') (header_line h) \<noteq> length (header_line h)"
    by (simp add: header_line_def)
  show "addHeader rq (header_line h) (std_find (CHR '';'') (header_line h)) =
      rq\<lparr>rq_headers := (rq_headers rq)(fst h \<mapsto> snd h)\<rparr>"
    unfolding f using assms by (simp add: addHeader_def header_line_def header_ok_def trim_id)
qed

definition print_headers :: "(string \<times> string) list \<Rightarrow> string" where
  "print_headers hs = concat (map (\<lambda>h. header_line h @ kCRLF) hs)"

lemma http_spec_end:
  assumes "cx_state cx = ExpectHeaders" and "CHR 0x0D \<notin> set line" and "CHR '';'' \<notin> set line"
  shows "http_spec cx (line @ kCRLF @ rest) t = Inr (True, cx\<lparr>cx_state := GotAll\<rparr>, rest)"
  using assms std_find_length_iff [of "CHR '';''" line]
  by (simp add: http_spec.simps [of cx "line @ kCRLF @ rest"] split_line_no_cr)

lemma http_spec_headers:
  assumes "cx_state cx = ExpectHeaders" and "\<forall>h \<in> set hs. header_ok h"
  shows "http_spec cx (print_headers hs @ s) t =
    http_spec (cx\<lparr>cx_request := (cx_request cx)\<lparr>rq_headers := rq_headers (cx_request cx) ++ map_of (rev hs)\<rparr>\<rparr>) s t"
  using assms
proof (induction hs arbitrary: cx)
  case Nil
  then show ?case by (simp add: print_headers_def)
next
  case (Cons h hs)
  let ?rq = "(cx_request cx)\<lparr>rq_headers := (rq_headers (cx_request cx))(fst h \<mapsto> snd h)\<rparr>"
  have h: "header_ok h" using Cons.prems by simp
  have cr: "CHR 0x0D \<notin> set (header_line h)" using h by (auto simp: header_ok_def header_line_def)
  have "http_spec cx (print_headers (h # hs) @ s) t =
      http_spec (cx\<lparr>cx_request := ?rq\<rparr>) (print_headers hs @ s) t"
    using Cons.prems(1) addHeader_line [OF h]
    by (subst http_spec.simps) (simp add: print_headers_def split_line_no_cr [OF cr])
  also have "\<dots> = http_spec (cx\<lparr>cx_request := ?rq\<lparr>rq_headers := rq_headers ?rq ++ map_of (rev hs)\<rparr>\<rparr>) s t"
    using Cons.IH [of "cx\<lparr>cx_request := ?rq\<rparr>"] Cons.prems by (simp add: fun_upd_def)
  also have "rq_headers ?rq ++ map_of (rev hs) = rq_headers (cx_request cx) ++ map_of (rev (h # hs))"
    by (cases h) (simp add: map_of_append)
  finally show ?case by simp
qed

lemma http_spec_request_line:
  assumes "cx_state cx = ExpectRequestLine" and "line_ok m path query v"
    and "rq_method (cx_request cx) = MInvalid"
  shows "http_spec cx (request_line m path query v @ kCRLF @ s) t =
    http_spec (cx\<lparr>cx_request := (cx_request cx)\<lparr>rq_method := m, rq_path := path,
      rq_query := (if query = [] then rq_query (cx_request cx) else query), rq_version := v,
      rq_receiveTime := t\<rparr>, cx_state := ExpectHeaders\<rparr>) s t"
proof -
  have "CHR 0x0D \<notin> set (versionString v)" by (cases v) simp_all
  then have "CHR 0x0D \<notin> set (request_line m path query v)"
    using methodString_chars [of m] assms(2) by (auto simp: request_line_def line_ok_def)
  from split_line_no_cr [OF this] show ?thesis
    by (subst http_spec.simps)
      (simp add: assms(1) processRequestLine_print [OF assms(2,3)] setReceiveTime_def)
qed

lemma http_spec_time:
  "cx_state cx = ExpectHeaders \<Longrightarrow> http_spec cx s t = http_spec cx s t'"
proof (induction cx s t rule: http_spec.induct)
  case (1 cx s t)
  then show ?case
    by (subst (1 2) http_spec.simps) (auto split: option.splits prod.splits)
qed

lemma http_spec_append:
  assumes "parsing cx" and "http_spec cx s t = Inr (True, cx', s')" and "\<not> gotAll cx'"
  shows "http_spec cx (s @ x) t = http_spec cx' (s' @ x) t \<and> parsing cx'"
  using assms
proof (induction cx s t rule: http_spec.induct)
  case (1 cx s t)
  show ?case
  proof (cases "split_line s")
    case None
    with "1.prems" show ?thesis by (simp add: http_spec.simps [of cx s])
  next
    case (Some lr)
    then obtain line rest where sp: "split_line s = Some (line, rest)" by (cases lr) auto
    note spx = split_line_append [OF sp]
    show ?thesis
    proof (cases "cx_state cx = ExpectRequestLine")
      case True
      with "1.prems"(2) sp obtain rq where rq: "processRequestLine (cx_request cx) line = Inr (True, rq)"
        by (auto simp: http_spec.simps [of cx s] rbind_eq_Inr_iff split: if_splits)
      with "1.IH"(1) [OF sp refl True TrueI] "1.prems" sp spx True show ?thesis
        by (simp add: http_spec.simps [of cx s] http_spec.simps [of cx "s @ x"] parsing_def)
    next
      case False
      show ?thesis
      proof (cases "std_find (CHR '';'') line = length line")
        case True
        with False "1.prems" sp show ?thesis by (auto simp: http_spec.simps [of cx s] gotAll_def)
      next
        case colon: False
        with "1.IH"(2) [OF sp refl False colon] "1.prems" sp spx False show ?thesis
          by (simp add: http_spec.simps [of cx s] http_spec.simps [of cx "s @ x"] parsing_def)
      qed
    qed
  qed
qed

lemma http_spec_headers_state:
  "cx_state cx = ExpectHeaders \<Longrightarrow> http_spec cx s t = Inr (okv, cx', s') \<Longrightarrow>
   okv \<and> (cx_state cx' = ExpectHeaders \<or> gotAll cx')"
proof (induction cx s t rule: http_spec.induct)
  case (1 cx s t)
  show ?case
  proof (cases "split_line s")
    case None
    with "1.prems" show ?thesis by (simp add: http_spec.simps [of cx s])
  next
    case (Some lr)
    then obtain line rest where sp: "split_line s = Some (line, rest)" by (cases lr) auto
    have st: "cx_state cx \<noteq> ExpectRequestLine" using "1.prems" by simp
    show ?thesis
      using "1.prems" sp "1.IH"(2) [OF sp refl st]
      by (auto simp: http_spec.simps [of cx s] gotAll_def split: if_splits)
  qed
qed

lemma http_spec_same:
  assumes "parsing cx" and "http_spec cx s t = Inr (True, cx', s')" and "cx_state cx' = ExpectRequestLine"
  shows "cx' = cx \<and> s' = s"
proof (cases "split_line s")
  case None
  with assms show ?thesis by (simp add: http_spec.simps [of cx s])
next
  case (Some lr)
  then obtain line rest where sp: "split_line s = Some (line, rest)" by (cases lr) auto
  have "cx_state cx \<noteq> ExpectHeaders"
    using assms(2,3) http_spec_headers_state [of cx s t] by (auto simp: gotAll_def)
  with assms(1) have "cx_state cx = ExpectRequestLine" by (simp add: parsing_def)
  with assms(2) sp obtain rq where
    "http_spec (cx\<lparr>cx_request := setReceiveTime rq t, cx_state := ExpectHeaders\<rparr>) rest t = Inr (True, cx', s')"
    by (auto simp: http_spec.simps [of cx s] rbind_eq_Inr_iff split: if_splits)
  from http_spec_headers_state [OF _ this] assms(3) show ?thesis by (auto simp: gotAll_def)
qed

lemma processRequestLine_False:
  assumes "processRequestLine rq line = Inr (False, rq')" and "rq_method rq = MInvalid"
    and "rq_method rq' \<noteq> MInvalid"
  shows "processRequestLine rq' line = Inl (AssertFail ''method_ == Method::Invalid'')"
proof -
  from assms have "std_find (CHR '' '') line \<noteq> length line"
    by (auto simp: processRequestLine_def Let_def split: if_splits)
  with assms(3) show ?thesis by (simp add: processRequestLine_def setMethod_def Let_def)
qed

lemma http_spec_False:
  assumes "http_spec cx s t = Inr (False, cx', s')" and "parsing cx"
  shows "\<exists>line rest. split_line s = Some (line, rest) \<and> s' = s \<and>
    cx_state cx = ExpectRequestLine \<and> cx_state cx' = ExpectRequestLine \<and>
    processRequestLine (cx_request cx) line = Inr (False, cx_request cx')"
proof -
  have st: "cx_state cx = ExpectRequestLine" 
    using assms(2) http_spec_headers_state [OF _ assms(1)] by (auto simp: parsing_def)
  with assms(1) show ?thesis
    by (auto simp: http_spec.simps [of cx s] rbind_eq_Inr_iff split: option.splits if_splits
        dest!: http_spec_headers_state [rotated])
qed

text \<open>More data does not change what the parser has decided, and it leaves no more than it was given.\<close>

lemma http_spec_decided:
  "parsing cx \<Longrightarrow> (case http_spec cx s t of Inl e \<Rightarrow> http_spec cx (s @ x) t = Inl e
   | Inr (okv, cx', s') \<Rightarrow> \<not> okv \<or> gotAll cx' \<longrightarrow> http_spec cx (s @ x) t = Inr (okv, cx', s' @ x))"
proof (induction cx s t rule: http_spec.induct)
  case (1 cx s t)
  show ?case
  proof (cases "split_line s")
    case None
    with "1.prems" show ?thesis by (auto simp: http_spec.simps [of cx s] parsing_def gotAll_def)
  next
    case (Some lr)
    then obtain line rest where sp: "split_line s = Some (line, rest)" by (cases lr) auto
    note spx = split_line_append [OF sp, of x]
    show ?thesis
    proof (cases "cx_state cx = ExpectRequestLine")
      case True
      show ?thesis
      proof (cases "processRequestLine (cx_request cx) line")
        case (Inr okrq)
        then obtain ok1 rq where rq: "processRequestLine (cx_request cx) line = Inr (ok1, rq)" by (cases okrq) auto
        show ?thesis
        proof (cases ok1)
          case ok1: True
          let ?cx = "cx\<lparr>cx_request := setReceiveTime rq t, cx_state := ExpectHeaders\<rparr>"
          have eqs: "http_spec cx s t = http_spec ?cx rest t" "http_spec cx (s @ x) t = http_spec ?cx (rest @ x) t"
            using sp spx True rq ok1 by (simp_all add: http_spec.simps [of cx s] http_spec.simps [of cx "s @ x"])
          show ?thesis unfolding eqs by (rule "1.IH"(1) [OF sp refl True ok1]) (simp_all add: parsing_def)
        qed (use sp spx True rq in \<open>simp add: http_spec.simps [of cx s] http_spec.simps [of cx "s @ x"]\<close>)
      qed (simp add: http_spec.simps [of cx s] http_spec.simps [of cx "s @ x"] sp spx True)
    next
      case False
      let ?i = "std_find (CHR '';'') line"
      let ?cx = "cx\<lparr>cx_request := addHeader (cx_request cx) line ?i\<rparr>"
      show ?thesis
      proof (cases "?i = length line")
        case colon: False
        have eqs: "http_spec cx s t = http_spec ?cx rest t" "http_spec cx (s @ x) t = http_spec ?cx (rest @ x) t"
          using sp spx False colon by (simp_all add: http_spec.simps [of cx s] http_spec.simps [of cx "s @ x"])
        show ?thesis unfolding eqs by (rule "1.IH"(2) [OF sp refl False colon]) (use "1.prems" in \<open>simp add: parsing_def\<close>)
      qed (use sp spx False in \<open>simp add: http_spec.simps [of cx s] http_spec.simps [of cx "s @ x"]\<close>)
    qed
  qed
qed

lemma http_spec_rest: "http_spec cx s t = Inr (okv, cx', s') \<Longrightarrow> length s' \<le> length s"
proof (induction cx s t rule: http_spec.induct)
  case (1 cx s t)
  show ?case
  proof (cases "split_line s")
    case None
    with "1.prems" show ?thesis by (simp add: http_spec.simps [of cx s])
  next
    case (Some lr)
    then obtain line rest where sp: "split_line s = Some (line, rest)" by (cases lr) auto
    with split_line_shorter [OF sp] "1.prems" "1.IH"(1) [OF sp refl] "1.IH"(2) [OF sp refl] show ?thesis
      by (fastforce simp: http_spec.simps [of cx s] rbind_eq_Inr_iff split: if_splits)
  qed
qed

text \<open>A part of what makes a request complete is taken in without an answer, and the rest completes the request.\<close>

lemma http_spec_part:
  assumes "parsing cx" and "http_spec cx (s @ x) t = Inr (True, cx', [])" and "x \<noteq> []"
  obtains cx1 s1 where "http_spec cx s t = Inr (True, cx1, s1)" "\<not> gotAll cx1" "parsing cx1"
    "http_spec cx1 (s1 @ x) t = Inr (True, cx', [])"
proof -
  from http_spec_decided [OF assms(1), where s = s and t = t and x = x] assms(2,3) obtain cx1 s1 where
    1: "http_spec cx s t = Inr (True, cx1, s1)" "\<not> gotAll cx1" by (auto split: sum.splits)
  with http_spec_append [OF assms(1) this, of x] assms(2) that show thesis by simp
qed

section \<open>Properties\<close>

text \<open>
  C16: while it expects a request line or headers, \<^verbatim>\<open>parseRequest\<close> returns on every buffer, and its
  verdict, the new context and the bytes it leaves are those of the line-by-line specification.
\<close>

theorem parseRequest_returns:
  assumes "buf_inv b" and "cx_state cx = ExpectRequestLine \<or> cx_state cx = ExpectHeaders"
  shows "\<exists>r. parseRequest cx b t = Some r \<and> refines_result (http_spec cx (content b) t) (Some r)"
proof -
  from assms(2) have "parsing cx" by (simp add: parsing_def)
  from parseRequest_refines [OF assms(1) this, of t] show ?thesis
    by (auto simp: refines_result_def split: sum.splits prod.splits)
qed

theorem parseRequest_returns_witness:
  "\<exists>r. parseRequest new_HttpContext new_Buffer 7 = Some r"
  using parseRequest_returns [OF new_Buffer_inv, of new_HttpContext 7] by (auto simp: new_HttpContext_def)

text \<open>
  C26: called in the state \<open>GotAll\<close> or \<open>ExpectBody\<close>, \<^verbatim>\<open>parseRequest\<close> never returns: no branch of its loop
  ends it.
\<close>

theorem parseRequest_diverges:
  assumes "cx_state cx = GotAll \<or> cx_state cx = ExpectBody"
  shows "parseRequest cx b t = None"
proof -
  have "parse_loop okv cx b t = Some r \<Longrightarrow> cx_state cx = ExpectRequestLine \<or> cx_state cx = ExpectHeaders"
    for okv r
    by (erule parse_loop.raw_induct [rotated, where
          P = "\<lambda>okv cx b t r. cx_state cx = ExpectRequestLine \<or> cx_state cx = ExpectHeaders"])
      (simp split: if_splits, blast)
  with assms show ?thesis by (cases "parseRequest cx b t") (auto simp: parseRequest_def)
qed

theorem parseRequest_diverges_witness:
  "parseRequest (new_HttpContext\<lparr>cx_state := GotAll\<rparr>) new_Buffer 0 = None"
  by (rule parseRequest_diverges) simp

text \<open>The request the parser makes of a printed one, in a context left by an earlier request.\<close>

definition printed_request ::
  "http_method \<Rightarrow> string \<Rightarrow> string \<Rightarrow> http_version \<Rightarrow> (string \<times> string) list \<Rightarrow> time_point \<Rightarrow> http_request \<Rightarrow> http_request" where
  "printed_request m path query v hs t rq = rq\<lparr>rq_method := m, rq_path := path,
    rq_query := (if query = [] then rq_query rq else query), rq_version := v,
    rq_receiveTime := t, rq_headers := rq_headers rq ++ map_of (rev hs)\<rparr>"

lemma http_spec_printed:
  assumes fresh: "cx_state cx = ExpectRequestLine" "rq_method (cx_request cx) = MInvalid"
    and line: "line_ok m path query v" and hs: "\<forall>h \<in> set hs. header_ok h"
  shows "http_spec cx (request_line m path query v @ kCRLF @ print_headers hs @ kCRLF @ rest) t =
    Inr (True, cx\<lparr>cx_request := printed_request m path query v hs t (cx_request cx), cx_state := GotAll\<rparr>, rest)"
  using http_spec_end [where line = "[]"]
  by (simp add: http_spec_request_line [OF fresh(1) line fresh(2)] http_spec_headers [OF _ hs] printed_request_def)

text \<open>
  C17: the request line and the header lines of a message, printed with the separators the parser
  looks for, are recovered field by field, and the parser stops right behind the empty line. A query
  left in the context by an earlier request survives when the new request has none.
\<close>

theorem parse_printed_request:
  assumes inv: "buf_inv b" and fresh: "cx_state cx = ExpectRequestLine" "rq_method (cx_request cx) = MInvalid"
    and line: "line_ok m path query v" and hs: "\<forall>h \<in> set hs. header_ok h"
    and body: "content b = request_line m path query v @ kCRLF @ print_headers hs @ kCRLF @ rest"
  shows "\<exists>b' cx'. parseRequest cx b t = Some (Inr (True, cx', b')) \<and> buf_inv b' \<and> content b' = rest \<and>
    gotAll cx' \<and> rq_method (cx_request cx') = m \<and> rq_path (cx_request cx') = path \<and>
    rq_query (cx_request cx') = (if query = [] then rq_query (cx_request cx) else query) \<and>
    rq_version (cx_request cx') = v \<and> rq_receiveTime (cx_request cx') = t \<and>
    rq_headers (cx_request cx') = rq_headers (cx_request cx) ++ map_of (rev hs)"
proof -
  have "http_spec cx (content b) t =
      Inr (True, cx\<lparr>cx_request := printed_request m path query v hs t (cx_request cx), cx_state := GotAll\<rparr>, rest)"
    unfolding body by (rule http_spec_printed [OF fresh line hs])
  with parseRequest_refines [OF inv, of cx t] fresh(1) show ?thesis
    by (auto simp: refines_result_def parsing_def gotAll_def printed_request_def)
qed

theorem parse_printed_request_witness:
  "\<exists>b b' cx'. buffer_append new_Buffer
      (request_line MGet ''/index'' ''?a=1'' Http11 @ kCRLF @ print_headers [(''Host'', ''x'')] @ kCRLF) = Inr b \<and>
    parseRequest new_HttpContext b 5 = Some (Inr (True, cx', b')) \<and> rq_path (cx_request cx') = ''/index'' \<and>
    rq_query (cx_request cx') = ''?a=1'' \<and> rq_headers (cx_request cx') ''Host'' = Some ''x''"
proof -
  let ?s = "request_line MGet ''/index'' ''?a=1'' Http11 @ kCRLF @ print_headers [(''Host'', ''x'')] @ kCRLF @ []"
  have len: "2 * length ?s \<le> buf_limit"
    by (simp add: request_line_def kCRLF_def print_headers_def header_line_def)
  obtain b where b: "buffer_append new_Buffer ?s = Inr b" "buf_inv b" "content b = ?s"
    using buffer_append_ok [OF new_Buffer_inv, of ?s] len by auto
  have "header_ok (''Host'', ''x'')" by (simp add: header_ok_def isspace_def)
  with parse_printed_request [OF b(2) _ _ _ _ b(3), of new_HttpContext 5] b(1) show ?thesis
    by (auto simp: new_HttpContext_def new_HttpRequest_def line_ok_def)
qed

text \<open>Header lines in HTTP's own form: a colon ends the field name, and there is no semicolon.\<close>

definition colon_header :: "string \<Rightarrow> bool" where
  "colon_header l \<longleftrightarrow> {CHR '';'', CHR 0x0D} \<inter> set l = {} \<and> CHR '':'' \<in> set (takeWhile (\<lambda>c. c \<noteq> CHR '' '') l)"

definition print_lines :: "string list \<Rightarrow> string" where
  "print_lines ls = concat (map (\<lambda>l. l @ kCRLF) ls)"

lemma method_of_string_known: "method_of_string m \<noteq> MInvalid \<Longrightarrow> methodString (method_of_string m) = m"
  by (simp add: method_of_string_def split: if_splits)

lemma methodString_colon: "CHR '':'' \<notin> set (methodString m)"
  by (cases m) simp_all

lemma method_of_string_colon: "CHR '':'' \<in> set m \<Longrightarrow> method_of_string m = MInvalid"
  using method_of_string_known methodString_colon by metis

lemma processRequestLine_colon:
  assumes "rq_method rq = MInvalid" and "l = [] \<or> colon_header l"
  shows "processRequestLine rq l = Inr (False, rq)"
proof (cases "l = []")
  case False
  with assms(2) have "method_of_string (take (std_find (CHR '' '') l) l) = MInvalid"
    by (intro method_of_string_colon) (simp add: colon_header_def take_std_find)
  moreover have "rq\<lparr>rq_method := MInvalid\<rparr> = rq" using assms(1) by (cases rq) simp
  ultimately show ?thesis using assms(1) by (simp add: processRequestLine_def setMethod_def Let_def)
qed (simp add: processRequestLine_def)

lemma http_spec_refused_line:
  assumes "cx_state cx = ExpectRequestLine" "rq_method (cx_request cx) = MInvalid" and "l = [] \<or> colon_header l"
  shows "http_spec cx (l @ kCRLF @ s) t = Inr (False, cx, l @ kCRLF @ s)"
proof -
  have "split_line (l @ kCRLF @ s) = Some (l, s)" using assms(3) by (intro split_line_no_cr) (auto simp: colon_header_def)
  then show ?thesis
    using assms(1) processRequestLine_colon [OF assms(2,3)] by (simp add: http_spec.simps [of cx "l @ kCRLF @ s"])
qed

lemma http_spec_refused_lines:
  assumes "cx_state cx = ExpectRequestLine" "rq_method (cx_request cx) = MInvalid" and "list_all colon_header ls"
  shows "http_spec cx (print_lines ls @ kCRLF @ s) t = Inr (False, cx, print_lines ls @ kCRLF @ s)"
proof (cases ls)
  case Nil
  with http_spec_refused_line [OF assms(1,2), of "[]" s t] show ?thesis by (simp add: print_lines_def)
next
  case (Cons l ls')
  with assms http_spec_refused_line [OF assms(1,2), of l "print_lines ls' @ kCRLF @ s" t] show ?thesis
    by (simp add: print_lines_def)
qed

text \<open>
  C24: A request with headers in HTTP's own form is cut short and spoils the connection. For any request line and any
  nonempty list of header lines with a colon and no semicolon, the first header line ends the request: the parser
  reports a complete request with none of these headers and leaves the other header lines, the empty line and what follows
  in the buffer. When the context is then reset for the next request, the parser refuses what is in the buffer,
  whatever arrives behind it.
\<close>

theorem colon_header_ends_request:
  assumes inv: "buf_inv b" and fresh: "cx_state cx = ExpectRequestLine" "rq_method (cx_request cx) = MInvalid"
    and line: "line_ok m path query v" and hdrs: "hdrs \<noteq> []" "list_all colon_header hdrs"
    and body: "content b = request_line m path query v @ kCRLF @ print_lines hdrs @ kCRLF @ rest"
  shows "\<exists>b1 cx1. parseRequest cx b t = Some (Inr (True, cx1, b1)) \<and> gotAll cx1 \<and>
    rq_headers (cx_request cx1) = rq_headers (cx_request cx) \<and>
    buf_inv b1 \<and> content b1 = print_lines (tl hdrs) @ kCRLF @ rest \<and>
    (\<forall>b2 more. buf_inv b2 \<and> content b2 = content b1 @ more \<longrightarrow>
      (\<exists>cx2 b3. parseRequest (reset_context cx1) b2 t' = Some (Inr (False, cx2, b3))))"
proof -
  let ?cx = "cx\<lparr>cx_request := (cx_request cx)\<lparr>rq_method := m, rq_path := path,
    rq_query := (if query = [] then rq_query (cx_request cx) else query), rq_version := v,
    rq_receiveTime := t\<rparr>, cx_state := GotAll\<rparr>"
  obtain h hs where h: "hdrs = h # hs" "colon_header h" "list_all colon_header hs" using hdrs by (cases hdrs) auto
  have cr: "CHR 0x0D \<notin> set h" "CHR '';'' \<notin> set h" using h(2) by (auto simp: colon_header_def)
  have "http_spec cx (content b) t = Inr (True, ?cx, print_lines hs @ kCRLF @ rest)"
    by (simp add: body h(1) print_lines_def http_spec_request_line [OF fresh(1) line fresh(2)] http_spec_end [OF _ cr])
  with parseRequest_refines [OF inv, of cx t] fresh(1) obtain b1 where
    b1: "parseRequest cx b t = Some (Inr (True, ?cx, b1))" "buf_inv b1" "content b1 = print_lines hs @ kCRLF @ rest"
    by (auto simp: refines_result_def parsing_def)
  have ready: "cx_state (reset_context ?cx) = ExpectRequestLine" "rq_method (cx_request (reset_context ?cx)) = MInvalid"
    by (simp_all add: reset_context_def swap_request_def new_HttpRequest_def)
  have "\<exists>cx2 b3. parseRequest (reset_context ?cx) b2 t' = Some (Inr (False, cx2, b3))"
    if b2: "buf_inv b2" "content b2 = content b1 @ more" for b2 more
    using parseRequest_refines [OF b2(1), of "reset_context ?cx" t'] http_spec_refused_lines [OF ready h(3), of "rest @ more" t'] ready(1)
    by (auto simp: refines_result_def parsing_def b2(2) b1(3))
  with b1 h(1) show ?thesis by (auto simp: gotAll_def)
qed

theorem colon_header_ends_request_witness:
  "\<exists>b b1 cx1. buffer_append new_Buffer
      (request_line MGet ''/'' [] Http11 @ kCRLF @ print_lines [''Host: a'', ''Accept: b''] @ kCRLF) = Inr b \<and>
    parseRequest new_HttpContext b 0 = Some (Inr (True, cx1, b1)) \<and> rq_headers (cx_request cx1) ''Host'' = None \<and>
    content b1 = print_lines [''Accept: b''] @ kCRLF \<and>
    (\<exists>cx2 b3. parseRequest (reset_context cx1) b1 0 = Some (Inr (False, cx2, b3)))"
proof -
  let ?s = "request_line MGet ''/'' [] Http11 @ kCRLF @ print_lines [''Host: a'', ''Accept: b''] @ kCRLF @ []"
  have len: "2 * length ?s \<le> buf_limit"
    by (simp add: request_line_def kCRLF_def print_lines_def)
  obtain b where b: "buffer_append new_Buffer ?s = Inr b" "buf_inv b" "content b = ?s"
    using buffer_append_ok [OF new_Buffer_inv, of ?s] len by auto
  have "line_ok MGet ''/'' [] Http11" "list_all colon_header [''Host: a'', ''Accept: b'']"
    by (simp_all add: line_ok_def colon_header_def)
  with colon_header_ends_request [OF b(2) _ _ _ _ _ b(3), of new_HttpContext 0 0] obtain b1 cx1 where
    "parseRequest new_HttpContext b 0 = Some (Inr (True, cx1, b1))" "rq_headers (cx_request cx1) = Map.empty" "buf_inv b1"
    "content b1 = print_lines [''Accept: b''] @ kCRLF"
    "\<And>b2 more. buf_inv b2 \<Longrightarrow> content b2 = content b1 @ more \<Longrightarrow> \<exists>cx2 b3. parseRequest (reset_context cx1) b2 0 = Some (Inr (False, cx2, b3))"
    by (auto simp: new_HttpContext_def new_HttpRequest_def)
  with b(1) this(5) [of b1 "[]"] show ?thesis by auto
qed

text \<open>
  C15: how the bytes of a message are split over socket reads does not matter: parsing what has
  arrived, then the rest together with what was left over, gives the result of parsing it all at
  once (with the receive time of the read that completed the request line).
\<close>

theorem parse_in_pieces:
  assumes inv: "buf_inv b" and cx: "cx_state cx = ExpectRequestLine \<or> cx_state cx = ExpectHeaders"
    and first: "parseRequest cx b t1 = Some (Inr (True, cx1, b1))" "\<not> gotAll cx1"
    and rest: "buf_inv b2" "content b2 = content b1 @ x"
    and whole: "buf_inv bw" "content bw = content b @ x"
  shows "\<exists>t \<in> {t1, t2}. \<exists>spec. refines_result spec (parseRequest cx1 b2 t2) \<and>
    refines_result spec (parseRequest cx bw t)"
proof -
  have p: "parsing cx" using cx by (simp add: parsing_def)
  from parseRequest_refines [OF inv p, of t1] first(1) have
    spec: "http_spec cx (content b) t1 = Inr (True, cx1, content b1)"
    by (auto simp: refines_result_def split: sum.splits)
  note app = http_spec_append [OF p spec first(2)]
  have r2: "refines_result (http_spec cx1 (content b1 @ x) t2) (parseRequest cx1 b2 t2)"
    using parseRequest_refines [OF rest(1)] app rest(2) by simp
  have rw: "refines_result (http_spec cx (content b @ x) t) (parseRequest cx bw t)" for t
    using parseRequest_refines [OF whole(1) p] whole(2) by simp
  show ?thesis
  proof (cases "cx_state cx1 = ExpectRequestLine")
    case True
    from http_spec_same [OF p spec True] have "cx1 = cx \<and> content b1 = content b" .
    with r2 rw [of t2] show ?thesis by auto
  next
    case False
    with app have "http_spec cx1 (content b1 @ x) t2 = http_spec cx (content b @ x) t1"
      using http_spec_time [of cx1 "content b1 @ x" t2 t1] by (simp add: parsing_def)
    with r2 rw [of t1] show ?thesis by auto
  qed
qed

theorem parse_in_pieces_witness:
  "\<exists>b1 cx1 b2. parseRequest new_HttpContext b1 1 = Some (Inr (True, cx1, b2)) \<and>
    (\<exists>t \<in> {1, 2}. \<exists>spec. refines_result spec (parseRequest cx1 b2 2) \<and>
      refines_result spec (parseRequest new_HttpContext b1 t))"
proof -
  have st: "cx_state new_HttpContext = ExpectRequestLine" by (simp add: new_HttpContext_def)
  have "split_line [] = None" by (simp add: split_line_def)
  then have "http_spec new_HttpContext [] 1 = Inr (True, new_HttpContext, [])"
    by (simp add: http_spec.simps [of new_HttpContext "[]"])
  with parseRequest_refines [OF new_Buffer_inv, of new_HttpContext 1] st obtain b where
    b: "parseRequest new_HttpContext new_Buffer 1 = Some (Inr (True, new_HttpContext, b))"
      "buf_inv b" "content b = []"
    by (auto simp: refines_result_def parsing_def)
  have "\<exists>t \<in> {1, 2}. \<exists>spec. refines_result spec (parseRequest new_HttpContext b 2) \<and>
      refines_result spec (parseRequest new_HttpContext new_Buffer t)"
    by (rule parse_in_pieces [OF new_Buffer_inv _ b(1) _ b(2), where x = "[]"])
      (simp_all add: st b gotAll_def)
  with b(1) show ?thesis by blast
qed

text \<open>
  The parser fails only on a context that a refused request has left behind: one that expects a request line with a
  method already stored in it.
\<close>

definition cx_clean :: "http_context \<Rightarrow> bool" where
  "cx_clean cx \<longleftrightarrow> (cx_state cx = ExpectRequestLine \<longrightarrow> rq_method (cx_request cx) = MInvalid)"

lemma http_spec_headers_ok: "cx_state cx = ExpectHeaders \<Longrightarrow> \<exists>r. http_spec cx s t = Inr r"
proof (induction cx s t rule: http_spec.induct)
  case (1 cx s t)
  show ?case
  proof (cases "split_line s")
    case (Some lr)
    then obtain line rest where sp: "split_line s = Some (line, rest)" by (cases lr) auto
    have st: "cx_state cx \<noteq> ExpectRequestLine" using "1.prems" by simp
    show ?thesis using "1.prems" "1.IH"(2) [OF sp refl st] sp by (simp add: http_spec.simps [of cx s]) blast
  qed (auto simp: http_spec.simps [of cx s])
qed

lemma processRequestLine_ok: "rq_method rq = MInvalid \<Longrightarrow> \<exists>r. processRequestLine rq l = Inr r"
  by (auto simp: processRequestLine_def setMethod_def Let_def simp del: nth_drop drop_drop)

lemma http_spec_clean:
  assumes "parsing cx" and "cx_clean cx"
  shows "\<exists>okv cx' s'. http_spec cx s t = Inr (okv, cx', s')"
proof (cases "cx_state cx = ExpectHeaders")
  case True
  with http_spec_headers_ok [of cx s t] show ?thesis by auto
next
  case False
  with assms have st: "cx_state cx = ExpectRequestLine" "rq_method (cx_request cx) = MInvalid"
    by (simp_all add: parsing_def cx_clean_def)
  show ?thesis
  proof (cases "split_line s")
    case (Some lr)
    then obtain line rest where sp: "split_line s = Some (line, rest)" by (cases lr) auto
    from processRequestLine_ok [OF st(2), of line] obtain okv rq where "processRequestLine (cx_request cx) line = Inr (okv, rq)" by auto
    with st(1) sp http_spec_headers_ok [of "cx\<lparr>cx_request := setReceiveTime rq t, cx_state := ExpectHeaders\<rparr>" rest t] show ?thesis
      by (cases okv) (auto simp: http_spec.simps [of cx s])
  qed (auto simp: http_spec.simps [of cx s])
qed

text \<open>
  A request line whose method is known but which is refused afterwards, because what follows the target is not one of the
  two versions: it stays in the buffer with its method stored in the context; the next bytes on the
  connection make the parser read it again, and the assertion of \<^verbatim>\<open>setMethod\<close> aborts the process.
\<close>

definition version_refused :: "string \<Rightarrow> bool" where
  "version_refused s \<longleftrightarrow> CHR 0x0D \<notin> set s \<and> dropWhile (\<lambda>c. c \<noteq> CHR '' '') s \<noteq> '' HTTP/1.0'' \<and>
     dropWhile (\<lambda>c. c \<noteq> CHR '' '') s \<noteq> '' HTTP/1.1''"

lemma eight_chars: "length v = 8 \<Longrightarrow> v = take 7 v @ [v ! 7]"
  using take_Suc_conv_app_nth [of 7 v] by simp

lemma processRequestLine_version:
  assumes "rq_method rq = MInvalid" "m \<noteq> MInvalid" and bad: "version_refused s"
  obtains rq' where "processRequestLine rq (methodString m @ '' '' @ s) = Inr (False, rq')" "rq_method rq' = m"
proof -
  have sp: "CHR '' '' \<notin> set (methodString m)" using methodString_chars [of m] by auto
  let ?k = "std_find (CHR '' '') s"
  have find: "std_find (CHR '' '') (methodString m @ '' '' @ s) = length (methodString m)"
    using std_find_append_notin [OF sp, of s] by simp
  have m: "setMethod rq (methodString m) = Inr (True, rq\<lparr>rq_method := m\<rparr>)"
    using assms(1,2) by (simp add: setMethod_def method_of_methodString)
  have ver: "drop (Suc ?k) s \<noteq> ''HTTP/1.0''" "drop (Suc ?k) s \<noteq> ''HTTP/1.1''" if "?k \<noteq> length s"
    using bad that by (auto simp: version_refused_def dropWhile_std_find Cons_nth_drop_Suc [symmetric] nth_std_find le_neq_implies_less)
  define v where "v = drop (Suc ?k) s"
  have bad: "\<not> (length v = 8 \<and> take 7 v = ''HTTP/1.'' \<and> (v ! 7 = CHR ''1'' \<or> v ! 7 = CHR ''0''))" if "?k \<noteq> length s"
    using ver [OF that] eight_chars [of v] unfolding v_def [symmetric] by auto
  have parts: "take (length (methodString m)) (methodString m @ '' '' @ s) = methodString m"
    "drop (Suc (length (methodString m))) (methodString m @ '' '' @ s) = s"
    "length (methodString m) \<noteq> length (methodString m @ '' '' @ s)" by simp_all
  have "\<exists>rq'. processRequestLine rq (methodString m @ '' '' @ s) = Inr (False, rq') \<and> rq_method rq' = m"
    unfolding processRequestLine_def Let_def find parts(1,2) m v_def [symmetric]
    using bad parts(3) by (auto simp: setQuery_def setPath_def)
  with that show thesis by blast
qed

lemma http_spec_version_refused:
  assumes "cx_state cx = ExpectRequestLine" "rq_method (cx_request cx) = MInvalid" and "m \<noteq> MInvalid" "version_refused s"
  obtains cx' where "http_spec cx (methodString m @ '' '' @ s @ kCRLF @ rest) t = Inr (False, cx', methodString m @ '' '' @ s @ kCRLF @ rest)"
    "cx_state cx' = ExpectRequestLine" "rq_method (cx_request cx') = m"
proof -
  obtain rq' where rq': "processRequestLine (cx_request cx) (methodString m @ '' '' @ s) = Inr (False, rq')" "rq_method rq' = m"
    by (rule processRequestLine_version [OF assms(2-4)])
  have "split_line ((methodString m @ '' '' @ s) @ kCRLF @ rest) = Some (methodString m @ '' '' @ s, rest)"
    by (rule split_line_no_cr) (use methodString_chars [of m] assms(4) in \<open>auto simp: version_refused_def\<close>)
  then have sp: "split_line (methodString m @ '' '' @ s @ kCRLF @ rest) = Some (methodString m @ '' '' @ s, rest)" by simp
  have "http_spec cx (methodString m @ '' '' @ s @ kCRLF @ rest) t = Inr (False, cx\<lparr>cx_request := rq'\<rparr>, methodString m @ '' '' @ s @ kCRLF @ rest)"
    using assms(1) rq'(1) unfolding http_spec.simps [of cx "methodString m @ '' '' @ s @ kCRLF @ rest"] sp by simp
  with assms(1) rq'(2) that show thesis by simp
qed

lemma refused_request_aborts_on_more_data:
  assumes p: "parsing cx" "rq_method (cx_request cx) = MInvalid"
    and first: "http_spec cx s t = Inr (False, cx1, s)" "rq_method (cx_request cx1) \<noteq> MInvalid"
    and more: "buf_inv b" "content b = s @ x"
  shows "parseRequest cx1 b t' = Some (Inl (AssertFail ''method_ == Method::Invalid''))"
proof -
  from http_spec_False [OF first(1) p(1)] obtain line rest where
    sp: "split_line s = Some (line, rest)" and st: "cx_state cx1 = ExpectRequestLine"
    and "processRequestLine (cx_request cx) line = Inr (False, cx_request cx1)" by auto
  then have "processRequestLine (cx_request cx1) line = Inl (AssertFail ''method_ == Method::Invalid'')"
    using processRequestLine_False p(2) first(2) by blast
  with split_line_append [OF sp, of x] st have
    "http_spec cx1 (content b) t' = Inl (AssertFail ''method_ == Method::Invalid'')"
    by (simp add: http_spec.simps [of cx1 "s @ x"] more(2))
  with parseRequest_refines [OF more(1), of cx1 t'] st show ?thesis
    by (simp add: refines_result_def parsing_def)
qed

text \<open>
  C25: \<^verbatim>\<open>reset\<close> between two requests clears method, version, path and headers, but not the query: a
  request without a query is delivered with the query of the request before it.
\<close>

theorem reset_leaks_query:
  assumes inv: "buf_inv b" and line: "line_ok m path [] v"
    and body: "content b = request_line m path [] v @ kCRLF @ kCRLF @ rest"
  shows "\<exists>b1 cx1. parseRequest (reset_context cx) b t = Some (Inr (True, cx1, b1)) \<and> gotAll cx1 \<and>
    rq_path (cx_request cx1) = path \<and> rq_headers (cx_request cx1) = Map.empty \<and>
    rq_query (cx_request cx1) = rq_query (cx_request cx)"
proof -
  let ?cx = "reset_context cx"
  have st: "cx_state ?cx = ExpectRequestLine" "rq_method (cx_request ?cx) = MInvalid"
    and q: "rq_query (cx_request ?cx) = rq_query (cx_request cx)"
    and h: "rq_headers (cx_request ?cx) = Map.empty"
    by (simp_all add: reset_context_def swap_request_def new_HttpRequest_def)
  have "http_spec ?cx (content b) t = Inr (True, ?cx\<lparr>cx_request := (cx_request ?cx)\<lparr>rq_method := m,
      rq_path := path, rq_version := v, rq_receiveTime := t\<rparr>, cx_state := GotAll\<rparr>, rest)"
    using http_spec_end [where line = "[]"]
    by (simp add: body http_spec_request_line [OF st(1) line st(2)])
  with parseRequest_refines [OF inv, of ?cx t] st(1) q h show ?thesis
    by (auto simp: refines_result_def parsing_def gotAll_def)
qed

theorem reset_leaks_query_witness:
  "\<exists>b b1 cx1. buffer_append new_Buffer (request_line MGet ''/b'' [] Http11 @ kCRLF @ kCRLF) = Inr b \<and>
    parseRequest (reset_context (new_HttpContext\<lparr>cx_state := GotAll,
      cx_request := new_HttpRequest\<lparr>rq_method := MGet, rq_query := ''?secret''\<rparr>\<rparr>)) b 0 =
      Some (Inr (True, cx1, b1)) \<and> rq_query (cx_request cx1) = ''?secret''"
proof -
  let ?s = "request_line MGet ''/b'' [] Http11 @ kCRLF @ kCRLF @ []"
  obtain b where b: "buffer_append new_Buffer ?s = Inr b" "buf_inv b" "content b = ?s"
    using buffer_append_ok [OF new_Buffer_inv, of ?s] by (auto simp: kCRLF_def request_line_def)
  have "line_ok MGet ''/b'' [] Http11" by (simp add: line_ok_def)
  from reset_leaks_query [OF b(2) this b(3), of "new_HttpContext\<lparr>cx_state := GotAll,
      cx_request := new_HttpRequest\<lparr>rq_method := MGet, rq_query := ''?secret''\<rparr>\<rparr>" 0] b(1)
  show ?thesis by fastforce
qed

end
