(* ===== verification/HttpResponse.thy ===== *)
theory HttpResponse
  imports Buffer StdContainers
begin

text \<open>
  The class \<open>HttpResponse\<close> (\<^verbatim>\<open>src/src/http/HttpResponse.hpp\<close>, \<^verbatim>\<open>HttpResponse.cpp\<close>): the setters, and
  \<^verbatim>\<open>appendToBuffer\<close> as the sequence of appends it makes. The lemmas give the exact bytes it produces.
\<close>

section \<open>Model\<close>

datatype http_status = StatusUnknown | Status200Ok | Status301MovedPermanently
  | Status400BadRequest | Status404NotFound

fun status_value :: "http_status \<Rightarrow> int" where
  "status_value StatusUnknown = 0"
| "status_value Status200Ok = 200"
| "status_value Status301MovedPermanently = 301"
| "status_value Status400BadRequest = 400"
| "status_value Status404NotFound = 404"

record http_response =
  rs_headers :: "(string \<times> string) list"
  rs_statusCode :: http_status
  rs_statusMessage :: string
  rs_closeConnection :: bool
  rs_body :: string

definition new_HttpResponse :: "bool \<Rightarrow> http_response" where
  "new_HttpResponse close = \<lparr>rs_headers = [], rs_statusCode = StatusUnknown, rs_statusMessage = [],
     rs_closeConnection = close, rs_body = []\<rparr>"

definition setStatusCode :: "http_response \<Rightarrow> http_status \<Rightarrow> http_response" where
  "setStatusCode r code = r\<lparr>rs_statusCode := code\<rparr>"

definition setStatusMessage :: "http_response \<Rightarrow> string \<Rightarrow> http_response" where
  "setStatusMessage r msg = r\<lparr>rs_statusMessage := msg\<rparr>"

definition setCloseConnection :: "http_response \<Rightarrow> bool \<Rightarrow> http_response" where
  "setCloseConnection r on = r\<lparr>rs_closeConnection := on\<rparr>"

definition response_addHeader :: "http_response \<Rightarrow> string \<Rightarrow> string \<Rightarrow> http_response" where
  "response_addHeader r key val = r\<lparr>rs_headers := map_put key val (rs_headers r)\<rparr>"

definition setBody :: "http_response \<Rightarrow> string \<Rightarrow> http_response" where
  "setBody r body = r\<lparr>rs_body := body\<rparr>"

fun append_headers :: "(string \<times> string) list \<Rightarrow> buffer \<Rightarrow> buffer res" where
  "append_headers [] out = Inr out"
| "append_headers ((k, v) # hs) out =
    rbind (buffer_append out k) (\<lambda>out.
    rbind (buffer_append out '': '') (\<lambda>out.
    rbind (buffer_append out v) (\<lambda>out.
    rbind (buffer_append out kCRLF) (\<lambda>out.
    append_headers hs out))))"

definition appendToBuffer :: "http_response \<Rightarrow> buffer \<Rightarrow> buffer res" where
  "appendToBuffer r out =
    rbind (buffer_append out (snprintf_out 32 (''HTTP/1.1 '' @ show_int (status_value (rs_statusCode r))))) (\<lambda>out.
    rbind (buffer_append out (rs_statusMessage r)) (\<lambda>out.
    rbind (buffer_append out kCRLF) (\<lambda>out.
    rbind (if rs_closeConnection r then buffer_append out (''Connection: close'' @ kCRLF)
           else rbind (buffer_append out
                  (snprintf_out 32 (''Content-Length: '' @ show_nat (length (rs_body r)) @ kCRLF))) (\<lambda>out.
                buffer_append out (''Connection: Keep-Alive'' @ kCRLF))) (\<lambda>out.
    rbind (append_headers (rs_headers r) out) (\<lambda>out.
    rbind (buffer_append out kCRLF) (\<lambda>out.
    buffer_append out (rs_body r)))))))"

section \<open>The text of a response\<close>

definition header_text :: "string \<times> string \<Rightarrow> string" where
  "header_text h = fst h @ '': '' @ snd h @ kCRLF"

definition response_text :: "http_response \<Rightarrow> string" where
  "response_text r =
    ''HTTP/1.1 '' @ show_int (status_value (rs_statusCode r)) @ rs_statusMessage r @ kCRLF @
    (if rs_closeConnection r then ''Connection: close'' @ kCRLF
     else ''Content-Length: '' @ show_nat (length (rs_body r)) @ kCRLF @ ''Connection: Keep-Alive'' @ kCRLF) @
    concat (map header_text (rs_headers r)) @ kCRLF @ rs_body r"

definition response_pieces :: "http_response \<Rightarrow> string list" where
  "response_pieces r =
    [''HTTP/1.1 '' @ show_int (status_value (rs_statusCode r)), rs_statusMessage r, kCRLF] @
    (if rs_closeConnection r then [''Connection: close'' @ kCRLF]
     else [''Content-Length: '' @ show_nat (length (rs_body r)) @ kCRLF, ''Connection: Keep-Alive'' @ kCRLF]) @
    concat (map (\<lambda>(k, v). [k, '': '', v, kCRLF]) (rs_headers r)) @ [kCRLF, rs_body r]"

lemma concat_response_pieces: "concat (response_pieces r) = response_text r"
proof -
  have "concat (concat (map (\<lambda>(k, v). [k, '': '', v, kCRLF]) hs)) = concat (map header_text hs)" for hs
    by (induction hs) (auto simp: header_text_def)
  then show ?thesis by (simp add: response_pieces_def response_text_def)
qed

lemma append_headers_pieces:
  "append_headers hs = (\<lambda>out. bq.app_all out (concat (map (\<lambda>(k, v). [k, '': '', v, kCRLF]) hs)))"
proof (induction hs)
  case (Cons h hs)
  show ?case by (cases h) (rule ext, simp add: Cons)
qed (rule ext, simp)

lemma app_all_append:
  "bq.app_all b (xs @ ys) = rbind (bq.app_all b xs) (\<lambda>b'. bq.app_all b' ys)"
proof (induction xs arbitrary: b)
  case (Cons x xs)
  then show ?case by (cases "buffer_append b x") simp_all
qed simp

lemma snprintf_status: "snprintf_out 32 (''HTTP/1.1 '' @ show_int (status_value c)) =
    ''HTTP/1.1 '' @ show_int (status_value c)"
proof (rule snprintf_out_fits)
  have "length (show_int (status_value c)) \<le> 3"
    by (cases c) (simp_all add: show_int_def)
  then show "length (''HTTP/1.1 '' @ show_int (status_value c)) < 32" by simp
qed

lemma snprintf_length:
  assumes "n < 10000000000000"
  shows "snprintf_out 32 (''Content-Length: '' @ show_nat n @ kCRLF) = ''Content-Length: '' @ show_nat n @ kCRLF"
proof (rule snprintf_out_fits)
  have "length (show_nat n) \<le> Suc 12" by (rule length_show_nat_le) (use assms in simp)
  then show "length (''Content-Length: '' @ show_nat n @ kCRLF) < 32" by (simp add: kCRLF_def)
qed

lemma appendToBuffer_pieces:
  assumes "length (rs_body r) < 10000000000000"
  shows "appendToBuffer r out = bq.app_all out (response_pieces r)"
  unfolding appendToBuffer_def snprintf_status snprintf_length [OF assms] append_headers_pieces
    response_pieces_def app_all_append
  by (cases "rs_closeConnection r") (simp_all add: rbind_assoc)

section \<open>Properties\<close>

text \<open>
  C23: \<^verbatim>\<open>appendToBuffer\<close> never fails on a response that fits a buffer, and appends exactly the text of
  the response: status line, connection headers, the headers in key order, an empty line, the body.
  The status line has no space between the code and the message.
\<close>

theorem appendToBuffer_text:
  assumes "buf_inv out" and "length (rs_body r) < 10000000000000"
    and "length (content out) + 2 * length (response_text r) \<le> buf_limit"
  shows "\<exists>out'. appendToBuffer r out = Inr out' \<and> buf_inv out' \<and> content out' = content out @ response_text r"
  using bq.app_all_concat [OF assms(1), of "response_pieces r"] assms
  by (simp add: appendToBuffer_pieces concat_response_pieces)

theorem appendToBuffer_text_witness:
  "\<exists>out'. appendToBuffer (setCloseConnection (setStatusMessage (setStatusCode (new_HttpResponse False)
        Status404NotFound) ''Not Found'') True) new_Buffer = Inr out' \<and>
     content out' = ''HTTP/1.1 404Not Found'' @ kCRLF @ ''Connection: close'' @ kCRLF @ kCRLF"
proof -
  let ?r = "setCloseConnection (setStatusMessage (setStatusCode (new_HttpResponse False)
        Status404NotFound) ''Not Found'') True"
  have t: "response_text ?r = ''HTTP/1.1 404Not Found'' @ kCRLF @ ''Connection: close'' @ kCRLF @ kCRLF"
    by (simp add: response_text_def setCloseConnection_def setStatusMessage_def setStatusCode_def
        new_HttpResponse_def show_int_def)
  have "rs_body ?r = []"
    by (simp add: setCloseConnection_def setStatusMessage_def setStatusCode_def new_HttpResponse_def)
  then have "\<exists>out'. appendToBuffer ?r new_Buffer = Inr out' \<and> buf_inv out' \<and>
      content out' = content new_Buffer @ response_text ?r"
    by (intro appendToBuffer_text) (simp_all add: t, simp add: kCRLF_def)
  then show ?thesis unfolding t by auto
qed

text \<open>
  the headers of a response print the same whatever order they were added in, and a key added
  twice keeps its last value.
\<close>

theorem response_headers_order_irrelevant:
  assumes "keys_ordered (rs_headers r)"
  shows "(k \<noteq> k' \<longrightarrow> response_text (response_addHeader (response_addHeader r k v) k' v') =
      response_text (response_addHeader (response_addHeader r k' v') k v)) \<and>
    response_addHeader (response_addHeader r k v) k w = response_addHeader r k w \<and>
    keys_ordered (rs_headers (response_addHeader r k v)) \<and>
    map_of (rs_headers (response_addHeader r k v)) k = Some v"
proof -
  have 1: "map_put k' v' (map_put k v (rs_headers r)) = map_put k v (map_put k' v' (rs_headers r))"
    if "k \<noteq> k'"
    by (rule keys_ordered_extensional)
      (use assms that in \<open>simp_all add: keys_ordered_map_put map_of_map_put fun_upd_twist\<close>)
  have 2: "map_put k w (map_put k v (rs_headers r)) = map_put k w (rs_headers r)"
    by (rule keys_ordered_extensional) (use assms in \<open>simp_all add: keys_ordered_map_put map_of_map_put\<close>)
  show ?thesis
    using 1 2 assms
    by (simp add: response_addHeader_def response_text_def keys_ordered_map_put map_of_map_put)
qed

theorem response_headers_order_irrelevant_witness:
  "response_text (response_addHeader (response_addHeader (new_HttpResponse True) ''b'' ''1'') ''a'' ''2'') =
   response_text (response_addHeader (response_addHeader (new_HttpResponse True) ''a'' ''2'') ''b'' ''1'')"
  using response_headers_order_irrelevant [of "new_HttpResponse True" "''b''" "''a''" "''1''" "''2''"]
  by (simp add: new_HttpResponse_def)

end
