(* ===== verification/HttpServer.thy ===== *)
theory HttpServer
  imports TcpServer HttpParser HttpResponse
begin

text \<open>
  \<^verbatim>\<open>HttpServer\<close> (\<^verbatim>\<open>src/src/http/HttpServer.hpp\<close>, \<^verbatim>\<open>HttpServer.cpp\<close>): the callbacks it sets on its \<^verbatim>\<open>TcpServer\<close>, which join the
  parser, the response and the connection. The user's \<^verbatim>\<open>HttpCallback\<close> is a parameter: a function that fills in the
  response to a request. \<open>r\<close> is the outcome of the write an answer causes.
\<close>

section \<open>Model\<close>

type_synonym http_callback = "http_request \<Rightarrow> http_response \<Rightarrow> http_response"

type_synonym http_conn = "http_context tcp_conn"

definition defaultHttpCallback :: http_callback where
  "defaultHttpCallback req resp =
    setCloseConnection (setStatusMessage (setStatusCode resp Status404NotFound) ''Not Found'') True"

definition onConnection :: "http_context conn_fun" where
  "onConnection c = Inr (if connected c then setContext new_HttpContext c else c)"

definition wants_close :: "http_request \<Rightarrow> bool" where
  "wants_close req = (let connection = getHeader req ''Connection'' in
     connection = ''close'' \<or> (rq_version req = Http10 \<and> connection \<noteq> ''Keep-Alive''))"

definition onRequest :: "http_callback \<Rightarrow> write_result \<Rightarrow> http_request \<Rightarrow> http_context conn_fun" where
  "onRequest httpCallback r req c =
    (let response = httpCallback req (new_HttpResponse (wants_close req)) in
     rbind (appendToBuffer response new_Buffer) (\<lambda>buf.
     rbind (send_buffer no_callbacks True r buf c) (\<lambda>(buf, c).
     if rs_closeConnection response then conn_shutdown True c else Inr c)))"

definition bad_request :: string where
  "bad_request = ''HTTP/1.1 400 Bad Request'' @ kCRLF @ kCRLF"

text \<open>
  \<^verbatim>\<open>onMessage\<close>: a parser that never returns, and a context that is not an \<^verbatim>\<open>HttpContext\<close>, count as undefined behaviour.
\<close>

definition onMessage :: "http_callback \<Rightarrow> write_result \<Rightarrow> time_point \<Rightarrow> http_context conn_fun" where
  "onMessage httpCallback r receiveTime c = (case tc_context c of
     None \<Rightarrow> Inl (UndefinedBehaviour ''null context'')
   | Some context \<Rightarrow> (case parseRequest context (tc_input c) receiveTime of
       None \<Rightarrow> Inl (UndefinedBehaviour ''parseRequest does not return'')
     | Some (Inl e) \<Rightarrow> Inl e
     | Some (Inr (okv, context, b)) \<Rightarrow>
         let c = c\<lparr>tc_input := b, tc_context := Some context\<rparr> in
         rbind (if \<not> okv then rbind (send no_callbacks True r bad_request c) (conn_shutdown True) else Inr c) (\<lambda>c.
         if gotAll context then
           rbind (onRequest httpCallback r (cx_request context) c) (\<lambda>c. Inr (c\<lparr>tc_context := Some (reset_context context)\<rparr>))
         else Inr c)))"

definition http_callbacks :: "http_callback \<Rightarrow> write_result \<Rightarrow> http_context conn_callbacks" where
  "http_callbacks httpCallback r =
    setMessageCallback (onMessage httpCallback r) (setConnectionCallback onConnection (default_callbacks r))"

definition new_HttpServer ::
  "nat \<Rightarrow> InetAddress \<Rightarrow> string \<Rightarrow> int \<Rightarrow> int \<Rightarrow> nat \<Rightarrow> (nat \<Rightarrow> loop_cb epoller) \<Rightarrow> http_context tcp_server res" where
  "new_HttpServer base listenAddr name sockfd ret p pollers =
    rbind (new_TcpServer base listenAddr name sockfd ret p pollers) (\<lambda>s.
    Inr (sv_setMessageCallback (onMessage defaultHttpCallback) (sv_setConnectionCallback (\<lambda>r. onConnection) s)))"

text \<open>The message callback reads \<^verbatim>\<open>httpCallback_\<close> when it is called, so setting that is setting the message callback.\<close>

definition setHttpCallback :: "http_callback \<Rightarrow> http_context tcp_server \<Rightarrow> http_context tcp_server" where
  "setHttpCallback cb s = sv_setMessageCallback (onMessage cb) s"

definition http_setThreadNum :: "int \<Rightarrow> http_context tcp_server \<Rightarrow> http_context tcp_server res" where
  "http_setThreadNum n s = sv_setThreadNum n s"

definition http_start :: "nat \<Rightarrow> (nat \<Rightarrow> nat) \<Rightarrow> int \<Rightarrow> http_context tcp_server \<Rightarrow> http_context tcp_server res" where
  "http_start cur addr ret s = sv_start cur addr ret s"

section \<open>An answer to a request\<close>

lemma send_buffer_open:
  assumes ok: "conn_ok c" and b: "buf_inv b" and room: "length (content (tc_output c)) + 2 * length (content b) \<le> buf_limit"
  shows "\<exists>b' c'. send_buffer no_callbacks True r b c = Inr (b', c') \<and> conn_ok c' \<and> same_conn c' c \<and> same_notes c' c \<and>
    (stream c' = stream c @ (if connected c then content b else []) \<or> write_fault r)"
proof (cases "connected c")
  case True
  from ok have inv: "conn_inv c" by (simp add: conn_ok_def)
  from True have st: "tc_state c \<noteq> kDisconnected" by (simp add: connected_def)
  from sendInLoop_buf_ok [OF inv room st, of no_callbacks r] obtain c' where
    c': "sendInLoop_buf no_callbacks True r (content b) c = Inr c'" "conn_inv c'" "same_conn c' c" "tc_pending c' = tc_pending c"
      "stream c' = stream c @ content b \<or> write_fault r \<and> c' = c" by auto
  have "conn_ok c'"
    using c'(5) conn_ok_send [OF ok _ c'(2) _ c'(3)] True ok by (auto simp: connected_def)
  with c' True b show ?thesis
    by (auto simp: send_buffer_def connected_def peek_def readable_end range_content same_notes_def same_conn_def)
next
  case False
  with ok show ?thesis by (auto simp: send_buffer_def connected_def same_notes_def same_conn_def)
qed

text \<open>What a request is answered with, and that it fits the buffers.\<close>

definition answer :: "http_callback \<Rightarrow> http_request \<Rightarrow> http_response" where
  "answer cb req = cb req (new_HttpResponse (wants_close req))"

definition answer_fits :: "http_callback \<Rightarrow> http_request \<Rightarrow> http_conn \<Rightarrow> bool" where
  "answer_fits cb req c \<longleftrightarrow> length (rs_body (answer cb req)) < 10000000000000 \<and>
    length (content (tc_output c)) + 2 * length (response_text (answer cb req)) \<le> buf_limit"

lemma appendToBuffer_ok:
  assumes "length (rs_body r) < 10000000000000" and "2 * length (response_text r) \<le> buf_limit"
  shows "\<exists>b. appendToBuffer r new_Buffer = Inr b \<and> buf_inv b \<and> content b = response_text r"
  using bq.app_all_concat [OF new_Buffer_inv, of "response_pieces r"] assms
  by (simp add: appendToBuffer_pieces concat_response_pieces)

lemma onRequest_ok:
  assumes ok: "conn_ok c" and fits: "answer_fits cb req c"
  shows "\<exists>c'. onRequest cb r req c = Inr c' \<and> conn_ok c' \<and> same_place c' c \<and> same_notes c' c \<and> tc_input c' = tc_input c \<and>
    (stream c' = stream c @ (if connected c then response_text (answer cb req) else []) \<or> write_fault r) \<and>
    (connected c' \<longleftrightarrow> connected c \<and> \<not> rs_closeConnection (answer cb req))"
proof -
  let ?resp = "answer cb req"
  from fits have room: "length (content (tc_output c)) + 2 * length (response_text ?resp) \<le> buf_limit"
    and body: "length (rs_body ?resp) < 10000000000000" by (simp_all add: answer_fits_def)
  then have "2 * length (response_text ?resp) \<le> buf_limit" by (simp del: length_content)
  from appendToBuffer_ok [OF body this] obtain b where
    b: "appendToBuffer ?resp new_Buffer = Inr b" "buf_inv b" "content b = response_text ?resp" by blast
  from send_buffer_open [OF ok b(2), of r] room b(3) obtain b' c1 where
    c1: "send_buffer no_callbacks True r b c = Inr (b', c1)" "conn_ok c1" "same_conn c1 c" "same_notes c1 c"
      "stream c1 = stream c @ (if connected c then response_text ?resp else []) \<or> write_fault r" by (auto simp del: length_content)
  have conn: "connected c1 = connected c" using c1(3) by (simp add: same_conn_def connected_def)
  show ?thesis
  proof (cases "rs_closeConnection ?resp")
    case True
    from shutdown_open [OF c1(2)] obtain c2 where
      "conn_shutdown True c1 = Inr c2" "conn_ok c2" "same_place c2 c1" "same_notes c2 c1" "stream c2 = stream c1"
      "tc_input c2 = tc_input c1" "\<not> connected c2" by blast
    with True b(1) c1 show ?thesis
      by (auto simp: onRequest_def answer_def same_conn_def same_notes_def intro: same_place_trans)
  next
    case False
    with b(1) c1 conn show ?thesis
      by (auto simp: onRequest_def answer_def same_conn_def)
  qed
qed

section \<open>HttpServer keeps the contract of a connection\<close>

lemma http_spec_state:
  assumes p: "parsing cx" and spec: "http_spec cx s t = Inr (okv, cx', s')"
  shows "(parsing cx' \<or> gotAll cx') \<and> (\<not> okv \<longrightarrow> parsing cx')"
proof (cases "cx_state cx = ExpectHeaders")
  case True
  from http_spec_headers_state [OF True spec] show ?thesis by (auto simp: parsing_def)
next
  case False
  with p have st: "cx_state cx = ExpectRequestLine" by (simp add: parsing_def)
  from spec st show ?thesis
    by (auto simp: http_spec.simps [of cx s] parsing_def rbind_eq_Inr_iff split: option.splits if_splits
      dest!: http_spec_headers_state [rotated])
qed

text \<open>
  What is kept of a connection: its context is one in which the parser returns. The data the server can cope with: it
  does not come after a request that was refused (\<open>cx_clean\<close>), and the answer fits the output buffer.
\<close>

definition http_inv :: "http_conn \<Rightarrow> bool" where
  "http_inv c \<longleftrightarrow> (case tc_context c of None \<Rightarrow> False | Some cx \<Rightarrow> parsing cx)"

definition http_can_read :: "http_callback \<Rightarrow> http_conn \<Rightarrow> string \<Rightarrow> bool" where
  "http_can_read cb c d \<longleftrightarrow> (case tc_context c of None \<Rightarrow> False
   | Some cx \<Rightarrow> cx_clean cx \<and> length (content (tc_output c)) + 2 * length bad_request \<le> buf_limit \<and>
       (\<forall>t okv cx' rest. http_spec cx (content (tc_input c) @ d) t = Inr (okv, cx', rest) \<longrightarrow> gotAll cx' \<longrightarrow>
          answer_fits cb (cx_request cx') c))"

text \<open>A refused request is answered with 400, and the write side is shut down.\<close>

lemma refuse_ok:
  assumes ok: "conn_ok c" and cx: "tc_context c = Some cx" "parsing cx" and room: "length (content (tc_output c)) + 2 * length bad_request \<le> buf_limit"
  shows "\<exists>c'. rbind (send no_callbacks True r bad_request c) (conn_shutdown True) = Inr c' \<and> conn_ok c' \<and> http_inv c' \<and>
    same_place c' c \<and> same_notes c' c"
proof -
  from send_open [OF ok room, of r] obtain c1 where
    c1: "send no_callbacks True r bad_request c = Inr c1" "conn_ok c1" "same_conn c1 c" "same_notes c1 c" by blast
  from shutdown_open [OF c1(2)] obtain c2 where
    c2: "conn_shutdown True c1 = Inr c2" "conn_ok c2" "same_place c2 c1" "same_notes c2 c1" "tc_context c2 = tc_context c1" by blast
  have "http_inv c2" using c1(3) c2(5) cx by (simp add: http_inv_def same_conn_def)
  moreover have "same_place c2 c" using c1(3) c2(3) by (auto simp: same_conn_def intro: same_place_trans)
  moreover have "same_notes c2 c" using c1(4) c2(4) by (simp add: same_notes_def)
  ultimately show ?thesis using c1(1) c2(1,2) by simp
qed

lemma onMessage_ok:
  assumes ok: "conn_ok c" and inv: "http_inv c" and can: "http_can_read cb c d"
    and b: "buf_inv b" "content b = content (tc_input c) @ d"
  shows "\<exists>c'. onMessage cb r t (c\<lparr>tc_input := b\<rparr>) = Inr c' \<and> conn_ok c' \<and> http_inv c' \<and> same_place c' c \<and> same_notes c' c"
proof -
  from inv obtain cx where cx: "tc_context c = Some cx" "parsing cx" by (auto simp: http_inv_def split: option.splits)
  let ?spec = "http_spec cx (content (tc_input c) @ d) t"
  from can cx(1) have room: "length (content (tc_output c)) + 2 * length bad_request \<le> buf_limit" and clean: "cx_clean cx"
    by (simp_all add: http_can_read_def)
  from http_spec_clean [OF cx(2) clean, of "content (tc_input c) @ d" t] can cx(1) obtain okv cx' rest where
    spec: "?spec = Inr (okv, cx', rest)" "gotAll cx' \<longrightarrow> answer_fits cb (cx_request cx') c"
    unfolding http_can_read_def by fastforce
  from parseRequest_refines [OF b(1) cx(2), of t] b(2) spec(1) obtain b' where
    b': "parseRequest cx b t = Some (Inr (okv, cx', b'))" "buf_inv b'" by (auto simp: refines_result_def)
  let ?c = "c\<lparr>tc_input := b', tc_context := Some cx'\<rparr>"
  have c: "conn_ok ?c" "same_place ?c c" "same_notes ?c c"
    using ok b'(2) by (simp_all add: conn_ok_def conn_inv_def conn_open_def same_defs same_notes_def)
  note st = http_spec_state [OF cx(2) spec(1)]
  show ?thesis
  proof (cases "okv \<and> gotAll cx'")
    case True
    then have fits: "answer_fits cb (cx_request cx') ?c" using spec(2) by (simp add: answer_fits_def)
    from onRequest_ok [OF c(1) fits, of r] obtain c1 where
      c1: "onRequest cb r (cx_request cx') ?c = Inr c1" "conn_ok c1" "same_place c1 ?c" "same_notes c1 ?c" by blast
    let ?c1 = "c1\<lparr>tc_context := Some (reset_context cx')\<rparr>"
    have "conn_ok ?c1" "same_place ?c1 c1" "same_notes ?c1 c1"
      using c1(2) by (simp_all add: conn_ok_def conn_inv_def conn_open_def same_defs same_notes_def)
    moreover have "http_inv ?c1" by (simp add: http_inv_def parsing_def reset_context_def)
    ultimately show ?thesis
      using True b'(1) cx(1) c c1 by (auto simp: onMessage_def same_notes_def intro: same_place_trans)
  next
    case False
    show ?thesis
    proof (cases okv)
      case True
      with False st have "http_inv ?c" "\<not> gotAll cx'" by (auto simp: http_inv_def)
      with True b'(1) cx(1) c show ?thesis by (simp add: onMessage_def)
    next
      case refused: False
      with st have p: "parsing cx'" by simp
      then have ng: "\<not> gotAll cx'" by (auto simp: parsing_def gotAll_def)
      have "length (content (tc_output ?c)) + 2 * length bad_request \<le> buf_limit" using room by simp
      from refuse_ok [OF c(1) _ p this, of r] obtain c2 where
        "rbind (send no_callbacks True r bad_request ?c) (conn_shutdown True) = Inr c2" "conn_ok c2" "http_inv c2" "same_place c2 ?c" "same_notes c2 ?c"
        by auto
      then show ?thesis using refused ng b'(1) cx(1) c(2,3) same_place_trans [of c2 ?c c] by (simp add: onMessage_def same_notes_def)
    qed
  qed
qed

lemma http_callbacks_simps [simp]:
  "cb_connection (http_callbacks cb r) = Some onConnection" "cb_message (http_callbacks cb r) = Some (onMessage cb r)"
  "cb_writeComplete (http_callbacks cb r) = None"
  by (simp_all add: http_callbacks_def setMessageCallback_def setConnectionCallback_def default_callbacks_def no_callbacks_def)

lemma http_can_read_poller: "http_can_read cb (c\<lparr>tc_poller := w\<rparr>) s = http_can_read cb c s"
proof -
  have *: "answer_fits cb q (c\<lparr>tc_poller := w\<rparr>) = answer_fits cb q c" for q by (simp add: answer_fits_def)
  show ?thesis unfolding http_can_read_def * by (cases "tc_context c") simp_all
qed

interpretation hcl: conn_client "http_callbacks cb" http_inv "http_can_read cb"
proof
  fix c :: http_conn and r
  assume "conn_ok c" "connected c" "stream c = []" "content (tc_input c) = []"
  then show "\<exists>f c'. cb_connection (http_callbacks cb r) = Some f \<and> f c = Inr c' \<and> conn_ok c' \<and> http_inv c' \<and> same_place c' c \<and> same_notes c' c"
    by (simp add: onConnection_def setContext_def http_inv_def parsing_def new_HttpContext_def conn_ok_def conn_inv_def
      conn_open_def same_defs same_notes_def)
next
  fix c :: http_conn and r
  assume "disconnected c"
  then show "\<exists>f c'. cb_connection (http_callbacks cb r) = Some f \<and> f c = Inr c' \<and> disconnected c' \<and> tc_poller c' = tc_poller c \<and>
      same_place c' c \<and> same_notes c' c"
    by (simp add: onConnection_def connected_def disconnected_def same_notes_def)
next
  fix c :: http_conn and s b r t
  assume "conn_ok c" "http_inv c" "http_can_read cb c s" "buf_inv b" "content b = content (tc_input c) @ s"
  from onMessage_ok [OF this, of r t] show "\<exists>f c'. cb_message (http_callbacks cb r) = Some f \<and> f t (c\<lparr>tc_input := b\<rparr>) = Inr c' \<and>
      conn_ok c' \<and> http_inv c' \<and> same_place c' c \<and> same_notes c' c" by auto
qed (simp_all add: http_inv_def http_can_read_poller)

section \<open>Properties\<close>

lemma handleRead_message:
  assumes ok: "conn_ok c" and d: "d \<noteq> []" "fits_input c d"
  shows "\<exists>b. buf_inv b \<and> content b = content (tc_input c) @ d \<and>
    handleRead (with_owner (http_callbacks cb r)) True (ReadvOk d) t c = onMessage cb r t (c\<lparr>tc_input := b\<rparr>)"
proof -
  from ok have "buf_inv (tc_input c)" by (simp add: conn_ok_def conn_inv_def)
  from readFd_ok [OF this] d obtain b where
    "readFd (tc_input c) (ReadvOk d) = Inr (int (length d), None, b)" "buf_inv b" "content b = content (tc_input c) @ d"
    by (auto simp: fits_input_def simp del: length_content)
  with d(1) show ?thesis by (auto simp: handleRead_def call_function_def)
qed

text \<open>A read event that does not complete a request changes nothing but the input buffer and the context.\<close>

lemma handleRead_pending:
  assumes ok: "conn_ok c" and cx: "tc_context c = Some cx" "parsing cx" and d: "d \<noteq> []" "fits_input c d"
    and spec: "http_spec cx (content (tc_input c) @ d) t = Inr (True, cx', s')" "\<not> gotAll cx'"
  shows "\<exists>b. handleRead (with_owner (http_callbacks cb r)) True (ReadvOk d) t c = Inr (c\<lparr>tc_input := b, tc_context := Some cx'\<rparr>) \<and>
    buf_inv b \<and> content b = s'"
proof -
  from handleRead_message [OF ok d] obtain b where
    b: "buf_inv b" "content b = content (tc_input c) @ d"
      "handleRead (with_owner (http_callbacks cb r)) True (ReadvOk d) t c = onMessage cb r t (c\<lparr>tc_input := b\<rparr>)" by blast
  from parseRequest_refines [OF b(1) cx(2), of t] b(2) spec(1) obtain b' where
    "parseRequest cx b t = Some (Inr (True, cx', b'))" "buf_inv b'" "content b' = s'" by (auto simp: refines_result_def)
  with b(3) cx(1) spec(2) show ?thesis by (auto simp: onMessage_def)
qed

text \<open>A read event that completes a request answers it and makes the context ready for the next one.\<close>

lemma handleRead_complete:
  assumes ok: "conn_ok c" "connected c" and cx: "tc_context c = Some cx" "parsing cx" and d: "d \<noteq> []" "fits_input c d"
    and spec: "http_spec cx (content (tc_input c) @ d) t = Inr (True, cx', rest)" "gotAll cx'"
    and out: "answer_fits cb (cx_request cx') c" "\<not> write_fault r"
  shows "\<exists>c'. handleRead (with_owner (http_callbacks cb r)) True (ReadvOk d) t c = Inr c' \<and> conn_ok c' \<and>
    stream c' = stream c @ response_text (answer cb (cx_request cx')) \<and> (connected c' \<longleftrightarrow> \<not> rs_closeConnection (answer cb (cx_request cx'))) \<and>
    content (tc_input c') = rest \<and> tc_context c' = Some (reset_context cx')"
proof -
  let ?req = "cx_request cx'"
  from handleRead_message [OF ok(1) d] obtain b where
    b: "buf_inv b" "content b = content (tc_input c) @ d"
      "handleRead (with_owner (http_callbacks cb r)) True (ReadvOk d) t c = onMessage cb r t (c\<lparr>tc_input := b\<rparr>)" by blast
  from parseRequest_refines [OF b(1) cx(2), of t] b(2) spec(1) obtain b' where
    b': "parseRequest cx b t = Some (Inr (True, cx', b'))" "buf_inv b'" "content b' = rest" by (auto simp: refines_result_def)
  let ?c = "c\<lparr>tc_input := b', tc_context := Some cx'\<rparr>"
  have "conn_ok ?c" "answer_fits cb ?req ?c" using ok(1) b'(2) out(1) by (simp_all add: conn_ok_def conn_inv_def conn_open_def answer_fits_def)
  from onRequest_ok [OF this, of r] out(2) obtain c1 where
    c1: "onRequest cb r ?req ?c = Inr c1" "conn_ok c1" "tc_input c1 = b'" "stream c1 = stream ?c @ (if connected ?c then response_text (answer cb ?req) else [])"
      "connected c1 \<longleftrightarrow> connected ?c \<and> \<not> rs_closeConnection (answer cb ?req)" by auto
  have same: "stream ?c = stream c" "connected ?c" using ok(2) by (simp_all add: stream_def connected_def)
  have "onMessage cb r t (c\<lparr>tc_input := b\<rparr>) = Inr (c1\<lparr>tc_context := Some (reset_context cx')\<rparr>)"
    using cx(1) b'(1) c1(1) spec(2) by (simp add: onMessage_def)
  moreover have "conn_ok (c1\<lparr>tc_context := Some (reset_context cx')\<rparr>)" using c1(2) by (simp add: conn_ok_def conn_inv_def conn_open_def)
  ultimately show ?thesis
    using b(3) b'(3) c1 same by (auto simp: stream_def connected_def)
qed

lemma reset_context_ready:
  "cx_state (reset_context cx) = ExpectRequestLine" "rq_method (cx_request (reset_context cx)) = MInvalid"
  "cx_request (reset_context cx) = fst (swap_request (cx_request cx) new_HttpRequest)"
  by (simp_all add: reset_context_def swap_request_def new_HttpRequest_def)

text \<open>
  C4: A well-formed request is answered. When the bytes of a request arrive on an open connection whose context expects one,
  the bytes that go out are exactly the text of the response the user's callback makes for the parsed request, the
  connection is shut down exactly when the response says so, the context is ready for the next request, and what
  followed the request stays in the input buffer.
\<close>

theorem http_request_answered:
  assumes ok: "conn_ok c" "connected c" and cx: "tc_context c = Some cx" "cx_state cx = ExpectRequestLine" "rq_method (cx_request cx) = MInvalid"
    and data: "content (tc_input c) @ d = request_line m path query v @ kCRLF @ print_headers hs @ kCRLF @ rest"
      "line_ok m path query v" "\<forall>h \<in> set hs. header_ok h" "d \<noteq> []" "fits_input c d"
    and req: "req = printed_request m path query v hs t (cx_request cx)"
    and out: "answer_fits cb req c" "\<not> write_fault r"
  shows "\<exists>c' cx'. handleRead (with_owner (http_callbacks cb r)) True (ReadvOk d) t c = Inr c' \<and> conn_ok c' \<and>
    stream c' = stream c @ response_text (answer cb req) \<and> (connected c' \<longleftrightarrow> \<not> rs_closeConnection (answer cb req)) \<and>
    content (tc_input c') = rest \<and> tc_context c' = Some cx' \<and> cx_state cx' = ExpectRequestLine \<and> rq_method (cx_request cx') = MInvalid"
proof -
  let ?cx = "cx\<lparr>cx_request := req, cx_state := GotAll\<rparr>"
  have p: "parsing cx" using cx(2) by (simp add: parsing_def)
  have "http_spec cx (content (tc_input c) @ d) t = Inr (True, ?cx, rest)"
    unfolding data(1) req by (rule http_spec_printed [OF cx(2,3) data(2,3)])
  from handleRead_complete [OF ok cx(1) p data(4,5) this, of cb r] out show ?thesis by (auto simp: gotAll_def reset_context_ready(1,2))
qed

text \<open>
  C37: A client can abort the server. Let the input of a connection that expects a request be completed to a line that starts with a
  known method and a space but has no \<^verbatim>\<open>HTTP/1.0\<close> or \<^verbatim>\<open>HTTP/1.1\<close> behind the target (another version, or none), whatever
  follows the line. The connection is answered with 400 and shut down on its write side only; the context keeps the
  method, and whatever the client sends next runs into the assertion of \<^verbatim>\<open>setMethod\<close>, which ends the process with all
  its connections.
\<close>

theorem http_remote_abort:
  assumes ok: "conn_ok c" "connected c" and cx: "tc_context c = Some cx" "cx_state cx = ExpectRequestLine" "rq_method (cx_request cx) = MInvalid"
    and data: "content (tc_input c) @ d = methodString m @ '' '' @ s @ kCRLF @ rest" "m \<noteq> MInvalid" "version_refused s" "d \<noteq> []" "fits_input c d"
    and room: "length (content (tc_output c)) + 2 * length bad_request \<le> buf_limit"
  shows "\<exists>c1. handleRead (with_owner (http_callbacks cb r)) True (ReadvOk d) t c = Inr c1 \<and> conn_ok c1 \<and>
    stream c1 = stream c @ bad_request \<and> tc_state c1 = kDisconnecting \<and>
    (\<forall>x r' t'. x \<noteq> [] \<and> fits_input c1 x \<longrightarrow>
      handleRead (with_owner (http_callbacks cb r')) True (ReadvOk x) t' c1 = Inl (AssertFail ''method_ == Method::Invalid''))"
proof -
  let ?s = "content (tc_input c) @ d"
  have p: "parsing cx" using cx(2) by (simp add: parsing_def)
  obtain cx' where cx': "http_spec cx ?s t = Inr (False, cx', ?s)" "cx_state cx' = ExpectRequestLine" "rq_method (cx_request cx') = m"
    unfolding data(1) by (rule http_spec_version_refused [OF cx(2,3) data(2,3)])
  from handleRead_message [OF ok(1) data(4,5), of cb r t] obtain b where
    b: "buf_inv b" "content b = ?s"
      "handleRead (with_owner (http_callbacks cb r)) True (ReadvOk d) t c = onMessage cb r t (c\<lparr>tc_input := b\<rparr>)" by blast
  with parseRequest_refines [OF b(1) p, of t] cx'(1) obtain b1 where
    b1: "parseRequest cx b t = Some (Inr (False, cx', b1))" "buf_inv b1" "content b1 = ?s" by (auto simp: refines_result_def)
  let ?c = "c\<lparr>tc_input := b1, tc_context := Some cx'\<rparr>"
  have c: "conn_ok ?c" "connected ?c" "stream ?c = stream c" "tc_output ?c = tc_output c"
    using ok b1(2) by (simp_all add: conn_ok_def conn_inv_def conn_open_def connected_def stream_def)
  from send_open [OF c(1), of bad_request r] room c(2-4) obtain c1 where
    c1: "send no_callbacks True r bad_request ?c = Inr c1" "conn_ok c1" "same_conn c1 ?c" "stream c1 = stream c @ bad_request"
    by (auto simp del: length_content)
  from shutdown_open [OF c1(2)] obtain c2 where
    c2: "conn_shutdown True c1 = Inr c2" "conn_ok c2" "stream c2 = stream c1" "tc_context c2 = tc_context c1" "tc_input c2 = tc_input c1"
      "\<not> connected c2" by blast
  have st: "tc_context c2 = Some cx'" "tc_input c2 = b1" using c1(3) c2(4,5) by (simp_all add: same_conn_def)
  have ng: "\<not> gotAll cx'" using cx'(2) by (simp add: gotAll_def)
  have run: "onMessage cb r t (c\<lparr>tc_input := b\<rparr>) = Inr c2" using cx(1) b1(1) c1(1) c2(1) ng by (simp add: onMessage_def)
  have "handleRead (with_owner (http_callbacks cb r')) True (ReadvOk x) t' c2 = Inl (AssertFail ''method_ == Method::Invalid'')"
    if x: "x \<noteq> []" "fits_input c2 x" for x r' t'
  proof -
    from handleRead_message [OF c2(2) x, of cb r' t'] st(2) b1(3) obtain b2 where
      b2: "buf_inv b2" "content b2 = ?s @ x"
        "handleRead (with_owner (http_callbacks cb r')) True (ReadvOk x) t' c2 = onMessage cb r' t' (c2\<lparr>tc_input := b2\<rparr>)" by auto
    have "parseRequest cx' b2 t' = Some (Inl (AssertFail ''method_ == Method::Invalid''))"
      by (rule refused_request_aborts_on_more_data [OF p cx(3) cx'(1) _ b2(1,2)]) (use cx'(3) data(2) in simp)
    with b2(3) st(1) show ?thesis by (simp add: onMessage_def)
  qed
  moreover have "tc_state c2 = kDisconnecting" using c2(2,6) by (auto simp: conn_ok_def conn_open_def connected_def)
  ultimately show ?thesis using b(3) run c1(4) c2(2,3) by auto
qed

text \<open>A connection on which a request is expected, for the witnesses.\<close>

definition http_sample :: http_conn where
  "http_sample = open_sample\<lparr>tc_context := Some new_HttpContext\<rparr>"

lemma http_sample_ok [simp]:
  "conn_ok http_sample" "connected http_sample" "tc_context http_sample = Some new_HttpContext" "tc_input http_sample = new_Buffer"
  "content (tc_output http_sample) = []" "stream http_sample = []"
proof -
  have *: "conn_ok (c\<lparr>tc_context := x\<rparr>) = conn_ok c" "connected (c\<lparr>tc_context := x\<rparr>) = connected c"
    "stream (c\<lparr>tc_context := x\<rparr>) = stream c" for c :: http_conn and x
    by (simp_all add: conn_ok_def conn_inv_def conn_open_def connected_def stream_def)
  show "conn_ok http_sample" "connected http_sample" "tc_context http_sample = Some new_HttpContext" "tc_input http_sample = new_Buffer"
    "content (tc_output http_sample) = []" "stream http_sample = []"
    by (simp_all add: http_sample_def *)
qed

lemma fits_new_Buffer: "tc_input c = new_Buffer \<Longrightarrow> length d \<le> 65536 \<Longrightarrow> fits_input c d"
  by (simp add: fits_input_def extrabuf_size_def)

theorem http_request_answered_witness:
  "\<exists>c' cx'. handleRead (with_owner (http_callbacks defaultHttpCallback (WriteN 5))) True
      (ReadvOk (request_line MGet ''/'' [] Http11 @ kCRLF @ print_headers [] @ kCRLF @ ''x'')) 7 http_sample = Inr c' \<and> conn_ok c' \<and>
    stream c' = stream http_sample @ response_text (answer defaultHttpCallback (printed_request MGet ''/'' [] Http11 [] 7 new_HttpRequest)) \<and>
    (connected c' \<longleftrightarrow> \<not> rs_closeConnection (answer defaultHttpCallback (printed_request MGet ''/'' [] Http11 [] 7 new_HttpRequest))) \<and>
    content (tc_input c') = ''x'' \<and> tc_context c' = Some cx' \<and> cx_state cx' = ExpectRequestLine \<and> rq_method (cx_request cx') = MInvalid"
  by (rule http_request_answered [where cx = new_HttpContext and m = MGet and path = "''/''" and query = "[]" and v = Http11 and hs = "[]"])
    (simp_all add: new_HttpContext_def new_HttpRequest_def line_ok_def request_line_def print_headers_def kCRLF_def fits_new_Buffer
      answer_fits_def answer_def defaultHttpCallback_def setCloseConnection_def setStatusMessage_def setStatusCode_def
      new_HttpResponse_def response_text_def show_int_def write_fault_def)

theorem http_remote_abort_witness:
  "\<exists>c1. handleRead (with_owner (http_callbacks defaultHttpCallback (WriteN 5))) True
      (ReadvOk (methodString MGet @ '' '' @ ''/ HTTP/2.0'' @ kCRLF @ ''Host: a'')) 7 http_sample = Inr c1 \<and>
    conn_ok c1 \<and> stream c1 = stream http_sample @ bad_request \<and> tc_state c1 = kDisconnecting \<and>
    (\<forall>x r' t'. x \<noteq> [] \<and> fits_input c1 x \<longrightarrow>
      handleRead (with_owner (http_callbacks defaultHttpCallback r')) True (ReadvOk x) t' c1 = Inl (AssertFail ''method_ == Method::Invalid''))"
  by (rule http_remote_abort [where cx = new_HttpContext and m = MGet and s = "''/ HTTP/2.0''" and rest = "''Host: a''"])
    (simp_all add: new_HttpContext_def new_HttpRequest_def version_refused_def fits_new_Buffer kCRLF_def bad_request_def)

text \<open>
  C13: An HTTP server with any user callback is safe: after construction, \<^verbatim>\<open>setHttpCallback\<close>, \<^verbatim>\<open>setThreadNum\<close> and \<^verbatim>\<open>start\<close> no run of
  its loops fails in which no client sends anything after a request of it was refused, no answer outgrows the largest
  buffer, and no event reports a hang-up without \<^verbatim>\<open>POLLIN\<close> but with another readable condition whose read does not fail
  (\<open>hup_unread\<close>); its table of connections stays exact. Of what is left out, such an event with an end of
  stream, on a connection of the base loop, fails \<^verbatim>\<open>assert(n == 1)\<close> in every state reached.
\<close>

theorem http_server_safe:
  assumes "\<forall>l. ep_inv (pollers l)" and "ep_heap (pollers base) p = None" "ep_channels (pollers base) fd = None"
    and "0 \<le> fd" "0 \<le> ret" "0 \<le> ret'" "0 \<le> n"
  shows "\<exists>s0 s1 s. new_HttpServer base addr name fd ret p pollers = Inr s0 \<and> http_setThreadNum n (setHttpCallback cb s0) = Inr s1 \<and>
    http_start base laddr ret' s1 = Inr s \<and>
    (\<forall>evs. enabled_run server_step (server_enabled (http_can_read cb)) s evs \<longrightarrow>
      (\<exists>s'. run_steps server_step s evs = Inr s' \<and> connections_exact s' \<and> sv_apart s' \<and> double_close_fatal s'))"
proof -
  from server_started [OF assms, of addr name "http_callbacks cb" laddr http_inv] obtain t0 s1 s where
    s: "new_TcpServer base addr name fd ret p pollers = Inr t0" "sv_callbacks t0 = default_callbacks"
      "sv_setThreadNum n (t0\<lparr>sv_callbacks := http_callbacks cb\<rparr>) = Inr s1" "sv_start base laddr ret' s1 = Inr s"
      "server_ok (http_callbacks cb) http_inv s" by blast
  let ?s0 = "sv_setMessageCallback (onMessage defaultHttpCallback) (sv_setConnectionCallback (\<lambda>r. onConnection) t0)"
  have "setHttpCallback cb ?s0 = t0\<lparr>sv_callbacks := http_callbacks cb\<rparr>"
    using s(2) by (simp add: setHttpCallback_def sv_setMessageCallback_def sv_setConnectionCallback_def http_callbacks_def
      setMessageCallback_def fun_eq_iff)
  with s(3) have "http_setThreadNum n (setHttpCallback cb ?s0) = Inr s1" by (simp add: http_setThreadNum_def)
  moreover have "new_HttpServer base addr name fd ret p pollers = Inr ?s0" using s(1) by (simp add: new_HttpServer_def)
  moreover have "http_start base laddr ret' s1 = Inr s" using s(4) by (simp add: http_start_def)
  moreover have "\<exists>s'. run_steps server_step s evs = Inr s' \<and> connections_exact s' \<and> sv_apart s' \<and> double_close_fatal s'"
    if "enabled_run server_step (server_enabled (http_can_read cb)) s evs" for evs
    using hcl.server_run_report [OF s(5) that] .
  ultimately show ?thesis by blast
qed

theorem http_server_safe_witness:
  "\<exists>s0 s1 s. new_HttpServer 0 (InetAddress_port 80) ''web'' 3 0 7 (\<lambda>l. empty_poller) = Inr s0 \<and>
    http_setThreadNum 2 (setHttpCallback defaultHttpCallback s0) = Inr s1 \<and> http_start 0 Suc 0 s1 = Inr s \<and>
    (\<forall>evs. enabled_run server_step (server_enabled (http_can_read defaultHttpCallback)) s evs \<longrightarrow>
      (\<exists>s'. run_steps server_step s evs = Inr s' \<and> connections_exact s' \<and> sv_apart s' \<and> double_close_fatal s'))"
  by (rule http_server_safe) simp_all

end
