(* ===== verification/HttpSession.thy ===== *)
theory HttpSession
  imports HttpServer
begin

text \<open>
  A session on a connection of \<^verbatim>\<open>HttpServer\<close> (\<^verbatim>\<open>src/src/http/HttpServer.cpp\<close>): the requests of a client, one after the other on
  the same connection, each arriving in any number of pieces, and the answers that go out.
\<close>

section \<open>Sessions\<close>

text \<open>A request as the client writes it, and the request the server makes of it in a context left by an earlier one.\<close>

record http_msg =
  hm_method :: http_method
  hm_path :: string
  hm_query :: string
  hm_version :: http_version
  hm_headers :: "(string \<times> string) list"

definition print_msg :: "http_msg \<Rightarrow> string" where
  "print_msg q = request_line (hm_method q) (hm_path q) (hm_query q) (hm_version q) @ kCRLF @ print_headers (hm_headers q) @ kCRLF"

definition msg_ok :: "http_msg \<Rightarrow> bool" where
  "msg_ok q \<longleftrightarrow> line_ok (hm_method q) (hm_path q) (hm_query q) (hm_version q) \<and> (\<forall>h \<in> set (hm_headers q). header_ok h) \<and>
    2 * length (print_msg q) \<le> buf_limit"

definition parsed :: "http_msg \<Rightarrow> time_point \<Rightarrow> http_request \<Rightarrow> http_request" where
  "parsed q t rq = printed_request (hm_method q) (hm_path q) (hm_query q) (hm_version q) (hm_headers q) t rq"

text \<open>A read event: what arrived, when, and what the write of an answer would do. The server handles one after the other.\<close>

type_synonym read_event = "string \<times> time_point \<times> write_result"

fun serve :: "http_callback \<Rightarrow> read_event list \<Rightarrow> http_conn \<Rightarrow> http_conn res" where
  "serve cb [] c = Inr c"
| "serve cb ((d, t, r) # es) c = rbind (handleRead (with_owner (http_callbacks cb r)) True (ReadvOk d) t c) (serve cb es)"

fun event_ok :: "read_event \<Rightarrow> bool" where
  "event_ok (d, t, r) \<longleftrightarrow> d \<noteq> [] \<and> length d \<le> extrabuf_size \<and> \<not> write_fault r"

definition delivers :: "http_msg \<Rightarrow> read_event list \<Rightarrow> bool" where
  "delivers q es \<longleftrightarrow> concat (map fst es) = print_msg q \<and> list_all event_ok es"

definition event_times :: "read_event list \<Rightarrow> time_point set" where
  "event_times es = (\<lambda>(d, t, r). t) ` set es"

text \<open>The text of all answers; the context of a request is what \<^verbatim>\<open>reset\<close> leaves of the one before.\<close>

fun answers :: "http_callback \<Rightarrow> (http_msg \<times> time_point) list \<Rightarrow> http_request \<Rightarrow> string" where
  "answers cb [] rq = []"
| "answers cb ((q, t) # qs) rq =
    response_text (answer cb (parsed q t rq)) @ answers cb qs (fst (swap_request (parsed q t rq) new_HttpRequest))"

section \<open>One request\<close>

text \<open>
  The parser, with \<open>s\<close> in the buffer, waits for \<open>x\<close> to complete the request \<open>q\<close>, whose time is that of a read event so far
  or of the next one.
\<close>

definition awaits :: "http_msg \<Rightarrow> http_request \<Rightarrow> time_point set \<Rightarrow> http_context \<Rightarrow> string \<Rightarrow> string \<Rightarrow> bool" where
  "awaits q rq T cx s x \<longleftrightarrow> parsing cx \<and> 2 * length (s @ x) \<le> buf_limit \<and>
    (\<forall>t'. \<exists>t \<in> insert t' T. \<exists>cx'. http_spec cx (s @ x) t' = Inr (True, cx', []) \<and> gotAll cx' \<and> cx_request cx' = parsed q t rq)"

lemma awaits_start:
  assumes "msg_ok q" and "cx_state cx = ExpectRequestLine" "rq_method (cx_request cx) = MInvalid"
  shows "awaits q (cx_request cx) {} cx [] (print_msg q)"
  using http_spec_printed [OF assms(2,3), of "hm_method q" "hm_path q" "hm_query q" "hm_version q" "hm_headers q" "[]"] assms
  by (simp add: awaits_def msg_ok_def print_msg_def parsed_def parsing_def gotAll_def)

lemma awaits_part:
  assumes "awaits q rq T cx s (d @ x)" and "x \<noteq> []"
  obtains cx' s' where "http_spec cx (s @ d) t = Inr (True, cx', s')" "\<not> gotAll cx'" "awaits q rq (insert t T) cx' s' x"
proof -
  from assms(1) have p: "parsing cx" and len: "2 * length (s @ d @ x) \<le> buf_limit"
    and all: "\<exists>u \<in> insert t' T. \<exists>cx'. http_spec cx ((s @ d) @ x) t' = Inr (True, cx', []) \<and> gotAll cx' \<and> cx_request cx' = parsed q u rq" for t'
    by (simp_all add: awaits_def)
  from all [of t] obtain u cxf where
    u: "u \<in> insert t T" "http_spec cx ((s @ d) @ x) t = Inr (True, cxf, [])" "gotAll cxf" "cx_request cxf = parsed q u rq" by blast
  from http_spec_part [OF p u(2) assms(2)] obtain cx' s' where
    1: "http_spec cx (s @ d) t = Inr (True, cx', s')" "\<not> gotAll cx'" "parsing cx'" "http_spec cx' (s' @ x) t = Inr (True, cxf, [])" .
  have "\<exists>u \<in> insert t' (insert t T). \<exists>cx''. http_spec cx' (s' @ x) t' = Inr (True, cx'', []) \<and> gotAll cx'' \<and> cx_request cx'' = parsed q u rq" for t'
  proof (cases "cx_state cx' = ExpectRequestLine")
    case True
    from http_spec_same [OF p 1(1) True] all [of t'] show ?thesis by auto
  next
    case False
    with 1(3,4) http_spec_time [of cx' "s' @ x" t' t] have "http_spec cx' (s' @ x) t' = Inr (True, cxf, [])" by (simp add: parsing_def)
    with u show ?thesis by auto
  qed
  moreover have "2 * length (s' @ x) \<le> buf_limit" using http_spec_rest [OF 1(1)] len by simp
  ultimately have "awaits q rq (insert t T) cx' s' x" using 1(3) by (simp add: awaits_def)
  with 1 that show thesis by blast
qed

text \<open>The connection between two requests: nothing in the buffer, and a context that holds \<open>rq\<close> from before.\<close>

definition ready :: "http_request \<Rightarrow> http_conn \<Rightarrow> bool" where
  "ready rq c \<longleftrightarrow> conn_ok c \<and> content (tc_input c) = [] \<and>
    (case tc_context c of None \<Rightarrow> False
     | Some cx \<Rightarrow> cx_state cx = ExpectRequestLine \<and> rq_method (cx_request cx) = MInvalid \<and> cx_request cx = rq)"

lemma ready_reset:
  "conn_ok c \<Longrightarrow> content (tc_input c) = [] \<Longrightarrow> tc_context c = Some (reset_context cx) \<Longrightarrow>
    ready (fst (swap_request (cx_request cx) new_HttpRequest)) c"
  by (simp add: ready_def reset_context_ready(1) reset_context_ready(3) swap_request_def new_HttpRequest_def)

lemma fits_awaits:
  assumes "awaits q rq T cx (content (tc_input c)) (d @ x)" and "length d \<le> extrabuf_size"
  shows "fits_input c d"
  using assms by (auto simp: awaits_def fits_input_def simp del: length_content)

lemma serve_request:
  assumes "conn_ok c" "connected c" "tc_context c = Some cx"
    and "awaits q rq T cx (content (tc_input c)) (concat (map fst es))" and "list_all event_ok es" "es \<noteq> []"
    and "\<forall>t. answer_fits cb (parsed q t rq) c"
  shows "\<exists>c'. \<exists>t \<in> T \<union> event_times es. serve cb es c = Inr c' \<and>
    stream c' = stream c @ response_text (answer cb (parsed q t rq)) \<and> (connected c' \<longleftrightarrow> \<not> rs_closeConnection (answer cb (parsed q t rq))) \<and>
    ready (fst (swap_request (parsed q t rq) new_HttpRequest)) c'"
  using assms
proof (induction es arbitrary: c cx T)
  case (Cons e es)
  obtain d t r where e: "e = (d, t, r)" by (cases e) auto
  let ?x = "concat (map fst es)"
  have aw: "awaits q rq T cx (content (tc_input c)) (d @ ?x)" using Cons.prems(4) by (simp add: e)
  have ev: "d \<noteq> []" "length d \<le> extrabuf_size" "\<not> write_fault r" "list_all event_ok es"
    using Cons.prems(5) by (simp_all add: e)
  note fits = fits_awaits [OF aw ev(2)]
  from aw have p: "parsing cx" by (simp add: awaits_def)
  have times: "event_times (e # es) = insert t (event_times es)" by (simp add: e event_times_def)
  show ?case
  proof (cases "es = []")
    case True
    with aw obtain u cx' where u: "u \<in> insert t T" "http_spec cx (content (tc_input c) @ d) t = Inr (True, cx', [])" "gotAll cx'"
      "cx_request cx' = parsed q u rq" unfolding awaits_def by fastforce
    with handleRead_complete [OF Cons.prems(1-3) p ev(1) fits u(2,3), of cb r] Cons.prems(7) ev(3) obtain c' where
      c': "handleRead (with_owner (http_callbacks cb r)) True (ReadvOk d) t c = Inr c'" "conn_ok c'"
        "stream c' = stream c @ response_text (answer cb (parsed q u rq))"
        "connected c' \<longleftrightarrow> \<not> rs_closeConnection (answer cb (parsed q u rq))" "content (tc_input c') = []" "tc_context c' = Some (reset_context cx')"
      by auto
    have "serve cb (e # es) c = Inr c'" using c'(1) True by (simp add: e)
    with c' u(1) ready_reset [OF c'(2,5,6)] u(4) times show ?thesis by auto
  next
    case False
    then obtain e1 es1 where "es = e1 # es1" by (cases es) auto
    with ev(4) have "?x \<noteq> []" by (cases e1) auto
    from awaits_part [OF aw this, of t] obtain cx' s' where
      1: "http_spec cx (content (tc_input c) @ d) t = Inr (True, cx', s')" "\<not> gotAll cx'" "awaits q rq (insert t T) cx' s' ?x" .
    from handleRead_pending [OF Cons.prems(1,3) p ev(1) fits 1(1,2), of cb r] obtain b where
      b: "handleRead (with_owner (http_callbacks cb r)) True (ReadvOk d) t c = Inr (c\<lparr>tc_input := b, tc_context := Some cx'\<rparr>)"
        "buf_inv b" "content b = s'" by blast
    let ?c = "c\<lparr>tc_input := b, tc_context := Some cx'\<rparr>"
    have c: "conn_ok ?c" "connected ?c" "stream ?c = stream c" "\<forall>t. answer_fits cb (parsed q t rq) ?c"
      using Cons.prems(1,2,7) b(2) by (simp_all add: conn_ok_def conn_inv_def conn_open_def connected_def stream_def answer_fits_def)
    have "serve cb (e # es) c = serve cb es ?c" using b(1) by (simp add: e)
    with Cons.IH [OF c(1,2) _ _ ev(4) False c(4)] 1(3) b(3) c(3) times show ?thesis by fastforce
  qed
qed simp

section \<open>A session\<close>

text \<open>
  A callback with bounded answers that lets a client go on: it asks to close the connection for none of the requests of the
  session, whenever they come and whatever query the context holds from before.
\<close>

definition bounded_answers :: "http_callback \<Rightarrow> nat \<Rightarrow> bool" where
  "bounded_answers cb M \<longleftrightarrow> M < 10000000000000 \<and> (\<forall>req. length (response_text (answer cb req)) \<le> M)"

definition keeps_alive :: "http_callback \<Rightarrow> http_msg \<Rightarrow> bool" where
  "keeps_alive cb q \<longleftrightarrow> (\<forall>t rq. rq_headers rq = Map.empty \<longrightarrow> \<not> rs_closeConnection (answer cb (parsed q t rq)))"

lemma body_response: "length (rs_body r) \<le> length (response_text r)"
  by (simp add: response_text_def)

lemma answer_fits_stream:
  assumes "bounded_answers cb M" and "length (stream c) + 2 * M \<le> buf_limit"
  shows "answer_fits cb req c"
proof -
  from assms(1) have M: "M < 10000000000000" "length (response_text (answer cb req)) \<le> M" by (auto simp: bounded_answers_def)
  with body_response [of "answer cb req"] have "length (rs_body (answer cb req)) < 10000000000000" by linarith
  moreover have "length (content (tc_output c)) \<le> length (stream c)" by (simp add: stream_def del: length_content)
  ultimately show ?thesis using M(2) assms(2) unfolding answer_fits_def by linarith
qed

lemma serve_append: "serve cb (es @ es') c = rbind (serve cb es c) (serve cb es')"
proof (induction es arbitrary: c)
  case (Cons e es)
  obtain d t r where "e = (d, t, r)" by (cases e) auto
  with Cons.IH show ?case by (cases "handleRead (with_owner (http_callbacks cb r)) True (ReadvOk d) t c") simp_all
qed simp

lemma print_msg_nonempty: "print_msg q \<noteq> []"
  by (simp add: print_msg_def kCRLF_def)

lemma serve_session:
  assumes "ready rq c" "connected c" "rq_headers rq = Map.empty" and "\<forall>(q, es) \<in> set ms. msg_ok q \<and> delivers q es \<and> keeps_alive cb q"
    and "bounded_answers cb M" and "length (stream c) + 2 * length ms * M \<le> buf_limit"
  shows "\<exists>c' ts rq'. list_all2 (\<lambda>(q, es) t. t \<in> event_times es) ms ts \<and> serve cb (concat (map snd ms)) c = Inr c' \<and>
    connected c' \<and> ready rq' c' \<and> stream c' = stream c @ answers cb (zip (map fst ms) ts) rq"
  using assms
proof (induction ms arbitrary: c rq)
  case Nil
  then show ?case by auto
next
  case (Cons m ms)
  obtain q es where m: "m = (q, es)" by (cases m) auto
  have q: "msg_ok q" "concat (map fst es) = print_msg q" "list_all event_ok es" "keeps_alive cb q"
    using Cons.prems(4) by (auto simp: m delivers_def)
  from q(2) print_msg_nonempty [of q] have es: "es \<noteq> []" by auto
  from Cons.prems(1) obtain cx where cx: "conn_ok c" "content (tc_input c) = []" "tc_context c = Some cx" "cx_state cx = ExpectRequestLine"
    "rq_method (cx_request cx) = MInvalid" "cx_request cx = rq" by (auto simp: ready_def split: option.splits)
  have room: "length (stream c) + 2 * M + 2 * length ms * M \<le> buf_limit" using Cons.prems(6) by (simp add: algebra_simps)
  then have "\<forall>t. answer_fits cb (parsed q t rq) c" using answer_fits_stream [OF Cons.prems(5)] by simp
  with serve_request [OF cx(1) Cons.prems(2) cx(3) _ q(3) es, where q = q and rq = rq and T = "{}" and cb = cb] awaits_start [OF q(1) cx(4,5)] cx(2,6) q(2)
  obtain c1 t where c1: "t \<in> event_times es" "serve cb es c = Inr c1" "stream c1 = stream c @ response_text (answer cb (parsed q t rq))"
    "connected c1 \<longleftrightarrow> \<not> rs_closeConnection (answer cb (parsed q t rq))" "ready (fst (swap_request (parsed q t rq) new_HttpRequest)) c1"
    by auto
  let ?rq = "fst (swap_request (parsed q t rq) new_HttpRequest)"
  have "connected c1" using c1(4) q(4) Cons.prems(3) by (simp add: keeps_alive_def)
  moreover have "length (stream c1) + 2 * length ms * M \<le> buf_limit"
    using c1(3) room Cons.prems(5) [unfolded bounded_answers_def, THEN conjunct2, THEN spec, of "parsed q t rq"] by simp
  moreover have "rq_headers ?rq = Map.empty" by (simp add: swap_request_def new_HttpRequest_def)
  ultimately obtain c' ts rq' where
    "list_all2 (\<lambda>(q, es) t. t \<in> event_times es) ms ts" "serve cb (concat (map snd ms)) c1 = Inr c'" "connected c'" "ready rq' c'"
    "stream c' = stream c1 @ answers cb (zip (map fst ms) ts) ?rq"
    using Cons.IH [OF c1(5)] Cons.prems(4,5) by auto
  with c1(1-3) m show ?case by (intro exI [of _ c'] exI [of _ "t # ts"] exI [of _ rq']) (simp add: serve_append)
qed

text \<open>
  C5: A keep-alive session is served in order. A client sends any number of well-formed requests over one connection, each
  in any number of pieces, the next one after the last piece of the one before. Then no read event fails, and the
  bytes that go out are exactly the texts of the answers to the parsed requests, in the order of the requests; each request
  has the time of a read event that brought a piece of it; the connection stays open and ready for a further request.
\<close>

theorem http_session:
  assumes "conn_ok c" "connected c" and "tc_context c = Some new_HttpContext" "content (tc_input c) = []"
    and "\<forall>(q, es) \<in> set ms. msg_ok q \<and> delivers q es \<and> keeps_alive cb q"
    and "bounded_answers cb M" and "length (stream c) + 2 * length ms * M \<le> buf_limit"
  shows "\<exists>c' ts cx. list_all2 (\<lambda>(q, es) t. t \<in> event_times es) ms ts \<and> serve cb (concat (map snd ms)) c = Inr c' \<and>
    stream c' = stream c @ answers cb (zip (map fst ms) ts) new_HttpRequest \<and> conn_ok c' \<and> connected c' \<and>
    content (tc_input c') = [] \<and> tc_context c' = Some cx \<and> cx_state cx = ExpectRequestLine"
proof -
  have "ready new_HttpRequest c" using assms(1,3,4) by (simp add: ready_def new_HttpContext_def new_HttpRequest_def)
  from serve_session [OF this assms(2) _ assms(5-7)] show ?thesis by (fastforce simp: ready_def new_HttpRequest_def split: option.splits)
qed

text \<open>The callback of the HTTP example (\<^verbatim>\<open>src/tests/test14.cpp\<close>), and two requests to it, the first in two pieces.\<close>

definition hello :: http_callback where
  "hello req resp = setBody (setStatusCode resp Status200Ok) ''hello, world!''"

definition get_msg :: http_msg where
  "get_msg = \<lparr>hm_method = MGet, hm_path = ''/'', hm_query = [], hm_version = Http11, hm_headers = []\<rparr>"

definition hello_text :: string where
  "hello_text = ''HTTP/1.1 200'' @ kCRLF @ ''Content-Length: 13'' @ kCRLF @ ''Connection: Keep-Alive'' @ kCRLF @ kCRLF @ ''hello, world!''"

lemma hello_answer:
  "response_text (answer hello req) = (if wants_close req then ''HTTP/1.1 200'' @ kCRLF @ ''Connection: close'' @ kCRLF @ kCRLF @ ''hello, world!'' else hello_text)"
  "rs_closeConnection (answer hello req) = wants_close req"
  by (simp_all add: answer_def hello_def hello_text_def setBody_def setStatusCode_def new_HttpResponse_def response_text_def show_int_def)

lemma get_msg_alive: "rq_headers rq = Map.empty \<Longrightarrow> \<not> wants_close (parsed get_msg t rq)"
  by (simp add: wants_close_def parsed_def get_msg_def printed_request_def getHeader_def)

theorem http_session_witness:
  "\<exists>c'. serve hello [(''GET '', 1, WriteN 5), (''/ HTTP/1.1'' @ kCRLF @ kCRLF, 2, WriteN 5), (print_msg get_msg, 3, WriteN 0)] http_sample = Inr c' \<and>
    stream c' = hello_text @ hello_text \<and> connected c'"
proof -
  let ?e1 = "[(''GET '', 1, WriteN 5), (''/ HTTP/1.1'' @ kCRLF @ kCRLF, 2, WriteN 5)] :: read_event list"
  let ?e2 = "[(print_msg get_msg, 3, WriteN 0)] :: read_event list"
  have msg: "print_msg get_msg = ''GET / HTTP/1.1'' @ kCRLF @ kCRLF"
    by (simp add: print_msg_def get_msg_def request_line_def print_headers_def)
  then have "msg_ok get_msg" by (simp add: msg_ok_def get_msg_def line_ok_def kCRLF_def)
  moreover have "delivers get_msg ?e1" "delivers get_msg ?e2" by (simp_all add: delivers_def msg kCRLF_def extrabuf_size_def write_fault_def)
  moreover have "keeps_alive hello get_msg" by (simp add: keeps_alive_def hello_answer get_msg_alive)
  ultimately have ms: "\<forall>(q, es) \<in> set [(get_msg, ?e1), (get_msg, ?e2)]. msg_ok q \<and> delivers q es \<and> keeps_alive hello q" by simp
  have M: "bounded_answers hello 100" by (simp add: bounded_answers_def hello_answer hello_text_def kCRLF_def)
  have room: "length (stream http_sample) + 2 * length [(get_msg, ?e1), (get_msg, ?e2)] * 100 \<le> buf_limit" by simp
  have fresh: "rq_headers new_HttpRequest = Map.empty" "rq_headers (fst (swap_request rq new_HttpRequest)) = Map.empty" for rq
    by (simp_all add: new_HttpRequest_def swap_request_def)
  from http_session [OF http_sample_ok(1-3) _ ms M room] show ?thesis
    by (auto simp: list_all2_Cons1 hello_answer get_msg_alive fresh)
qed

end
