(* ===== verification/EchoServer.thy ===== *)
theory EchoServer
  imports TcpServer
begin

text \<open>
  The echo server of the repository (\<^verbatim>\<open>src/benchmark/mini_muduo_echo_server.cpp\<close>, and \<^verbatim>\<open>src/tests/test9.cpp\<close> with its thread
  pool): a user program on top of \<^verbatim>\<open>TcpServer\<close>. It keeps the contract of a client of connections, so its server is safe; and
  on each connection what it sends is what it received.
\<close>

section \<open>Model\<close>

definition echo_onMessage :: "write_result \<Rightarrow> time_point \<Rightarrow> 'ctx conn_fun" where
  "echo_onMessage r t c =
    rbind (retrieveAsString (tc_input c)) (\<lambda>(str, b). send no_callbacks True r str (c\<lparr>tc_input := b\<rparr>))"

definition echo_callbacks :: "write_result \<Rightarrow> 'ctx conn_callbacks" where
  "echo_callbacks r = setMessageCallback (echo_onMessage r) (default_callbacks r)"

text \<open>
  \<^verbatim>\<open>main\<close> of the benchmark, up to \<^verbatim>\<open>loop\<close>: \<open>fd\<close> and \<open>p\<close> are the listening socket and its channel, \<open>ret\<close> and \<open>ret'\<close> what \<^verbatim>\<open>bind\<close>
  and \<^verbatim>\<open>listen\<close> returned.
\<close>

definition echo_main ::
  "nat \<Rightarrow> (nat \<Rightarrow> nat) \<Rightarrow> int \<Rightarrow> int \<Rightarrow> int \<Rightarrow> nat \<Rightarrow> (nat \<Rightarrow> loop_cb epoller) \<Rightarrow> 'ctx tcp_server res" where
  "echo_main base laddr fd ret ret' p pollers =
    rbind (new_TcpServer base (InetAddress_port 9987) ''echo_server'' fd ret p pollers) (\<lambda>s.
    sv_start base laddr ret' (sv_setMessageCallback echo_onMessage s))"

text \<open>
  The test has the same message callback, a connection callback that only prints, and a number of threads when there is one
  on the command line.
\<close>

definition print_onConnection :: "'ctx conn_fun" where
  "print_onConnection c = Inr c"

definition test9_main ::
  "int option \<Rightarrow> nat \<Rightarrow> (nat \<Rightarrow> nat) \<Rightarrow> int \<Rightarrow> int \<Rightarrow> int \<Rightarrow> nat \<Rightarrow> (nat \<Rightarrow> loop_cb epoller) \<Rightarrow> 'ctx tcp_server res" where
  "test9_main threads base laddr fd ret ret' p pollers =
    rbind (new_TcpServer base (InetAddress_port 9987) ''server'' fd ret p pollers) (\<lambda>s.
    let s = sv_setMessageCallback echo_onMessage (sv_setConnectionCallback (\<lambda>r. print_onConnection) s) in
    rbind (case threads of None \<Rightarrow> Inr s | Some n \<Rightarrow> sv_setThreadNum n s) (sv_start base laddr ret'))"

section \<open>The contract\<close>

lemma echo_callbacks_simps [simp]:
  "cb_connection (echo_callbacks r) = Some defaultConnectionCallback" "cb_message (echo_callbacks r) = Some (echo_onMessage r)"
  "cb_writeComplete (echo_callbacks r) = None"
  by (simp_all add: echo_callbacks_def setMessageCallback_def setConnectionCallback_def default_callbacks_def no_callbacks_def)

text \<open>Nothing is left in the input buffer; what arrives has to fit the output buffer.\<close>

definition echo_inv :: "'ctx tcp_conn \<Rightarrow> bool" where
  "echo_inv c \<longleftrightarrow> content (tc_input c) = []"

definition echo_can_read :: "'ctx tcp_conn \<Rightarrow> string \<Rightarrow> bool" where
  "echo_can_read c d \<longleftrightarrow> length (content (tc_output c)) + 2 * length d \<le> buf_limit"

lemma echo_onMessage_ok:
  assumes ok: "conn_ok c" and room: "echo_can_read c d" and b: "buf_inv b" "content b = d"
  shows "\<exists>c'. echo_onMessage r t (c\<lparr>tc_input := b\<rparr>) = Inr c' \<and> conn_ok c' \<and> echo_inv c' \<and> same_place c' c \<and> same_notes c' c \<and>
    stream c' = stream c @ (if connected c then d else []) \<and> connected c' = connected c"
proof -
  let ?c = "c\<lparr>tc_input := retrieveAll b\<rparr>"
  have c: "conn_ok ?c" "same_place ?c c" "same_notes ?c c" "stream ?c = stream c" "connected ?c = connected c"
    using ok b(1) by (simp_all add: conn_ok_def conn_inv_def conn_open_def same_defs same_notes_def stream_def connected_def)
  from send_open [OF c(1), of d r] room obtain c' where
    c': "send no_callbacks True r d ?c = Inr c'" "conn_ok c'" "same_conn c' ?c" "same_notes c' ?c" "stream c' = stream ?c @ (if connected ?c then d else [])"
    by (auto simp: echo_can_read_def simp del: length_content)
  have "connected c' = connected c" "tc_input c' = retrieveAll b" "same_place c' c"
    using c'(3) c(2) same_place_trans [of c' ?c c] by (simp_all add: same_conn_def connected_def)
  with c c' b show ?thesis by (simp add: echo_onMessage_def retrieveAsString_ok echo_inv_def same_notes_def)
qed

interpretation ecl: conn_client echo_callbacks echo_inv echo_can_read
proof
  fix c :: "'a tcp_conn" and r
  assume "conn_ok c" "content (tc_input c) = []"
  then show "\<exists>f c'. cb_connection (echo_callbacks r) = Some f \<and> f c = Inr c' \<and> conn_ok c' \<and> echo_inv c' \<and> same_place c' c \<and> same_notes c' c"
    by (simp add: defaultConnectionCallback_def echo_inv_def same_notes_def)
next
  fix c :: "'a tcp_conn" and r
  assume "disconnected c"
  then show "\<exists>f c'. cb_connection (echo_callbacks r) = Some f \<and> f c = Inr c' \<and> disconnected c' \<and> tc_poller c' = tc_poller c \<and>
      same_place c' c \<and> same_notes c' c"
    by (simp add: defaultConnectionCallback_def same_notes_def)
next
  fix c :: "'a tcp_conn" and s b r t
  assume A: "conn_ok c" "echo_inv c" "echo_can_read c s" "buf_inv b" "content b = content (tc_input c) @ s"
  then have "content b = s" by (simp add: echo_inv_def)
  from echo_onMessage_ok [OF A(1,3,4) this, of r t]
  show "\<exists>f c'. cb_message (echo_callbacks r) = Some f \<and> f t (c\<lparr>tc_input := b\<rparr>) = Inr c' \<and> conn_ok c' \<and> echo_inv c' \<and>
      same_place c' c \<and> same_notes c' c" by auto
qed (simp_all add: echo_inv_def echo_can_read_def)

section \<open>Events of one connection\<close>

datatype echo_ev = EchoRead string time_point write_result | EchoWritable write_result

fun echo_step :: "'ctx tcp_conn \<Rightarrow> echo_ev \<Rightarrow> 'ctx tcp_conn res" where
  "echo_step c (EchoRead d t r) = handleRead (with_owner (echo_callbacks r)) True (ReadvOk d) t c"
| "echo_step c (EchoWritable w) = handleWrite (with_owner (echo_callbacks (WriteN 0))) True w c"

text \<open>The specification: the bytes received so far, in order.\<close>

fun echo_spec :: "string \<Rightarrow> echo_ev \<Rightarrow> string option" where
  "echo_spec s (EchoRead d t r) =
    (if d \<noteq> [] \<and> length d \<le> extrabuf_size \<and> length s + 2 * length d \<le> buf_limit then Some (s @ d) else None)"
| "echo_spec s (EchoWritable w) = Some s"

definition echo_ok :: "'ctx tcp_conn \<Rightarrow> bool" where
  "echo_ok c \<longleftrightarrow> conn_ok c \<and> connected c \<and> echo_inv c"

lemma echo_read:
  assumes c: "echo_ok c" and d: "d \<noteq> []" "length d \<le> extrabuf_size" "length (stream c) + 2 * length d \<le> buf_limit"
  shows "\<exists>c'. handleRead (with_owner (echo_callbacks r)) True (ReadvOk d) t c = Inr c' \<and> echo_ok c' \<and> stream c' = stream c @ d"
proof -
  from c have ok: "conn_ok c" "connected c" "content (tc_input c) = []" by (simp_all add: echo_ok_def echo_inv_def)
  then have "buf_inv (tc_input c)" by (simp add: conn_ok_def conn_inv_def)
  from readFd_ok [OF this, of d] d ok(3) obtain b where
    b: "readFd (tc_input c) (ReadvOk d) = Inr (int (length d), None, b)" "buf_inv b" "content b = d"
    by (auto simp del: length_content)
  have "echo_can_read c d" using d(3) by (simp add: echo_can_read_def stream_def del: length_content)
  from echo_onMessage_ok [OF ok(1) this b(2,3), of r t] b(1) d(1) ok(2) show ?thesis
    by (auto simp: handleRead_def call_function_def echo_ok_def)
qed

lemma echo_sim:
  assumes "echo_ok c" and "echo_spec (stream c) e = Some s"
  shows "\<exists>c'. echo_step c e = Inr c' \<and> echo_ok c' \<and> stream c' = s"
proof (cases e)
  case (EchoRead d t r)
  with assms echo_read [OF assms(1), of d r t] show ?thesis by (auto split: if_splits)
next
  case (EchoWritable w)
  from assms(1) have ok: "conn_ok c" "connected c" "echo_inv c" by (simp_all add: echo_ok_def)
  from ok(1) have inv: "conn_inv c" by (simp add: conn_ok_def)
  from ecl.writable [OF ok(1,3), of "WriteN 0" w] handleWrite_ok [OF inv, of "with_owner (echo_callbacks (WriteN 0))" w] ok(2)
  obtain c' where "handleWrite (with_owner (echo_callbacks (WriteN 0))) True w c = Inr c'" "echo_ok c'" "stream c' = stream c"
    by (auto simp: echo_ok_def connected_def)
  with assms(2) EchoWritable show ?thesis by simp
qed

interpretation esim: forward_simulation echo_step echo_spec echo_ok stream
  by unfold_locales (rule echo_sim)

fun received :: "echo_ev list \<Rightarrow> string" where
  "received [] = []"
| "received (EchoRead d t r # es) = d @ received es"
| "received (EchoWritable w # es) = received es"

fun echo_good :: "echo_ev \<Rightarrow> bool" where
  "echo_good (EchoRead d t r) \<longleftrightarrow> d \<noteq> [] \<and> length d \<le> extrabuf_size"
| "echo_good (EchoWritable w) \<longleftrightarrow> True"

lemma echo_spec_received:
  "list_all echo_good es \<Longrightarrow> length s + 2 * length (received es) \<le> buf_limit \<Longrightarrow> run_spec echo_spec s es = Some (s @ received es)"
proof (induction es arbitrary: s)
  case (Cons e es)
  then show ?case by (cases e) simp_all
qed simp

lemma echo_writable_steps:
  "run_steps echo_step c (map EchoWritable rs) = run_steps (conn_step (with_owner (echo_callbacks (WriteN 0)))) c (map OpWritable rs)"
proof (induction rs arbitrary: c)
  case (Cons r rs)
  then show ?case by (cases "handleWrite (with_owner (echo_callbacks (WriteN 0))) True r c") simp_all
qed simp

section \<open>Properties\<close>

text \<open>
  C19: The echo server sends back what it receives, byte for byte and in order. Whatever the sizes of the pieces in which data
  arrives and however much of it the kernel takes or refuses at each write, what is on the wire followed by what is still
  buffered is exactly what was received; and when the kernel then takes at least a byte at each writable event, as many
  events as there were bytes put all of it on the wire.
\<close>

theorem echo_exact:
  assumes "conn_ok c" "connected c" "content (tc_input c) = []" "stream c = []"
    and "list_all echo_good es" and "2 * length (received es) \<le> buf_limit"
    and "list_all (\<lambda>r. \<exists>n > 0. r = WriteN n) rs" and "length (received es) \<le> length rs"
  shows "\<exists>c1 c2. run_steps echo_step c es = Inr c1 \<and> tc_wire c1 @ content (tc_output c1) = received es \<and> connected c1 \<and>
    run_steps echo_step c1 (map EchoWritable rs) = Inr c2 \<and> tc_wire c2 = received es"
proof -
  have "echo_ok c" using assms(1-3) by (simp add: echo_ok_def echo_inv_def)
  moreover have "run_spec echo_spec (stream c) es = Some (received es)" using echo_spec_received [OF assms(5), of "[]"] assms(4,6) by simp
  ultimately obtain c1 where c1: "run_steps echo_step c es = Inr c1" "echo_ok c1" "stream c1 = received es"
    using esim.run_sim by blast
  have "length (content (tc_output c1)) \<le> length (stream c1)" by (simp add: stream_def del: length_content)
  with c1(3) assms(8) have len: "length (content (tc_output c1)) \<le> length rs" by simp
  from c1(2) have "conn_ok c1" by (simp add: echo_ok_def)
  from drain [OF this assms(7) len, of "with_owner (echo_callbacks (WriteN 0))"] obtain c2 where
    "run_steps echo_step c1 (map EchoWritable rs) = Inr c2" "stream c2 = stream c1" "content (tc_output c2) = []"
    unfolding echo_writable_steps by blast
  with c1 show ?thesis by (auto simp: stream_def echo_ok_def)
qed

theorem echo_exact_witness:
  "\<exists>c1 c2. run_steps echo_step sample_conn [EchoRead ''ab'' 1 (WriteN 1), EchoRead ''c'' 2 (WriteN 9), EchoWritable (WriteErr EAGAIN)] = Inr c1 \<and>
    tc_wire c1 @ content (tc_output c1) = ''abc'' \<and>
    run_steps echo_step c1 (map EchoWritable [WriteN 1, WriteN 1, WriteN 7]) = Inr c2 \<and> tc_wire c2 = ''abc''"
  using echo_exact [of sample_conn "[EchoRead ''ab'' 1 (WriteN 1), EchoRead ''c'' 2 (WriteN 9), EchoWritable (WriteErr EAGAIN)]"
      "[WriteN 1, WriteN 1, WriteN 7]"]
  by (auto simp: extrabuf_size_def)

text \<open>Both programs reach a started server with the callbacks of the echo.\<close>

lemma echo_started:
  assumes "\<forall>l. ep_inv (pollers l)" and "ep_heap (pollers base) p = None" "ep_channels (pollers base) fd = None"
    and "0 \<le> fd" "0 \<le> ret" "0 \<le> ret'" and "\<forall>n. threads = Some n \<longrightarrow> 0 \<le> n"
  obtains s0 s1 s :: "'ctx tcp_server"
  where "new_TcpServer base addr name fd ret p pollers = Inr s0" "sv_callbacks s0 = default_callbacks"
    "(case threads of None \<Rightarrow> Inr (s0\<lparr>sv_callbacks := echo_callbacks\<rparr>) | Some n \<Rightarrow> sv_setThreadNum n (s0\<lparr>sv_callbacks := echo_callbacks\<rparr>)) = Inr s1"
    "sv_start base laddr ret' s1 = Inr s" "server_ok echo_callbacks echo_inv s"
proof -
  let ?n = "case threads of None \<Rightarrow> 0 | Some n \<Rightarrow> n"
  have "0 \<le> ?n" using assms(7) by (simp split: option.splits)
  from server_started [OF assms(1-6) this, of addr name echo_callbacks laddr echo_inv] obtain s0 s1 s :: "'ctx tcp_server" where
    s: "new_TcpServer base addr name fd ret p pollers = Inr s0" "sv_callbacks s0 = default_callbacks"
      "sv_setThreadNum ?n (s0\<lparr>sv_callbacks := echo_callbacks\<rparr>) = Inr s1" "sv_start base laddr ret' s1 = Inr s" "server_ok echo_callbacks echo_inv s"
    by blast
  have "tp_numThreads (sv_pool s0) = 0" using s(1) by (auto simp: new_TcpServer_def new_EventLoopThreadPool_def res_Inr_iffs)
  with s(3) have "(case threads of None \<Rightarrow> Inr (s0\<lparr>sv_callbacks := echo_callbacks\<rparr>) | Some n \<Rightarrow> sv_setThreadNum n (s0\<lparr>sv_callbacks := echo_callbacks\<rparr>)) = Inr s1"
    by (auto simp: sv_setThreadNum_def setThreadNum_def split: option.splits)
  with s that show thesis by blast
qed

lemma echo_set:
  fixes s :: "'ctx tcp_server"
  assumes "sv_callbacks s = default_callbacks"
  shows "sv_setMessageCallback echo_onMessage s = s\<lparr>sv_callbacks := echo_callbacks\<rparr>"
    and "sv_setMessageCallback echo_onMessage (sv_setConnectionCallback (\<lambda>r. print_onConnection) s) = s\<lparr>sv_callbacks := echo_callbacks\<rparr>"
proof -
  have k: "(\<lambda>r. setMessageCallback (echo_onMessage r) (default_callbacks r)) = (echo_callbacks :: _ \<Rightarrow> 'ctx conn_callbacks)"
    by (simp add: echo_callbacks_def fun_eq_iff)
  then show "sv_setMessageCallback echo_onMessage s = s\<lparr>sv_callbacks := echo_callbacks\<rparr>"
    using assms by (simp add: sv_setMessageCallback_def)
  have p: "print_onConnection = (defaultConnectionCallback :: 'ctx conn_fun)" by (simp add: print_onConnection_def defaultConnectionCallback_def fun_eq_iff)
  have "setConnectionCallback defaultConnectionCallback (default_callbacks r) = (default_callbacks r :: 'ctx conn_callbacks)" for r
    by (simp add: setConnectionCallback_def setMessageCallback_def default_callbacks_def)
  with k show "sv_setMessageCallback echo_onMessage (sv_setConnectionCallback (\<lambda>r. print_onConnection) s) = s\<lparr>sv_callbacks := echo_callbacks\<rparr>"
    using assms by (simp add: sv_setMessageCallback_def sv_setConnectionCallback_def p)
qed

text \<open>
  No enabled run of the server fails, and its table of connections is exact after each; the excluded event is fatal.
\<close>

definition runs_safely :: "'ctx tcp_server \<Rightarrow> bool" where
  "runs_safely s \<longleftrightarrow> (\<forall>evs. enabled_run server_step (server_enabled echo_can_read) s evs \<longrightarrow>
    (\<exists>s'. run_steps server_step s evs = Inr s' \<and> connections_exact s' \<and> sv_apart s' \<and> double_close_fatal s'))"

lemma echo_runs: "server_ok echo_callbacks echo_inv s \<Longrightarrow> runs_safely s"
  unfolding runs_safely_def using ecl.server_run_report by blast

text \<open>
  C20: The echo programs run without failing, but for one kind of event: the benchmark and the test, this with any number of
  threads, start, and no run of their loops, with any interleaving of accepts, connection events and functors, fails an
  assertion or touches a destroyed object, as long as what is buffered for a connection stays below the largest buffer and no
  event reports a hang-up without \<^verbatim>\<open>POLLIN\<close> but with another readable condition whose read does not fail
  (\<open>hup_unread\<close>); the table of connections stays exact. Such an event with an end of stream, on a connection of
  the base loop, fails \<^verbatim>\<open>assert(n == 1)\<close> in every state reached.
\<close>

theorem echo_server_safe:
  assumes "\<forall>l. ep_inv (pollers l)" and "ep_heap (pollers base) p = None" "ep_channels (pollers base) fd = None"
    and "0 \<le> fd" "0 \<le> ret" "0 \<le> ret'" and "\<forall>n. threads = Some n \<longrightarrow> 0 \<le> n"
  shows "(\<exists>s :: 'ctx tcp_server. echo_main base laddr fd ret ret' p pollers = Inr s \<and> runs_safely s) \<and>
    (\<exists>s :: 'ctx tcp_server. test9_main threads base laddr fd ret ret' p pollers = Inr s \<and> runs_safely s)"
proof
  have none: "\<forall>n :: int. None = Some n \<longrightarrow> 0 \<le> n" by simp
  from echo_started [OF assms(1-6) none, of "InetAddress_port 9987" "''echo_server''" laddr] obtain s0 s1 s :: "'ctx tcp_server" where
    "new_TcpServer base (InetAddress_port 9987) ''echo_server'' fd ret p pollers = Inr s0" "sv_callbacks s0 = default_callbacks"
    "(case None of None \<Rightarrow> Inr (s0\<lparr>sv_callbacks := echo_callbacks\<rparr>) | Some n \<Rightarrow> sv_setThreadNum n (s0\<lparr>sv_callbacks := echo_callbacks\<rparr>)) = Inr s1"
    "sv_start base laddr ret' s1 = Inr s" "server_ok echo_callbacks echo_inv s" .
  then show "\<exists>s :: 'ctx tcp_server. echo_main base laddr fd ret ret' p pollers = Inr s \<and> runs_safely s"
    using echo_runs by (auto simp: echo_main_def echo_set(1))
  from echo_started [OF assms, of "InetAddress_port 9987" "''server''" laddr] obtain s0 s1 s :: "'ctx tcp_server" where
    "new_TcpServer base (InetAddress_port 9987) ''server'' fd ret p pollers = Inr s0" "sv_callbacks s0 = default_callbacks"
    "(case threads of None \<Rightarrow> Inr (s0\<lparr>sv_callbacks := echo_callbacks\<rparr>) | Some n \<Rightarrow> sv_setThreadNum n (s0\<lparr>sv_callbacks := echo_callbacks\<rparr>)) = Inr s1"
    "sv_start base laddr ret' s1 = Inr s" "server_ok echo_callbacks echo_inv s" .
  then show "\<exists>s :: 'ctx tcp_server. test9_main threads base laddr fd ret ret' p pollers = Inr s \<and> runs_safely s"
    using echo_runs by (cases threads) (auto simp: test9_main_def echo_set(2) Let_def)
qed

theorem echo_server_safe_witness:
  "(\<exists>s :: unit tcp_server. echo_main 0 Suc 3 0 0 7 (\<lambda>l. empty_poller) = Inr s \<and> runs_safely s) \<and>
   (\<exists>s :: unit tcp_server. test9_main (Some 3) 0 Suc 3 0 0 7 (\<lambda>l. empty_poller) = Inr s \<and> runs_safely s)"
  by (rule echo_server_safe) simp_all

end
