(* ===== verification/Connector.thy ===== *)
theory Connector
  imports TcpConnection
begin

text \<open>
  \<^verbatim>\<open>Connector\<close> (\<^verbatim>\<open>src/src/Connector.hpp\<close>, \<^verbatim>\<open>Connector.cpp\<close>): a state machine that makes nonblocking connection attempts
  with a growing delay between them. \<open>cn_open\<close> are the sockets it has created and neither closed nor handed over,
  \<open>cn_timers\<close> the retry timers that are armed, with their delay, \<open>cn_pending\<close> the functors it has queued in the loop.
  Closing a socket it does not own counts as an error.
\<close>

section \<open>Model\<close>

datatype connector_state = kDisconnected | kConnecting | kConnected

datatype connector_fn = FStartInLoop | FResetChannel

definition kMaxRetryDelayMs :: int where "kMaxRetryDelayMs = 30 * 1000"
definition kInitRetryDelayMs :: int where "kInitRetryDelayMs = 500"

record connector =
  cn_serverAddr :: InetAddress
  cn_connect :: bool
  cn_state :: connector_state
  cn_channel :: "nat option"
  cn_hasCallback :: bool
  cn_retryDelayMs :: int
  cn_timerId :: "nat option"
  cn_timers :: "(nat \<times> int) list"
  cn_nextTimer :: nat
  cn_pending :: "connector_fn list"
  cn_open :: "int list"
  cn_poller :: "loop_cb epoller"

definition new_Connector :: "InetAddress \<Rightarrow> loop_cb epoller \<Rightarrow> connector" where
  "new_Connector serverAddr w =
    \<lparr>cn_serverAddr = serverAddr, cn_connect = False, cn_state = kDisconnected, cn_channel = None, cn_hasCallback = False,
     cn_retryDelayMs = kInitRetryDelayMs, cn_timerId = None, cn_timers = [], cn_nextTimer = 0, cn_pending = [],
     cn_open = [], cn_poller = w\<rparr>"

definition setNewConnectionCallback :: "connector \<Rightarrow> connector" where
  "setNewConnectionCallback c = c\<lparr>cn_hasCallback := True\<rparr>"

text \<open>\<^verbatim>\<open>loop_->cancel(timerId_)\<close>; a default constructed \<^verbatim>\<open>TimerId\<close> names no timer.\<close>

definition cn_cancel :: "connector \<Rightarrow> connector" where
  "cn_cancel c = (case cn_timerId c of None \<Rightarrow> c | Some i \<Rightarrow> c\<lparr>cn_timers := filter (\<lambda>t. fst t \<noteq> i) (cn_timers c)\<rparr>)"

definition destroy_Connector :: "connector \<Rightarrow> connector res" where
  "destroy_Connector c = (let c = cn_cancel c in guard (cn_channel c = None) (AssertFail ''!channel_'') (Inr c))"

definition cn_close :: "int \<Rightarrow> connector \<Rightarrow> connector res" where
  "cn_close sockfd c = guard (sockfd \<in> set (cn_open c)) (UndefinedBehaviour ''close of a descriptor not owned'')
     (Inr (c\<lparr>cn_open := remove1 sockfd (cn_open c)\<rparr>))"

definition cn_retry :: "int \<Rightarrow> connector \<Rightarrow> connector res" where
  "cn_retry sockfd c =
    rbind (cn_close sockfd c) (\<lambda>c.
    let c = c\<lparr>cn_state := kDisconnected\<rparr> in
    if cn_connect c then
      Inr (c\<lparr>cn_timerId := Some (cn_nextTimer c), cn_timers := cn_timers c @ [(cn_nextTimer c, cn_retryDelayMs c)],
        cn_nextTimer := Suc (cn_nextTimer c), cn_retryDelayMs := min (cn_retryDelayMs c * 2) kMaxRetryDelayMs\<rparr>)
    else Inr c)"

definition cn_connecting :: "bool \<Rightarrow> nat \<Rightarrow> int \<Rightarrow> connector \<Rightarrow> connector res" where
  "cn_connecting il p sockfd c =
    (let c = c\<lparr>cn_state := kConnecting\<rparr> in
     guard (cn_channel c = None) (AssertFail ''!channel_'')
    (let ch = setErrorCallback CbConnectorError (setWriteCallback CbConnectorWrite (new_Channel sockfd));
         c = c\<lparr>cn_channel := Some p, cn_poller := ep_put p ch (cn_poller c)\<rparr>
     in rbind (ep_set_events il ev_enableWriting p (cn_poller c)) (\<lambda>w. Inr (c\<lparr>cn_poller := w\<rparr>))))"

text \<open>What \<^verbatim>\<open>connect\<close> does with the outcome of \<^verbatim>\<open>connect(2)\<close>, \<open>None\<close> for 0.\<close>

datatype connect_action = GoOn | Retry | GiveUp

definition connect_outcome :: "errno option \<Rightarrow> connect_action" where
  "connect_outcome e =
    (if e = None \<or> e \<in> Some ` {EINPROGRESS, EINTR, EISCONN} then GoOn
     else if e \<in> Some ` {EAGAIN, EADDRINUSE, EADDRNOTAVAIL, ECONNREFUSED, ENETUNREACH} then Retry
     else GiveUp)"

text \<open>An attempt: the new descriptor, the outcome of \<^verbatim>\<open>connect(2)\<close>, the address of the channel object.\<close>

type_synonym attempt = "int \<times> errno option \<times> nat"

definition cn_connect_now :: "bool \<Rightarrow> attempt \<Rightarrow> connector \<Rightarrow> connector res" where
  "cn_connect_now il a c =
    (let (fd, e, p) = a in
     rbind (createNonblockingOrDie fd) (\<lambda>sockfd.
     let c = c\<lparr>cn_open := sockfd # cn_open c\<rparr> in
     case connect_outcome e of
       GoOn \<Rightarrow> cn_connecting il p sockfd c
     | Retry \<Rightarrow> cn_retry sockfd c
     | GiveUp \<Rightarrow> cn_close sockfd c))"

definition cn_startInLoop :: "bool \<Rightarrow> attempt \<Rightarrow> connector \<Rightarrow> connector res" where
  "cn_startInLoop il a c =
    assertInLoopThread il
   (guard (cn_state c = kDisconnected) (AssertFail ''state_ == kDisconnected'')
   (if cn_connect c then cn_connect_now il a c else Inr c))"

definition cn_start :: "bool \<Rightarrow> attempt \<Rightarrow> connector \<Rightarrow> connector res" where
  "cn_start il a c =
    (let c = c\<lparr>cn_connect := True\<rparr> in
     if il then cn_startInLoop il a c else Inr (c\<lparr>cn_pending := cn_pending c @ [FStartInLoop]\<rparr>))"

definition cn_restart :: "bool \<Rightarrow> attempt \<Rightarrow> connector \<Rightarrow> connector res" where
  "cn_restart il a c =
    assertInLoopThread il
      (cn_startInLoop il a (c\<lparr>cn_state := kDisconnected, cn_retryDelayMs := kInitRetryDelayMs, cn_connect := True\<rparr>))"

definition cn_stop :: "connector \<Rightarrow> connector" where
  "cn_stop c = cn_cancel (c\<lparr>cn_connect := False\<rparr>)"

definition removeAndResetChannel :: "bool \<Rightarrow> connector \<Rightarrow> (int \<times> connector) res" where
  "removeAndResetChannel il c =
    (case cn_channel c of
       None \<Rightarrow> Inl (UndefinedBehaviour ''null channel'')
     | Some p \<Rightarrow>
         rbind (ep_set_events il ev_disableAll p (cn_poller c)) (\<lambda>w.
         rbind (ep_removeChannel il p w) (\<lambda>w.
         rbind (ep_chan w p) (\<lambda>ch.
         Inr (ch_fd ch, c\<lparr>cn_poller := w, cn_pending := cn_pending c @ [FResetChannel]\<rparr>)))))"

definition resetChannel :: "connector \<Rightarrow> connector res" where
  "resetChannel c =
    (case cn_channel c of
       None \<Rightarrow> Inr c
     | Some p \<Rightarrow>
         rbind (ep_chan (cn_poller c) p) (\<lambda>ch.
         rbind (destroy_Channel ch) (\<lambda>_.
         Inr (c\<lparr>cn_channel := None, cn_poller := (cn_poller c)\<lparr>ep_heap := (ep_heap (cn_poller c))(p := None)\<rparr>\<rparr>))))"

text \<open>
  \<^verbatim>\<open>handleWrite\<close>: the arguments are the outcomes of \<^verbatim>\<open>getsockopt\<close>, \<^verbatim>\<open>getsockname\<close> and \<^verbatim>\<open>getpeername\<close>; the result names the
  socket for which \<^verbatim>\<open>newConnectionCallback_\<close> is called as the last action.
\<close>

definition cn_handleWrite ::
  "bool \<Rightarrow> sockopt_result \<Rightarrow> sockaddr_in option \<Rightarrow> sockaddr_in option \<Rightarrow> connector \<Rightarrow> (int option \<times> connector) res" where
  "cn_handleWrite il so sn pn c =
    (if cn_state c = kConnecting then
       rbind (removeAndResetChannel il c) (\<lambda>(sockfd, c).
       if getSocketError so \<noteq> None then rbind (cn_retry sockfd c) (\<lambda>c. Inr (None, c))
       else if isSelfConnect sn pn then rbind (cn_retry sockfd c) (\<lambda>c. Inr (None, c))
       else
         let c = c\<lparr>cn_state := kConnected\<rparr> in
         if cn_connect c then
           guard (cn_hasCallback c) (StdException ''std::bad_function_call'')
             (Inr (Some sockfd, c\<lparr>cn_open := remove1 sockfd (cn_open c)\<rparr>))
         else rbind (cn_close sockfd c) (\<lambda>c. Inr (None, c)))
     else guard (cn_state c = kDisconnected) (AssertFail ''state_ == kDisconnected'') (Inr (None, c)))"

definition cn_handleError :: "bool \<Rightarrow> sockopt_result \<Rightarrow> connector \<Rightarrow> connector res" where
  "cn_handleError il so c =
    guard (cn_state c = kConnecting) (AssertFail ''state_ == kConnecting'')
   (rbind (removeAndResetChannel il c) (\<lambda>(sockfd, c). cn_retry sockfd c))"

text \<open>A queued functor of the connector, run by the loop.\<close>

definition run_connector_fn :: "attempt \<Rightarrow> connector_fn \<Rightarrow> connector \<Rightarrow> connector res" where
  "run_connector_fn a f c = (case f of FStartInLoop \<Rightarrow> cn_startInLoop True a c | FResetChannel \<Rightarrow> resetChannel c)"

section \<open>What happens to a connector\<close>

text \<open>
  The client starts, restarts and stops it; the loop reports events of its channel, runs its functors and its retry
  timers. One event may report an error and that the socket is writable: then \<^verbatim>\<open>handleError\<close> runs before
  \<^verbatim>\<open>handleWrite\<close>.
\<close>

datatype connector_ev =
    CnStart bool attempt
  | CnRestart attempt
  | CnStop
  | CnWritable sockopt_result "sockaddr_in option" "sockaddr_in option"
  | CnError sockopt_result
  | CnBoth sockopt_result sockopt_result "sockaddr_in option" "sockaddr_in option"
  | CnFunctor attempt
  | CnTimer nat attempt

fun connector_step :: "connector \<Rightarrow> connector_ev \<Rightarrow> connector res" where
  "connector_step c (CnStart il a) = cn_start il a c"
| "connector_step c (CnRestart a) = cn_restart True a c"
| "connector_step c CnStop = Inr (cn_stop c)"
| "connector_step c (CnWritable so sn pn) = rbind (cn_handleWrite True so sn pn c) (\<lambda>(given, c'). Inr c')"
| "connector_step c (CnError so) = cn_handleError True so c"
| "connector_step c (CnBoth so so' sn pn) =
    rbind (cn_handleError True so c) (\<lambda>c. rbind (cn_handleWrite True so' sn pn c) (\<lambda>(given, c'). Inr c'))"
| "connector_step c (CnFunctor a) = run_connector_fn a (hd (cn_pending c)) (c\<lparr>cn_pending := tl (cn_pending c)\<rparr>)"
| "connector_step c (CnTimer i a) = cn_startInLoop True a (c\<lparr>cn_timers := filter (\<lambda>t. fst t \<noteq> i) (cn_timers c)\<rparr>)"

definition attempt_ok :: "attempt \<Rightarrow> connector \<Rightarrow> bool" where
  "attempt_ok a c \<longleftrightarrow> (case a of (fd, e, p) \<Rightarrow>
     0 \<le> fd \<and> ep_channels (cn_poller c) fd = None \<and> ep_heap (cn_poller c) p = None)"

definition cn_idle :: "connector \<Rightarrow> bool" where
  "cn_idle c \<longleftrightarrow> cn_channel c = None \<and> cn_timers c = [] \<and> cn_pending c = []"

text \<open>The channel is in the kernel's interest list: only then an event is reported for it.\<close>

definition cn_watched :: "connector \<Rightarrow> bool" where
  "cn_watched c \<longleftrightarrow> (case cn_channel c of None \<Rightarrow> False | Some p \<Rightarrow>
     (case ep_heap (cn_poller c) p of None \<Rightarrow> False | Some ch \<Rightarrow>
       (case ep_interest (cn_poller c) (ch_fd ch) of None \<Rightarrow> False | Some (e, q) \<Rightarrow> e \<noteq> 0 \<and> q = p)))"

text \<open>
  When a step cannot go wrong. Of the loop: descriptors and addresses are fresh, an event is reported only for a watched
  channel, timers fire when no functor is left from an earlier iteration. Of the owner: it starts an idle connector that
  has not succeeded, and restarts an idle one.
\<close>

fun connector_enabled :: "connector \<Rightarrow> connector_ev \<Rightarrow> bool" where
  "connector_enabled c (CnStart il a) \<longleftrightarrow> cn_state c = kDisconnected \<and> cn_idle c \<and> attempt_ok a c"
| "connector_enabled c (CnRestart a) \<longleftrightarrow> cn_idle c \<and> attempt_ok a c"
| "connector_enabled c CnStop \<longleftrightarrow> True"
| "connector_enabled c (CnWritable so sn pn) \<longleftrightarrow> cn_watched c"
| "connector_enabled c (CnError so) \<longleftrightarrow> cn_watched c"
| "connector_enabled c (CnBoth so so' sn pn) \<longleftrightarrow> cn_watched c"
| "connector_enabled c (CnFunctor a) \<longleftrightarrow> cn_pending c \<noteq> [] \<and> attempt_ok a c"
| "connector_enabled c (CnTimer i a) \<longleftrightarrow> i \<in> fst ` set (cn_timers c) \<and> cn_pending c = [] \<and> attempt_ok a c"

section \<open>Invariant\<close>

definition delay_ok :: "int \<Rightarrow> bool" where
  "delay_ok d \<longleftrightarrow> (\<exists>n. d = min (kInitRetryDelayMs * 2 ^ n) kMaxRetryDelayMs)"

text \<open>
  The channel exists while an attempt is in progress, when it is registered and its socket is the one open socket,
  and from the end of the attempt until the queued functor destroys it, when it is not registered and no socket is open.
\<close>

definition cn_attempt :: "connector \<Rightarrow> bool" where
  "cn_attempt c \<longleftrightarrow> (case cn_channel c of
     None \<Rightarrow> cn_state c \<noteq> kConnecting \<and> cn_open c = [] \<and> set (cn_pending c) \<subseteq> {FStartInLoop}
   | Some p \<Rightarrow> (\<exists>ch. ep_heap (cn_poller c) p = Some ch \<and> \<not> ch_eventHandling ch \<and>
       (if cn_state c = kConnecting
        then ep_channels (cn_poller c) (ch_fd ch) = Some p \<and> cn_open c = [ch_fd ch] \<and> cn_pending c = []
        else ep_channels (cn_poller c) (ch_fd ch) \<noteq> Some p \<and> cn_open c = [] \<and> cn_pending c = [FResetChannel])))"

definition cn_timing :: "connector \<Rightarrow> bool" where
  "cn_timing c \<longleftrightarrow> delay_ok (cn_retryDelayMs c) \<and>
    (cn_timers c = [] \<or> cn_state c = kDisconnected \<and> FStartInLoop \<notin> set (cn_pending c) \<and>
      (\<exists>i d. cn_timers c = [(i, d)] \<and> cn_timerId c = Some i \<and> delay_ok d))"

definition cn_inv :: "connector \<Rightarrow> bool" where
  "cn_inv c \<longleftrightarrow> ep_inv (cn_poller c) \<and> cn_hasCallback c \<and> cn_attempt c \<and> cn_timing c \<and>
    (FStartInLoop \<in> set (cn_pending c) \<longrightarrow> cn_state c = kDisconnected \<and> cn_pending c = [FStartInLoop])"

lemma cn_watched_connecting:
  assumes inv: "cn_inv c" and w: "cn_watched c"
  shows "cn_state c = kConnecting"
proof -
  from w obtain p ch e where ch: "cn_channel c = Some p" "ep_heap (cn_poller c) p = Some ch" "ep_interest (cn_poller c) (ch_fd ch) = Some (e, p)"
    by (auto simp: cn_watched_def split: option.splits)
  from inv have ep: "ep_inv (cn_poller c)" and att: "cn_attempt c" by (simp_all add: cn_inv_def)
  from ep_inv_parts(3) [OF ep, of "ch_fd ch"] ch(3) obtain q where q: "ep_channels (cn_poller c) (ch_fd ch) = Some q" by auto
  with ep_inv_parts(1) [OF ep q] ep_invD [OF ep q] ch(3) have "q = p" by fastforce
  with q ch att show ?thesis by (auto simp: cn_attempt_def split: if_splits)
qed

lemma delay_ok_init [simp]: "delay_ok kInitRetryDelayMs"
  unfolding delay_ok_def by (rule exI [of _ 0]) (simp add: kInitRetryDelayMs_def kMaxRetryDelayMs_def)

lemma delay_ok_double: "delay_ok d \<Longrightarrow> delay_ok (min (d * 2) kMaxRetryDelayMs)"
proof -
  assume "delay_ok d"
  then obtain n where d: "d = min (kInitRetryDelayMs * 2 ^ n) kMaxRetryDelayMs" by (auto simp: delay_ok_def)
  then have "min (d * 2) kMaxRetryDelayMs = min (kInitRetryDelayMs * 2 ^ Suc n) kMaxRetryDelayMs"
    by (simp add: kInitRetryDelayMs_def kMaxRetryDelayMs_def min_def)
  then show ?thesis unfolding delay_ok_def by blast
qed

definition cn_chan :: "int \<Rightarrow> loop_cb channel" where
  "cn_chan sockfd = setErrorCallback CbConnectorError (setWriteCallback CbConnectorWrite (new_Channel sockfd))"

lemma cn_chan_simps [simp]: "ch_fd (cn_chan fd) = fd" "ch_index (cn_chan fd) = kNew" "\<not> ch_eventHandling (cn_chan fd)"
  by (simp_all add: cn_chan_def set_callback_defs new_Channel_def kNew_def)

text \<open>
  The part of the poller that an operation of the connector leaves alone: every channel but its own, every descriptor but
  those it owns.
\<close>

definition cn_frame :: "connector \<Rightarrow> connector \<Rightarrow> bool" where
  "cn_frame c c' \<longleftrightarrow>
    (\<forall>q. cn_channel c \<noteq> Some q \<longrightarrow> cn_channel c' \<noteq> Some q \<longrightarrow> ep_heap (cn_poller c') q = ep_heap (cn_poller c) q) \<and>
    (\<forall>g. g \<notin> set (cn_open c) \<longrightarrow> g \<notin> set (cn_open c') \<longrightarrow> ep_channels (cn_poller c') g = ep_channels (cn_poller c) g)"

lemma cn_frame_same: "cn_poller c' = cn_poller c \<Longrightarrow> cn_frame c c'"
  by (simp add: cn_frame_def)

text \<open>The poller operations on a channel that is not handling an event leave it so.\<close>

lemma ep_set_idle:
  assumes "ep_inv w" and "ep_heap w p = Some ch" and "\<not> ch_eventHandling ch"
    and own: "ep_channels w (ch_fd ch) = None \<or> ep_channels w (ch_fd ch) = Some p"
  obtains w' ch' where "ep_set_events True f p w = Inr w'" "ep_inv w'" "ep_heap w' p = Some ch'" "ch_fd ch' = ch_fd ch"
    "ch_events ch' = f (ch_events ch)" "\<not> ch_eventHandling ch'" "ep_channels w' = (ep_channels w)(ch_fd ch \<mapsto> p)"
    "poller_frame p (ch_fd ch) w w'"
proof -
  have "ep_can_set w p (f (ch_events ch))" using assms by (auto simp: ep_can_set_def)
  from epc.set_law [of w p ch f, OF assms(1,2) this] obtain w' where w': "ep_set_events True f p w = Inr w'" "ep_inv w'"
    "poller_frame p (ch_fd ch) w w'" by (fastforce simp: poller_frame_def)
  from ep_set_events_ok [OF assms(1,2) own refl, of f] w' assms(3) that show thesis by auto
qed

lemma ep_remove_idle:
  assumes "ep_inv w" and "ep_heap w p = Some ch" and "\<not> ch_eventHandling ch"
    and reg: "ep_channels w (ch_fd ch) = Some p" and none: "ch_events ch = 0"
  obtains w' ch' where "ep_removeChannel True p w = Inr w'" "ep_inv w'" "ep_heap w' p = Some ch'" "ch_fd ch' = ch_fd ch"
    "\<not> ch_eventHandling ch'" "ep_channels w' = (ep_channels w)(ch_fd ch := None)" "poller_frame p (ch_fd ch) w w'"
proof -
  from none have ne: "isNoneEvent ch" by (simp add: isNoneEvent_def kNoneEvent_def)
  with assms(2) have "ep_silenced w p" by (simp add: ep_silenced_def)
  from epc.remove_law [OF assms(1,2) reg this] obtain w' where w': "ep_removeChannel True p w = Inr w'" "ep_inv w'" by blast
  with ep_removeChannel_ok [OF assms(1,2) reg ne] assms(3) that show thesis by (auto simp: poller_frame_def)
qed

lemma cn_connecting_ok:
  assumes "ep_inv (cn_poller c)" and "cn_channel c = None"
    and "ep_heap (cn_poller c) p = None" and "ep_channels (cn_poller c) fd = None"
  shows "\<exists>w ch. cn_connecting True p fd c = Inr (c\<lparr>cn_state := kConnecting, cn_channel := Some p, cn_poller := w\<rparr>) \<and>
    ep_inv w \<and> ep_heap w p = Some ch \<and> ch_fd ch = fd \<and> \<not> ch_eventHandling ch \<and> ep_channels w fd = Some p \<and>
    poller_frame p fd (cn_poller c) w"
proof -
  let ?w = "ep_put p (cn_chan fd) (cn_poller c)"
  obtain w ch where "ep_set_events True ev_enableWriting p ?w = Inr w" "ep_inv w" "ep_heap w p = Some ch"
    "ch_fd ch = ch_fd (cn_chan fd)" "\<not> ch_eventHandling ch" "ep_channels w = (ep_channels ?w)(ch_fd (cn_chan fd) \<mapsto> p)" "poller_frame p (ch_fd (cn_chan fd)) ?w w"
    by (rule ep_set_idle [of ?w p "cn_chan fd" ev_enableWriting])
      (use assms in \<open>simp_all add: ep_inv_new, simp_all add: ep_put_def\<close>)
  with assms(2) show ?thesis
    by (intro exI [of _ w]) (simp add: cn_connecting_def poller_frame_def flip: cn_chan_def, simp add: ep_put_def)
qed

lemma removeAndResetChannel_ok:
  assumes inv: "ep_inv (cn_poller c)" and st: "cn_attempt c" "cn_state c = kConnecting"
  shows "\<exists>p fd w ch. cn_channel c = Some p \<and> cn_open c = [fd] \<and> cn_pending c = [] \<and>
    removeAndResetChannel True c = Inr (fd, c\<lparr>cn_poller := w, cn_pending := [FResetChannel]\<rparr>) \<and>
    ep_inv w \<and> ep_heap w p = Some ch \<and> ch_fd ch = fd \<and> \<not> ch_eventHandling ch \<and> ep_channels w fd = None \<and>
    poller_frame p fd (cn_poller c) w"
proof -
  from st obtain p ch where ch: "cn_channel c = Some p" "ep_heap (cn_poller c) p = Some ch" "\<not> ch_eventHandling ch"
    "ep_channels (cn_poller c) (ch_fd ch) = Some p" "cn_open c = [ch_fd ch]" "cn_pending c = []"
    by (auto simp: cn_attempt_def split: option.splits)
  obtain w1 ch1 where w1: "ep_set_events True ev_disableAll p (cn_poller c) = Inr w1" "ep_inv w1" "ep_heap w1 p = Some ch1"
    "ch_fd ch1 = ch_fd ch" "ch_events ch1 = ev_disableAll (ch_events ch)" "\<not> ch_eventHandling ch1"
    "ep_channels w1 = (ep_channels (cn_poller c))(ch_fd ch \<mapsto> p)" "poller_frame p (ch_fd ch) (cn_poller c) w1"
    by (rule ep_set_idle [of "cn_poller c" p ch ev_disableAll]) (use inv ch in auto)
  obtain w2 ch2 where "ep_removeChannel True p w1 = Inr w2" "ep_inv w2" "ep_heap w2 p = Some ch2"
    "ch_fd ch2 = ch_fd ch1" "\<not> ch_eventHandling ch2" "ep_channels w2 = (ep_channels w1)(ch_fd ch1 := None)" "poller_frame p (ch_fd ch1) w1 w2"
    by (rule ep_remove_idle [of w1 p ch1]) (use w1 in \<open>auto simp: ev_disableAll_def kNoneEvent_def\<close>)
  with ch w1 show ?thesis
    by (intro exI [of _ p] exI [of _ "ch_fd ch"] exI [of _ w2]) (simp add: removeAndResetChannel_def ep_chan_def poller_frame_def)
qed

text \<open>The two ways an attempt ends early.\<close>

definition armed :: "connector \<Rightarrow> connector" where
  "armed c = (if cn_connect c
     then c\<lparr>cn_timerId := Some (cn_nextTimer c), cn_timers := cn_timers c @ [(cn_nextTimer c, cn_retryDelayMs c)],
       cn_nextTimer := Suc (cn_nextTimer c), cn_retryDelayMs := min (cn_retryDelayMs c * 2) kMaxRetryDelayMs\<rparr>
     else c)"

lemma cn_retry_ok: "cn_open c = [fd] \<Longrightarrow> cn_retry fd c = Inr (armed (c\<lparr>cn_state := kDisconnected, cn_open := []\<rparr>))"
  by (simp add: cn_retry_def cn_close_def armed_def Let_def)

lemma armed_simps [simp]:
  "cn_state (armed c) = cn_state c" "cn_channel (armed c) = cn_channel c" "cn_open (armed c) = cn_open c"
  "cn_pending (armed c) = cn_pending c" "cn_poller (armed c) = cn_poller c" "cn_hasCallback (armed c) = cn_hasCallback c"
  by (simp_all add: armed_def)

lemma armed_timing:
  "cn_timers c = [] \<Longrightarrow> cn_state c = kDisconnected \<Longrightarrow> FStartInLoop \<notin> set (cn_pending c) \<Longrightarrow> delay_ok (cn_retryDelayMs c) \<Longrightarrow>
   cn_timing (armed c)"
  by (simp add: cn_timing_def armed_def delay_ok_double)

text \<open>An attempt made by an idle connector.\<close>

lemma cn_connect_now_ok:
  assumes inv: "ep_inv (cn_poller c)" "cn_hasCallback c" "delay_ok (cn_retryDelayMs c)"
    and idle: "cn_idle c" "cn_state c = kDisconnected" "cn_open c = []" and a: "attempt_ok a c"
  shows "\<exists>c'. cn_connect_now True a c = Inr c' \<and> cn_inv c' \<and> cn_frame c c'"
proof -
  obtain fd e p where fd: "a = (fd, e, p)" "0 \<le> fd" "ep_channels (cn_poller c) fd = None" "ep_heap (cn_poller c) p = None"
    using a by (auto simp: attempt_ok_def split: prod.splits)
  let ?c = "c\<lparr>cn_open := [fd]\<rparr>"
  have create: "createNonblockingOrDie fd = Inr fd" using fd(2) by (simp add: createNonblockingOrDie_def)
  show ?thesis
  proof (cases "connect_outcome e")
    case GoOn
    from cn_connecting_ok [of ?c p fd] inv idle fd obtain w ch where
      w: "cn_connecting True p fd ?c = Inr (?c\<lparr>cn_state := kConnecting, cn_channel := Some p, cn_poller := w\<rparr>)"
        "ep_inv w" "ep_heap w p = Some ch" "ch_fd ch = fd" "\<not> ch_eventHandling ch" "ep_channels w fd = Some p"
        "poller_frame p fd (cn_poller c) w"
      by (auto simp: cn_idle_def)
    with GoOn create fd(1) idle inv show ?thesis
      by (simp add: cn_connect_now_def cn_inv_def cn_attempt_def cn_timing_def cn_idle_def cn_frame_def poller_frame_def)
  next
    case Retry
    let ?d = "?c\<lparr>cn_state := kDisconnected, cn_open := []\<rparr>"
    have "cn_timing (armed ?d)" using idle inv by (intro armed_timing) (simp_all add: cn_idle_def)
    with Retry create fd(1) idle inv cn_retry_ok [of ?c fd] show ?thesis
      by (simp add: cn_connect_now_def cn_inv_def cn_attempt_def cn_idle_def cn_frame_same)
  next
    case GiveUp
    with create fd(1) idle inv show ?thesis
      by (simp add: cn_connect_now_def cn_close_def cn_inv_def cn_attempt_def cn_timing_def cn_idle_def cn_frame_same)
  qed
qed

lemma cn_startInLoop_ok:
  assumes "ep_inv (cn_poller c)" "cn_hasCallback c" "delay_ok (cn_retryDelayMs c)"
    and "cn_idle c" "cn_state c = kDisconnected" "cn_open c = []" and "attempt_ok a c"
  shows "\<exists>c'. cn_startInLoop True a c = Inr c' \<and> cn_inv c' \<and> cn_frame c c'"
proof (cases "cn_connect c")
  case True
  with cn_connect_now_ok [OF assms] assms(5) show ?thesis by (simp add: cn_startInLoop_def)
next
  case False
  with assms show ?thesis
    by (simp add: cn_startInLoop_def cn_inv_def cn_attempt_def cn_timing_def cn_idle_def cn_frame_same)
qed

lemma cn_timers_off: "cn_inv c \<Longrightarrow> cn_state c \<noteq> kDisconnected \<Longrightarrow> cn_timers c = []"
  by (auto simp: cn_inv_def cn_timing_def)

text \<open>The end of an attempt by an event: success, failure, or a stop in between.\<close>

lemma cn_handleWrite_ok:
  assumes inv: "cn_inv c" and st: "cn_state c = kConnecting"
  shows "\<exists>g c' fd. cn_handleWrite True so sn pn c = Inr (g, c') \<and> cn_inv c' \<and> cn_open c = [fd] \<and>
    (g = Some fd \<longleftrightarrow> getSocketError so = None \<and> \<not> isSelfConnect sn pn \<and> cn_connect c) \<and> (g = None \<or> g = Some fd) \<and>
    cn_pending c' = [FResetChannel] \<and> ep_channels (cn_poller c') fd = None \<and> cn_channel c' = cn_channel c \<and> cn_open c' = [] \<and> cn_frame c c' \<and>
    cn_state c' = (if getSocketError so = None \<and> \<not> isSelfConnect sn pn then kConnected else kDisconnected)"
proof -
  from inv have parts: "ep_inv (cn_poller c)" "cn_hasCallback c" "cn_attempt c" "delay_ok (cn_retryDelayMs c)" "cn_timers c = []"
    using cn_timers_off [OF inv] st by (auto simp: cn_inv_def cn_timing_def)
  from removeAndResetChannel_ok [OF parts(1,3) st] obtain p fd w ch where
    r: "cn_channel c = Some p" "cn_open c = [fd]" "cn_pending c = []"
      "removeAndResetChannel True c = Inr (fd, c\<lparr>cn_poller := w, cn_pending := [FResetChannel]\<rparr>)"
      "ep_inv w" "ep_heap w p = Some ch" "ch_fd ch = fd" "\<not> ch_eventHandling ch" "ep_channels w fd = None"
      "poller_frame p fd (cn_poller c) w" by blast
  let ?c = "c\<lparr>cn_poller := w, cn_pending := [FResetChannel]\<rparr>"
  let ?d = "?c\<lparr>cn_state := kDisconnected, cn_open := []\<rparr>" and ?e = "?c\<lparr>cn_state := kConnected, cn_open := []\<rparr>"
  have retry: "cn_retry fd ?c = Inr (armed ?d)" using r(2) by (simp add: cn_retry_ok)
  have "cn_timing (armed ?d)" using parts by (intro armed_timing) simp_all
  with parts r have d: "cn_inv (armed ?d)" by (simp add: cn_inv_def cn_attempt_def)
  have e: "cn_inv ?e" using parts r by (simp add: cn_inv_def cn_attempt_def cn_timing_def)
  have frame: "cn_frame c (armed ?d)" "cn_frame c ?e" using r by (simp_all add: cn_frame_def poller_frame_def)
  show ?thesis
  proof (cases "getSocketError so = None \<and> \<not> isSelfConnect sn pn")
    case True
    with st r e parts(2) frame(2) show ?thesis
      by (cases "cn_connect c") (simp_all add: cn_handleWrite_def Let_def cn_close_def)
  next
    case False
    with st r d retry frame(1) show ?thesis by (auto simp: cn_handleWrite_def)
  qed
qed

lemma cn_handleError_ok:
  assumes inv: "cn_inv c" and st: "cn_state c = kConnecting"
  shows "\<exists>c'. cn_handleError True so c = Inr c' \<and> cn_inv c' \<and> cn_frame c c' \<and> cn_state c' = kDisconnected"
proof -
  from inv have parts: "ep_inv (cn_poller c)" "cn_hasCallback c" "cn_attempt c" "delay_ok (cn_retryDelayMs c)" "cn_timers c = []"
    using cn_timers_off [OF inv] st by (auto simp: cn_inv_def cn_timing_def)
  from removeAndResetChannel_ok [OF parts(1,3) st] obtain p fd w ch where
    r: "cn_channel c = Some p" "cn_open c = [fd]"
      "removeAndResetChannel True c = Inr (fd, c\<lparr>cn_poller := w, cn_pending := [FResetChannel]\<rparr>)"
      "ep_inv w" "ep_heap w p = Some ch" "ch_fd ch = fd" "\<not> ch_eventHandling ch" "ep_channels w fd = None"
      "poller_frame p fd (cn_poller c) w" by blast
  let ?c = "c\<lparr>cn_poller := w, cn_pending := [FResetChannel]\<rparr>"
  let ?d = "?c\<lparr>cn_state := kDisconnected, cn_open := []\<rparr>"
  have "cn_timing (armed ?d)" using parts by (intro armed_timing) simp_all
  with parts r have "cn_inv (armed ?d)" by (simp add: cn_inv_def cn_attempt_def)
  moreover have "cn_frame c (armed ?d)" using r by (simp add: cn_frame_def poller_frame_def)
  ultimately show ?thesis using st r by (simp add: cn_handleError_def cn_retry_ok)
qed

lemma cn_stop_simps [simp]: "cn_poller (cn_stop c) = cn_poller c" "cn_channel (cn_stop c) = cn_channel c" "cn_open (cn_stop c) = cn_open c"
  "cn_state (cn_stop c) = cn_state c" "cn_pending (cn_stop c) = cn_pending c"
  by (simp_all add: cn_stop_def cn_cancel_def split: option.splits)

lemma cn_stop_ok: "cn_inv c \<Longrightarrow> cn_inv (cn_stop c)"
  by (auto simp: cn_inv_def cn_stop_def cn_cancel_def cn_attempt_def cn_timing_def split: option.splits)

lemma resetChannel_ok:
  assumes inv: "cn_inv c" and p: "cn_pending c = [FResetChannel]"
  shows "\<exists>c'. resetChannel (c\<lparr>cn_pending := []\<rparr>) = Inr c' \<and> cn_inv c' \<and> cn_state c' = cn_state c \<and> cn_channel c' = None \<and>
    cn_pending c' = [] \<and> cn_frame c c'"
proof -
  from inv p obtain q ch where ch: "cn_channel c = Some q" "ep_heap (cn_poller c) q = Some ch" "\<not> ch_eventHandling ch"
    "ep_channels (cn_poller c) (ch_fd ch) \<noteq> Some q" "cn_open c = []" "cn_state c \<noteq> kConnecting" "ep_inv (cn_poller c)"
    by (auto simp: cn_inv_def cn_attempt_def split: option.splits if_splits)
  from ep_inv_drop [OF ch(7,2,4)] ch inv p show ?thesis
    by (auto simp: resetChannel_def ep_chan_def destroy_Channel_def cn_inv_def cn_attempt_def cn_timing_def cn_frame_def)
qed

lemma connector_functor_safe:
  assumes inv: "cn_inv c" and en: "connector_enabled c (CnFunctor a)"
  shows "\<exists>c'. connector_step c (CnFunctor a) = Inr c' \<and> cn_inv c' \<and> cn_frame c c'"
proof (cases "FStartInLoop \<in> set (cn_pending c)")
  case True
  from inv have parts: "ep_inv (cn_poller c)" "cn_hasCallback c" "cn_attempt c" "delay_ok (cn_retryDelayMs c)"
    by (auto simp: cn_inv_def cn_timing_def)
  from inv True have s: "cn_state c = kDisconnected" "cn_pending c = [FStartInLoop]" "cn_timers c = []"
    by (auto simp: cn_inv_def cn_timing_def)
  with parts(3) have "cn_channel c = None" "cn_open c = []" by (auto simp: cn_attempt_def split: option.splits)
  with cn_startInLoop_ok [of "c\<lparr>cn_pending := []\<rparr>" a] s parts en show ?thesis
    by (simp add: run_connector_fn_def cn_idle_def attempt_ok_def cn_frame_def)
next
  case False
  with inv en have "cn_pending c = [FResetChannel]"
    by (auto simp: cn_inv_def cn_attempt_def subset_singleton_iff split: option.splits if_splits)
  with resetChannel_ok [OF inv] show ?thesis by (auto simp: run_connector_fn_def)
qed

lemma connector_step_safe:
  assumes inv: "cn_inv c" and en: "connector_enabled c ev"
  shows "\<exists>c'. connector_step c ev = Inr c' \<and> cn_inv c' \<and> cn_frame c c'"
proof -
  from inv have parts: "ep_inv (cn_poller c)" "cn_hasCallback c" "cn_attempt c" "delay_ok (cn_retryDelayMs c)"
    by (auto simp: cn_inv_def cn_timing_def)
  have opn: "cn_open c = []" if "cn_channel c = None" using parts(3) that by (simp add: cn_attempt_def)
  show ?thesis
  proof (cases ev)
    case (CnStart il a)
    let ?c = "c\<lparr>cn_connect := True\<rparr>"
    show ?thesis
    proof (cases il)
      case True
      with cn_startInLoop_ok [of ?c a] parts en CnStart opn show ?thesis
        by (simp add: cn_start_def cn_idle_def attempt_ok_def cn_frame_def)
    next
      case False
      with parts en CnStart opn show ?thesis
        by (simp add: cn_start_def cn_idle_def cn_inv_def cn_attempt_def cn_timing_def cn_frame_same)
    qed
  next
    case (CnRestart a)
    with cn_startInLoop_ok [of "c\<lparr>cn_state := kDisconnected, cn_retryDelayMs := kInitRetryDelayMs, cn_connect := True\<rparr>" a]
      parts en opn show ?thesis by (simp add: cn_restart_def cn_idle_def attempt_ok_def cn_frame_def)
  next
    case CnStop
    with cn_stop_ok [OF inv] show ?thesis by (simp add: cn_frame_same)
  next
    case (CnWritable so sn pn)
    with en have "cn_state c = kConnecting" using cn_watched_connecting [OF inv] by simp
    from cn_handleWrite_ok [OF inv this, of so sn pn] CnWritable show ?thesis by auto
  next
    case (CnError so)
    with cn_handleError_ok [OF inv _, of so] en cn_watched_connecting [OF inv] show ?thesis by auto
  next
    case (CnBoth so so' sn pn)
    with cn_handleError_ok [OF inv _, of so] en cn_watched_connecting [OF inv] obtain c' where
      "cn_handleError True so c = Inr c'" "cn_inv c'" "cn_frame c c'" "cn_state c' = kDisconnected" by auto
    with CnBoth show ?thesis by (simp add: cn_handleWrite_def)
  next
    case (CnFunctor a)
    with connector_functor_safe [OF inv, of a] en show ?thesis by simp
  next
    case (CnTimer i a)
    with inv en have s: "cn_state c = kDisconnected" "filter (\<lambda>t. fst t \<noteq> i) (cn_timers c) = []" "cn_pending c = []"
      by (auto simp: cn_inv_def cn_timing_def)
    with parts(3) have "cn_channel c = None" by (auto simp: cn_attempt_def split: option.splits)
    with cn_startInLoop_ok [of "c\<lparr>cn_timers := []\<rparr>" a] s parts opn en CnTimer show ?thesis
      by (simp add: cn_idle_def attempt_ok_def cn_frame_def)
  qed
qed

interpretation cns: safe_steps connector_step cn_inv connector_enabled
  by unfold_locales (use connector_step_safe in blast)

section \<open>An owner that starts once\<close>

text \<open>
  What is asked of an owner without looking into the connector: it calls \<^verbatim>\<open>start\<close> at most once, and \<^verbatim>\<open>restart\<close> only after an
  attempt has succeeded and the functors of that iteration have run, as \<^verbatim>\<open>TcpClient\<close> does when its connection is closed.
\<close>

fun is_start :: "connector_ev \<Rightarrow> bool" where
  "is_start (CnStart il a) = True"
| "is_start ev = False"

fun connector_allowed :: "connector \<Rightarrow> connector_ev \<Rightarrow> bool" where
  "connector_allowed c (CnStart il a) \<longleftrightarrow> attempt_ok a c"
| "connector_allowed c (CnRestart a) \<longleftrightarrow> cn_state c = kConnected \<and> cn_pending c = [] \<and> attempt_ok a c"
| "connector_allowed c ev \<longleftrightarrow> connector_enabled c ev"

definition cn_unused :: "connector \<Rightarrow> bool" where
  "cn_unused c \<longleftrightarrow> cn_inv c \<and> cn_idle c \<and> cn_state c = kDisconnected"

lemma connected_idle: "cn_inv c \<Longrightarrow> cn_state c = kConnected \<Longrightarrow> cn_pending c = [] \<Longrightarrow> cn_idle c"
  using cn_timers_off [of c] by (auto simp: cn_idle_def cn_inv_def cn_attempt_def split: option.splits)

lemma allowed_enabled: "cn_inv c \<Longrightarrow> connector_allowed c ev \<Longrightarrow> \<not> is_start ev \<Longrightarrow> connector_enabled c ev"
  using connected_idle [of c] by (cases ev) auto

lemma unused_not_watched: "cn_unused c \<Longrightarrow> \<not> cn_watched c"
  by (simp add: cn_unused_def cn_idle_def cn_watched_def)

lemma unused_stop: "cn_unused c \<Longrightarrow> cn_unused (cn_stop c)"
  using cn_stop_ok [of c] by (auto simp: cn_unused_def cn_idle_def cn_stop_def cn_cancel_def split: option.splits)

interpretation cno: one_shot_steps connector_step cn_inv connector_allowed cn_unused is_start
proof
  fix c ev assume "cn_inv c" "connector_allowed c ev" "\<not> is_start ev"
  with connector_step_safe allowed_enabled show "\<exists>c'. connector_step c ev = Inr c' \<and> cn_inv c'" by blast
next
  fix c ev assume c: "cn_unused c" "connector_allowed c ev" "is_start ev"
  then have "cn_inv c" "connector_enabled c ev" by (cases ev; simp add: cn_unused_def)+
  with connector_step_safe show "\<exists>c'. connector_step c ev = Inr c' \<and> cn_inv c'" by blast
next
  fix c ev assume c: "cn_unused c" "connector_allowed c ev" "\<not> is_start ev"
  with unused_not_watched [OF c(1)] have "ev = CnStop" by (cases ev) (auto simp: cn_unused_def cn_idle_def)
  with unused_stop [OF c(1)] show "\<exists>c'. connector_step c ev = Inr c' \<and> cn_unused c'" by simp
qed (simp add: cn_unused_def)

section \<open>Properties\<close>

lemma new_Connector_inv: "ep_inv w \<Longrightarrow> cn_inv (setNewConnectionCallback (new_Connector addr w))"
  by (simp add: cn_inv_def cn_attempt_def cn_timing_def setNewConnectionCallback_def new_Connector_def)

lemma new_Connector_unused: "ep_inv w \<Longrightarrow> cn_unused (setNewConnectionCallback (new_Connector addr w))"
  using new_Connector_inv [of w addr] by (simp add: cn_unused_def cn_idle_def setNewConnectionCallback_def new_Connector_def)

lemma delay_ok_range: "delay_ok d \<Longrightarrow> kInitRetryDelayMs \<le> d \<and> d \<le> kMaxRetryDelayMs"
proof -
  assume "delay_ok d"
  then obtain n where d: "d = min (500 * 2 ^ n) 30000"
    by (auto simp: delay_ok_def kInitRetryDelayMs_def kMaxRetryDelayMs_def)
  have "(1 :: int) \<le> 2 ^ n" by simp
  with d show ?thesis by (simp add: kInitRetryDelayMs_def kMaxRetryDelayMs_def)
qed



text \<open>
  C21: The delay doubles up to its limit: when a started connector is refused time after time, the retry timer armed after
  \<open>n\<close> earlier retries waits \<open>min (500 * 2 ^ n) 30000\<close> milliseconds, it is the only one armed, and no socket is left open.
\<close>

theorem retry_backoff:
  assumes "connect_outcome e = Retry" and "0 \<le> fd"
  shows "\<exists>c. run_steps connector_step (setNewConnectionCallback (new_Connector addr w))
      (CnStart True (fd, e, p) # map (\<lambda>i. CnTimer i (fd, e, p)) [0..<n]) = Inr c \<and>
    cn_timers c = [(n, min (500 * 2 ^ n) 30000)] \<and> cn_state c = kDisconnected \<and> cn_open c = []"
proof -
  let ?c = "setNewConnectionCallback (new_Connector addr w)"
  let ?evs = "\<lambda>n. CnStart True (fd, e, p) # map (\<lambda>i. CnTimer i (fd, e, p)) [0..<n]"
  have "\<exists>c. run_steps connector_step ?c (?evs n) = Inr c \<and> cn_timers c = [(n, min (500 * 2 ^ n) 30000)] \<and>
      cn_state c = kDisconnected \<and> cn_open c = [] \<and> cn_connect c \<and> cn_nextTimer c = Suc n \<and>
      cn_retryDelayMs c = min (500 * 2 ^ Suc n) 30000"
  proof (induction n)
    case 0
    from assms show ?case
      by (simp add: cn_start_def cn_startInLoop_def cn_connect_now_def createNonblockingOrDie_def cn_retry_def cn_close_def
        setNewConnectionCallback_def new_Connector_def kInitRetryDelayMs_def kMaxRetryDelayMs_def)
  next
    case (Suc n)
    then obtain c where c: "run_steps connector_step ?c (?evs n) = Inr c" "cn_timers c = [(n, min (500 * 2 ^ n) 30000)]"
      "cn_state c = kDisconnected" "cn_open c = []" "cn_connect c" "cn_nextTimer c = Suc n"
      "cn_retryDelayMs c = min (500 * 2 ^ Suc n) 30000" by blast
    have evs: "?evs (Suc n) = ?evs n @ [CnTimer n (fd, e, p)]" by simp
    from c assms show ?case
      unfolding evs run_steps_append
      by (simp add: cn_startInLoop_def cn_connect_now_def createNonblockingOrDie_def cn_retry_def cn_close_def
        kMaxRetryDelayMs_def min_def)
  qed
  then show ?thesis by blast
qed

theorem retry_backoff_witness:
  "\<exists>c. run_steps connector_step (setNewConnectionCallback (new_Connector (InetAddress_port 80) empty_poller))
      (CnStart True (5, Some ECONNREFUSED, 0) # map (\<lambda>i. CnTimer i (5, Some ECONNREFUSED, 0)) [0..<3]) = Inr c \<and>
    cn_timers c = [(3, min (500 * 2 ^ 3) 30000)] \<and> cn_state c = kDisconnected \<and> cn_open c = []"
  by (rule retry_backoff) (simp_all add: connect_outcome_def)

lemma cn_start_connecting:
  assumes "ep_inv (cn_poller c)" and "cn_idle c" "cn_state c = kDisconnected" "cn_open c = []"
    and "attempt_ok (fd, e, p) c" and "connect_outcome e = GoOn"
  shows "\<exists>w. connector_step c (CnStart True (fd, e, p)) =
    Inr (c\<lparr>cn_connect := True, cn_open := [fd], cn_state := kConnecting, cn_channel := Some p, cn_poller := w\<rparr>)"
proof -
  let ?c = "c\<lparr>cn_connect := True, cn_open := [fd]\<rparr>"
  from cn_connecting_ok [of ?c p fd] assms obtain w where
    "cn_connecting True p fd ?c = Inr (?c\<lparr>cn_state := kConnecting, cn_channel := Some p, cn_poller := w\<rparr>)"
    by (auto simp: cn_idle_def attempt_ok_def)
  with assms show ?thesis
    by (auto simp: cn_start_def cn_startInLoop_def cn_connect_now_def createNonblockingOrDie_def attempt_ok_def)
qed

text \<open>
  C36: Stopping a connector while its attempt is in progress makes it unusable: the attempt completes, its socket is closed, but
  the state stays \<^verbatim>\<open>kConnected\<close>, so the next \<^verbatim>\<open>start\<close> fails its assertion and aborts the process, although the connector is idle.
\<close>

theorem stop_while_connecting_poisons:
  assumes inv: "ep_inv w" and a: "0 \<le> fd" "ep_channels w fd = None" "ep_heap w p = None" "connect_outcome e = GoOn"
    and up: "getSocketError so = None" "\<not> isSelfConnect sn pn"
  shows "\<exists>c. run_steps connector_step (setNewConnectionCallback (new_Connector addr w))
      [CnStart True (fd, e, p), CnStop, CnWritable so sn pn, CnFunctor b] = Inr c \<and> cn_idle c \<and> cn_open c = [] \<and>
    connector_step c (CnStart True b) = Inl (AssertFail ''state_ == kDisconnected'')"
proof -
  let ?c = "setNewConnectionCallback (new_Connector addr w)"
  have idle: "cn_idle ?c" "cn_state ?c = kDisconnected" "cn_open ?c = []" "cn_poller ?c = w" "cn_timerId ?c = None"
    by (simp_all add: cn_idle_def setNewConnectionCallback_def new_Connector_def)
  have ok: "attempt_ok (fd, e, p) ?c" using a idle by (simp add: attempt_ok_def)
  from cn_start_connecting [OF _ idle(1-3) ok a(4)] inv idle(4) obtain w1 where
    s1: "connector_step ?c (CnStart True (fd, e, p)) =
      Inr (?c\<lparr>cn_connect := True, cn_open := [fd], cn_state := kConnecting, cn_channel := Some p, cn_poller := w1\<rparr>)"
      (is "_ = Inr ?c1") by auto
  have "connector_enabled ?c (CnStart True (fd, e, p))" using idle ok by simp
  from connector_step_safe [OF new_Connector_inv [OF inv] this] s1 have inv1: "cn_inv ?c1" by auto
  let ?c2 = "cn_stop ?c1"
  have c2: "cn_inv ?c2" "cn_state ?c2 = kConnecting"
    using cn_stop_ok [OF inv1] idle(5) by (simp_all add: cn_stop_def cn_cancel_def)
  from cn_handleWrite_ok [OF c2, of so sn pn] up obtain g c3 where
    c3: "cn_handleWrite True so sn pn ?c2 = Inr (g, c3)" "cn_inv c3" "cn_pending c3 = [FResetChannel]" "cn_state c3 = kConnected"
    by auto
  from resetChannel_ok [OF c3(2,3)] obtain c4 where
    c4: "resetChannel (c3\<lparr>cn_pending := []\<rparr>) = Inr c4" "cn_inv c4" "cn_state c4 = kConnected" "cn_channel c4 = None" "cn_pending c4 = []"
    using c3(4) by auto
  from c4 cn_timers_off [OF c4(2)] have "cn_idle c4" "cn_open c4 = []"
    by (auto simp: cn_idle_def cn_inv_def cn_attempt_def)
  moreover have "connector_step c4 (CnStart True b) = Inl (AssertFail ''state_ == kDisconnected'')"
    using c4(3) by (simp add: cn_start_def cn_startInLoop_def)
  moreover have "connector_step c3 (CnFunctor b) = Inr c4" using c3(3) c4(1) by (simp add: run_connector_fn_def)
  ultimately show ?thesis using s1 c3(1) by auto
qed

theorem stop_while_connecting_poisons_witness:
  "\<exists>c. run_steps connector_step (setNewConnectionCallback (new_Connector (InetAddress_port 80) empty_poller))
      [CnStart True (5, Some EINPROGRESS, 0), CnStop, CnWritable (OptVal None) (Some (ia_addr (InetAddress_port 1))) None,
       CnFunctor (6, None, 1)] = Inr c \<and> cn_idle c \<and> cn_open c = [] \<and>
    connector_step c (CnStart True (6, None, 1)) = Inl (AssertFail ''state_ == kDisconnected'')"
  by (rule stop_while_connecting_poisons)
    (simp_all add: connect_outcome_def getSocketError_def isSelfConnect_def getLocalAddr_def getPeerAddr_def InetAddress_port_def
      zero_addr_def hostToNetwork16_def bswap16_def)

text \<open>
  A \<^verbatim>\<open>start\<close> while a retry timer is armed leaves that timer armed; if it fires during the new attempt, the assertion of
  \<^verbatim>\<open>startInLoop\<close> fails.
\<close>

theorem start_while_retrying_aborts:
  assumes inv: "ep_inv w" and a: "0 \<le> fd" "connect_outcome e = Retry"
    and b: "0 \<le> fd'" "ep_channels w fd' = None" "ep_heap w p' = None" "connect_outcome e' = GoOn"
  shows "run_steps connector_step (setNewConnectionCallback (new_Connector addr w))
      [CnStart True (fd, e, p), CnStart True (fd', e', p'), CnTimer 0 b] = Inl (AssertFail ''state_ == kDisconnected'')"
proof -
  let ?c = "setNewConnectionCallback (new_Connector addr w)"
  have s1: "connector_step ?c (CnStart True (fd, e, p)) = Inr (armed (?c\<lparr>cn_connect := True\<rparr>))"
    using a by (simp add: cn_start_def cn_startInLoop_def cn_connect_now_def createNonblockingOrDie_def
      cn_retry_def cn_close_def armed_def setNewConnectionCallback_def new_Connector_def)
  let ?d = "armed (?c\<lparr>cn_connect := True\<rparr>)\<lparr>cn_open := [fd']\<rparr>"
  from cn_connecting_ok [of ?d p' fd'] inv b obtain w' where
    "cn_connecting True p' fd' ?d = Inr (?d\<lparr>cn_state := kConnecting, cn_channel := Some p', cn_poller := w'\<rparr>)"
    by (auto simp: setNewConnectionCallback_def new_Connector_def)
  then have "connector_step (armed (?c\<lparr>cn_connect := True\<rparr>)) (CnStart True (fd', e', p')) =
      Inr (?d\<lparr>cn_state := kConnecting, cn_channel := Some p', cn_poller := w'\<rparr>)"
    using b by (simp add: cn_start_def cn_startInLoop_def cn_connect_now_def createNonblockingOrDie_def armed_def
      setNewConnectionCallback_def new_Connector_def)
  with s1 show ?thesis by (simp add: cn_startInLoop_def)
qed

end
