(* ===== verification/TcpClient.thy ===== *)
theory TcpClient
  imports Connector ConnEvents
begin

text \<open>
  \<^verbatim>\<open>TcpClient\<close> (\<^verbatim>\<open>src/src/TcpClient.hpp\<close>, \<^verbatim>\<open>TcpClient.cpp\<close>): a connector and the connections it yields, all in one loop.
  Connection objects live on a heap \<open>cl_conns\<close>; the poller they share is the one of the connector. \<open>cl_pending\<close> are
  the functors queued for connections; those of the connector stay with it, so the order between the two kinds is
  left open. \<open>cl_alive\<close> is false once the client is destroyed, \<open>cl_detached\<close> true once its destructor has replaced the
  close callback of the connection.
\<close>

section \<open>Model\<close>

datatype client_fn =
    CfDestroy nat
  | CfSetClose nat
  | CfConn nat conn_fn

record 'ctx tcp_client =
  cl_connector :: connector
  cl_callbacks :: "write_result \<Rightarrow> 'ctx conn_callbacks"
  cl_retry :: bool
  cl_connect :: bool
  cl_nextConnId :: int
  cl_connection :: "nat option"
  cl_conns :: "nat \<Rightarrow> 'ctx tcp_conn option"
  cl_pending :: "client_fn list"
  cl_detached :: bool
  cl_alive :: bool

abbreviation cl_poller :: "'ctx tcp_client \<Rightarrow> loop_cb epoller" where
  "cl_poller s \<equiv> cn_poller (cl_connector s)"

definition new_TcpClient :: "InetAddress \<Rightarrow> loop_cb epoller \<Rightarrow> 'ctx tcp_client" where
  "new_TcpClient serverAddr w =
    \<lparr>cl_connector = setNewConnectionCallback (new_Connector serverAddr w), cl_callbacks = (\<lambda>r. no_callbacks),
     cl_retry = False, cl_connect = True, cl_nextConnId = 1, cl_connection = None, cl_conns = Map.empty, cl_pending = [],
     cl_detached = False, cl_alive = True\<rparr>"

definition enableRetry :: "'ctx tcp_client \<Rightarrow> 'ctx tcp_client" where
  "enableRetry s = s\<lparr>cl_retry := True\<rparr>"

definition cl_setConnectionCallback :: "(write_result \<Rightarrow> 'ctx conn_fun) \<Rightarrow> 'ctx tcp_client \<Rightarrow> 'ctx tcp_client" where
  "cl_setConnectionCallback f s = s\<lparr>cl_callbacks := (\<lambda>r. setConnectionCallback (f r) (cl_callbacks s r))\<rparr>"

definition cl_setMessageCallback :: "(write_result \<Rightarrow> time_point \<Rightarrow> 'ctx conn_fun) \<Rightarrow> 'ctx tcp_client \<Rightarrow> 'ctx tcp_client" where
  "cl_setMessageCallback f s = s\<lparr>cl_callbacks := (\<lambda>r. setMessageCallback (f r) (cl_callbacks s r))\<rparr>"

definition cl_setWriteCompleteCallback :: "(write_result \<Rightarrow> 'ctx conn_fun) \<Rightarrow> 'ctx tcp_client \<Rightarrow> 'ctx tcp_client" where
  "cl_setWriteCompleteCallback f s = s\<lparr>cl_callbacks := (\<lambda>r. setWriteCompleteCallback (f r) (cl_callbacks s r))\<rparr>"

definition cl_queue :: "client_fn \<Rightarrow> 'ctx tcp_client \<Rightarrow> 'ctx tcp_client" where
  "cl_queue f s = s\<lparr>cl_pending := cl_pending s @ [f]\<rparr>"

definition cl_removeConnection :: "bool \<Rightarrow> attempt \<Rightarrow> nat \<Rightarrow> 'ctx tcp_client \<Rightarrow> 'ctx tcp_client res" where
  "cl_removeConnection il a i s =
    guard (cl_alive s) (UndefinedBehaviour ''member of a destroyed TcpClient'')
   (assertInLoopThread il
   (guard (cl_connection s = Some i) (AssertFail ''connection_ == conn'')
   (let s = cl_queue (CfDestroy i) (s\<lparr>cl_connection := None\<rparr>) in
    if cl_retry s \<and> cl_connect s then
      rbind (cn_restart il a (cl_connector s)) (\<lambda>n. Inr (s\<lparr>cl_connector := n\<rparr>))
    else Inr s)))"

text \<open>The close callback that the destructor installs; it finds the loop through the client.\<close>

definition detail_removeConnection :: "nat \<Rightarrow> 'ctx tcp_client \<Rightarrow> 'ctx tcp_client res" where
  "detail_removeConnection i s =
    guard (cl_alive s) (UndefinedBehaviour ''member of a destroyed TcpClient'') (Inr (cl_queue (CfDestroy i) s))"

text \<open>
  An operation of connection \<open>i\<close>: it gets the loop's poller; what it queued is queued in the loop, and the close
  callback is carried out as often as it was called, with \<open>a\<close> the attempt it may start.
\<close>

definition cl_on :: "bool \<Rightarrow> attempt \<Rightarrow> nat \<Rightarrow> (bool \<Rightarrow> 'ctx conn_fun) \<Rightarrow> 'ctx tcp_client \<Rightarrow> 'ctx tcp_client res" where
  "cl_on il a i f s = (case cl_conns s i of
     None \<Rightarrow> Inl (UndefinedBehaviour ''no connection at this address'')
   | Some c \<Rightarrow>
       rbind (f il (c\<lparr>tc_poller := cl_poller s\<rparr>)) (\<lambda>c.
       let s = s\<lparr>cl_conns := (cl_conns s)(i \<mapsto> c\<lparr>tc_pending := [], tc_closeCalls := 0\<rparr>),
             cl_connector := (cl_connector s)\<lparr>cn_poller := tc_poller c\<rparr>,
             cl_pending := cl_pending s @ map (CfConn i) (tc_pending c)\<rparr>
       in repeat_calls (tc_closeCalls c) (if cl_detached s then detail_removeConnection i else cl_removeConnection il a i) s))"

definition cl_connect_call :: "bool \<Rightarrow> attempt \<Rightarrow> 'ctx tcp_client \<Rightarrow> 'ctx tcp_client res" where
  "cl_connect_call il a s =
    (let s = s\<lparr>cl_connect := True\<rparr> in rbind (cn_start il a (cl_connector s)) (\<lambda>n. Inr (s\<lparr>cl_connector := n\<rparr>)))"

definition cl_disconnect :: "bool \<Rightarrow> 'ctx tcp_client \<Rightarrow> 'ctx tcp_client res" where
  "cl_disconnect il s =
    (let s = s\<lparr>cl_connect := False\<rparr> in
     case cl_connection s of None \<Rightarrow> Inr s | Some i \<Rightarrow> cl_on il (0, None, 0) i conn_shutdown s)"

definition cl_stop :: "'ctx tcp_client \<Rightarrow> 'ctx tcp_client" where
  "cl_stop s = s\<lparr>cl_connect := False, cl_connector := cn_stop (cl_connector s)\<rparr>"

text \<open>
  \<^verbatim>\<open>newConnection\<close>: \<open>pn\<close> and \<open>sn\<close> are the outcomes of \<^verbatim>\<open>getpeername\<close> and \<^verbatim>\<open>getsockname\<close>, \<open>i\<close> and \<open>p\<close> the addresses of the new
  connection and its channel.
\<close>

definition cl_newConnection ::
  "bool \<Rightarrow> sockaddr_in option \<Rightarrow> sockaddr_in option \<Rightarrow> nat \<Rightarrow> nat \<Rightarrow> size_t \<Rightarrow> write_result \<Rightarrow> int \<Rightarrow>
   'ctx tcp_client \<Rightarrow> 'ctx tcp_client res" where
  "cl_newConnection il pn sn i p hwm r sockfd s =
    assertInLoopThread il
   (let peerAddr = InetAddress_of (getPeerAddr pn);
        connName = snprintf_out 32 ('':'' @ InetAddress_toHostPort peerAddr @ ''#'' @ show_int (cl_nextConnId s));
        s = s\<lparr>cl_nextConnId := cl_nextConnId s + 1\<rparr>;
        localAddr = InetAddress_of (getLocalAddr sn);
        conn = new_TcpConnection connName sockfd p localAddr peerAddr hwm (cl_poller s);
        s = s\<lparr>cl_conns := (cl_conns s)(i \<mapsto> conn), cl_connector := (cl_connector s)\<lparr>cn_poller := tc_poller conn\<rparr>,
          cl_connection := Some i\<rparr>
    in cl_on il (0, None, 0) i (connectEstablished (with_owner (cl_callbacks s r))) s)"

text \<open>
  The destructor, then that of the connector. The one millisecond timer armed without a connection calls
  \<^verbatim>\<open>removeConnector\<close>, which does nothing.
\<close>

definition destroy_TcpClient :: "bool \<Rightarrow> 'ctx tcp_client \<Rightarrow> 'ctx tcp_client res" where
  "destroy_TcpClient il s =
    (let s = (case cl_connection s of
       Some i \<Rightarrow> if il then s\<lparr>cl_detached := True\<rparr> else cl_queue (CfSetClose i) s
     | None \<Rightarrow> s\<lparr>cl_connector := cn_stop (cl_connector s)\<rparr>)
     in rbind (destroy_Connector (cl_connector s)) (\<lambda>n. Inr (s\<lparr>cl_connector := n, cl_alive := False\<rparr>)))"

definition cl_release :: "nat \<Rightarrow> 'ctx tcp_client \<Rightarrow> 'ctx tcp_client" where
  "cl_release i s = (case cl_conns s i of
     None \<Rightarrow> s
   | Some c \<Rightarrow> s\<lparr>cl_conns := (cl_conns s)(i := None), cl_connector := (cl_connector s)\<lparr>cn_poller :=
       (cl_poller s)\<lparr>ep_heap := (ep_heap (cl_poller s))(tc_channel c := None)\<rparr>\<rparr>\<rparr>)"

definition run_client_fn :: "write_result \<Rightarrow> client_fn \<Rightarrow> 'ctx tcp_client \<Rightarrow> 'ctx tcp_client res" where
  "run_client_fn r f s = (case f of
     CfDestroy i \<Rightarrow> rbind (cl_on True (0, None, 0) i (connectDestroyed (with_owner (cl_callbacks s r))) s) (\<lambda>s. Inr (cl_release i s))
   | CfSetClose i \<Rightarrow> Inr (s\<lparr>cl_detached := True\<rparr>)
   | CfConn i g \<Rightarrow> cl_on True (0, None, 0) i (\<lambda>il. run_conn_fn (with_owner (cl_callbacks s r)) r g) s)"

section \<open>What happens to a client\<close>

text \<open>
  The user connects, disconnects and stops it; the loop reports events of the connector's channel and of connections
  and runs functors and retry timers. When the connector hands over a socket, the connection is made at once.
\<close>

datatype client_ev =
    ClConnect bool attempt
  | ClDisconnect
  | ClStop
  | ClUp sockopt_result "sockaddr_in option" "sockaddr_in option" nat nat size_t write_result
  | ClConnector connector_ev
  | ClEvent nat flags readv_result write_result time_point write_result attempt
  | ClFunctor write_result

fun client_step :: "'ctx tcp_client \<Rightarrow> client_ev \<Rightarrow> 'ctx tcp_client res" where
  "client_step s (ClConnect il a) = cl_connect_call il a s"
| "client_step s ClDisconnect = cl_disconnect True s"
| "client_step s ClStop = Inr (cl_stop s)"
| "client_step s (ClUp so sn pn i p hwm r) =
    rbind (cn_handleWrite True so sn pn (cl_connector s)) (\<lambda>(given, n).
    let s = s\<lparr>cl_connector := n\<rparr> in
    case given of None \<Rightarrow> Inr s | Some sockfd \<Rightarrow> cl_newConnection True pn sn i p hwm r sockfd s)"
| "client_step s (ClConnector ev) = rbind (connector_step (cl_connector s) ev) (\<lambda>n. Inr (s\<lparr>cl_connector := n\<rparr>))"
| "client_step s (ClEvent i re rv wr t r a) =
    cl_on True a i (\<lambda>il c. conn_handleEvent (with_owner (cl_callbacks s r)) rv wr t (reported re c)) s"
| "client_step s (ClFunctor r) = (case cl_pending s of
     [] \<Rightarrow> Inr s
   | f # q \<Rightarrow> run_client_fn r f (s\<lparr>cl_pending := q\<rparr>))"

text \<open>
  What the kernel, the loop and a careful user guarantee: descriptors and objects are fresh; an event is reported only
  for a watched descriptor, and for a connection only after the functors of the iteration that made it have run; a hang-up
  that is reported without \<^verbatim>\<open>POLLIN\<close> but with another readable condition leaves nothing to read (\<open>hup_unread\<close>);
  data is such that the user's callbacks can cope with it; \<^verbatim>\<open>connect\<close> is called only on an idle connector that has
  not succeeded yet.
\<close>

definition client_attempt_ok :: "attempt \<Rightarrow> 'ctx tcp_client \<Rightarrow> bool" where
  "client_attempt_ok a s \<longleftrightarrow> attempt_ok a (cl_connector s) \<and> (\<forall>i c. cl_conns s i = Some c \<longrightarrow> tc_fd c \<noteq> fst a)"

definition cl_watched :: "'ctx tcp_client \<Rightarrow> nat \<Rightarrow> bool" where
  "cl_watched s i \<longleftrightarrow> (case cl_conns s i of None \<Rightarrow> False | Some c \<Rightarrow> ep_watched (cl_poller s) (tc_fd c) \<noteq> 0) \<and>
    cn_pending (cl_connector s) = []"

fun ev_attempt :: "connector_ev \<Rightarrow> attempt option" where
  "ev_attempt (CnStart il a) = Some a"
| "ev_attempt (CnRestart a) = Some a"
| "ev_attempt (CnFunctor a) = Some a"
| "ev_attempt (CnTimer i a) = Some a"
| "ev_attempt ev = None"

fun loop_event :: "connector_ev \<Rightarrow> bool" where
  "loop_event (CnError so) = True"
| "loop_event (CnBoth so so' sn pn) = True"
| "loop_event (CnFunctor a) = True"
| "loop_event (CnTimer i a) = True"
| "loop_event ev = False"

fun client_enabled :: "('ctx tcp_conn \<Rightarrow> string \<Rightarrow> bool) \<Rightarrow> 'ctx tcp_client \<Rightarrow> client_ev \<Rightarrow> bool" where
  "client_enabled can_read s (ClConnect il a) \<longleftrightarrow> connector_enabled (cl_connector s) (CnStart il a) \<and> client_attempt_ok a s"
| "client_enabled can_read s ClDisconnect \<longleftrightarrow> True"
| "client_enabled can_read s ClStop \<longleftrightarrow> True"
| "client_enabled can_read s (ClUp so sn pn i p hwm r) \<longleftrightarrow> cn_watched (cl_connector s) \<and>
    cl_nextConnId s < 2147483647 \<and> cl_conns s i = None \<and> ep_heap (cl_poller s) p = None"
| "client_enabled can_read s (ClConnector ev) \<longleftrightarrow> loop_event ev \<and> connector_enabled (cl_connector s) ev \<and>
    (case ev_attempt ev of None \<Rightarrow> True | Some a \<Rightarrow> client_attempt_ok a s)"
| "client_enabled can_read s (ClEvent i re rv wr t r a) \<longleftrightarrow> cl_watched s i \<and> client_attempt_ok a s \<and> hup_unread re rv \<and>
    (reads re \<longrightarrow> (case rv of
       ReadvErr e \<Rightarrow> True
     | ReadvOk d \<Rightarrow> d = [] \<or> (case cl_conns s i of None \<Rightarrow> False | Some c \<Rightarrow> fits_input c d \<and> can_read c d)))"
| "client_enabled can_read s (ClFunctor r) \<longleftrightarrow> True"

section \<open>Invariant\<close>

text \<open>
  The connection in \<^verbatim>\<open>connection_\<close> is open and its connector has succeeded; every other connection is silent and waits for
  the one functor that destroys it. No two of them, nor the connector, share a channel or a descriptor.
\<close>

definition cl_phase :: "('ctx tcp_conn \<Rightarrow> bool) \<Rightarrow> bool \<Rightarrow> 'ctx tcp_conn \<Rightarrow> bool" where
  "cl_phase cinv current c \<longleftrightarrow> hooked c \<and> tc_pending c = [] \<and> tc_closeCalls c = 0 \<and> (if current then conn_ok c \<and> cinv c else conn_silent c)"

definition cl_doomed :: "'ctx tcp_client \<Rightarrow> bool" where
  "cl_doomed s \<longleftrightarrow> (\<exists>ds. cl_pending s = map CfDestroy ds \<and> distinct ds \<and>
    (\<forall>i. i \<in> set ds \<longleftrightarrow> cl_conns s i \<noteq> None \<and> cl_connection s \<noteq> Some i))"

definition cl_apart :: "'ctx tcp_client \<Rightarrow> bool" where
  "cl_apart s \<longleftrightarrow>
    (\<forall>i j c d. cl_conns s i = Some c \<longrightarrow> cl_conns s j = Some d \<longrightarrow> i \<noteq> j \<longrightarrow> tc_fd c \<noteq> tc_fd d \<and> tc_channel c \<noteq> tc_channel d) \<and>
    (\<forall>i c. cl_conns s i = Some c \<longrightarrow> cn_channel (cl_connector s) \<noteq> Some (tc_channel c) \<and> tc_fd c \<notin> set (cn_open (cl_connector s)))"

definition cl_current :: "'ctx tcp_client \<Rightarrow> bool" where
  "cl_current s \<longleftrightarrow> (\<forall>i. cl_connection s = Some i \<longrightarrow> cl_conns s i \<noteq> None \<and> cn_state (cl_connector s) = connector_state.kConnected)"

definition cl_inv :: "('ctx tcp_conn \<Rightarrow> bool) \<Rightarrow> 'ctx tcp_client \<Rightarrow> bool" where
  "cl_inv cinv s \<longleftrightarrow> cn_inv (cl_connector s) \<and> cl_alive s \<and> \<not> cl_detached s \<and> cl_current s \<and> cl_doomed s \<and> cl_apart s \<and>
    (\<forall>i c. cl_conns s i = Some c \<longrightarrow> cl_phase cinv (cl_connection s = Some i) (c\<lparr>tc_poller := cl_poller s\<rparr>))"

definition client_ok :: "(write_result \<Rightarrow> 'ctx conn_callbacks) \<Rightarrow> ('ctx tcp_conn \<Rightarrow> bool) \<Rightarrow> 'ctx tcp_client \<Rightarrow> bool" where
  "client_ok k cinv s \<longleftrightarrow> cl_inv cinv s \<and> cl_callbacks s = k"

lemma cl_invD:
  assumes "cl_inv cinv s"
  shows "cn_inv (cl_connector s)" "ep_inv (cl_poller s)" "cl_alive s" "\<not> cl_detached s" "cl_current s" "cl_doomed s" "cl_apart s"
    and "cl_conns s i = Some c \<Longrightarrow> cl_phase cinv (cl_connection s = Some i) (c\<lparr>tc_poller := cl_poller s\<rparr>)"
    and "cl_conns s i = Some c \<Longrightarrow> tc_pending c = [] \<and> tc_closeCalls c = 0"
    and "cl_conns s i = Some c \<Longrightarrow> ep_heap (cl_poller s) (tc_channel c) \<noteq> None \<and> ep_channels (cl_poller s) (tc_fd c) = Some (tc_channel c)"
proof -
  show ph: "cl_phase cinv (cl_connection s = Some i) (c\<lparr>tc_poller := cl_poller s\<rparr>)" if "cl_conns s i = Some c" for i c
    using assms that by (simp add: cl_inv_def)
  show "tc_pending c = [] \<and> tc_closeCalls c = 0"
    "ep_heap (cl_poller s) (tc_channel c) \<noteq> None \<and> ep_channels (cl_poller s) (tc_fd c) = Some (tc_channel c)" if "cl_conns s i = Some c"
    using ph [OF that] by (auto simp: cl_phase_def conn_ok_def conn_inv_def conn_silent_def split: if_splits)
qed (use assms in \<open>simp_all add: cl_inv_def cn_inv_def\<close>)

text \<open>What changes the poller outside the part of a connection leaves it in its phase.\<close>

lemma cl_phase_frame:
  assumes "cl_phase cinv b (c\<lparr>tc_poller := w\<rparr>)" and "client_local cinv" and "ep_inv w'"
    and "ep_heap w' (tc_channel c) = ep_heap w (tc_channel c)" "ep_channels w' (tc_fd c) = ep_channels w (tc_fd c)"
  shows "cl_phase cinv b (c\<lparr>tc_poller := w'\<rparr>)"
proof -
  have "cinv (c\<lparr>tc_poller := w\<rparr>) \<Longrightarrow> cinv (c\<lparr>tc_poller := w'\<rparr>)" using assms(2) by (auto simp: client_local_def)
  with assms(1,3-) show ?thesis
    by (auto simp: cl_phase_def conn_ok_def conn_inv_def conn_silent_def conn_open_def hooked_def split: if_splits)
qed

text \<open>What changes the poller in the part of a connection leaves the connector in order.\<close>

lemma cn_inv_frame:
  assumes inv: "cn_inv n" and w: "ep_inv w" "poller_frame p fd (cn_poller n) w"
    and p: "cn_channel n \<noteq> Some p" "fd \<notin> set (cn_open n)" "ep_channels w fd = None \<or> ep_channels w fd = Some p"
  shows "cn_inv (n\<lparr>cn_poller := w\<rparr>)"
proof -
  have att: "cn_attempt n" using inv by (simp add: cn_inv_def)
  have "cn_attempt (n\<lparr>cn_poller := w\<rparr>)"
  proof (cases "cn_channel n")
    case None
    with att show ?thesis by (simp add: cn_attempt_def)
  next
    case (Some q)
    with att obtain ch where ch: "ep_heap (cn_poller n) q = Some ch" "\<not> ch_eventHandling ch"
      "if cn_state n = connector_state.kConnecting
       then ep_channels (cn_poller n) (ch_fd ch) = Some q \<and> cn_open n = [ch_fd ch] \<and> cn_pending n = []
       else ep_channels (cn_poller n) (ch_fd ch) \<noteq> Some q \<and> cn_open n = [] \<and> cn_pending n = [FResetChannel]"
      by (auto simp: cn_attempt_def)
    have "ep_heap w q = Some ch" using w(2) p(1) Some ch(1) by (simp add: poller_frame_def)
    moreover have "ep_channels w (ch_fd ch) = Some q \<longleftrightarrow> ep_channels (cn_poller n) (ch_fd ch) = Some q" if "ch_fd ch \<noteq> fd"
      using w(2) that by (simp add: poller_frame_def)
    moreover have "ep_channels w (ch_fd ch) \<noteq> Some q" if "ch_fd ch = fd" using p that Some by auto
    ultimately show ?thesis using ch p(2) Some by (cases "ch_fd ch = fd") (auto simp: cn_attempt_def split: if_splits)
  qed
  with inv w(1) show ?thesis by (simp add: cn_inv_def cn_timing_def)
qed

text \<open>What a step of the connector can own afterwards, and when it stays connected.\<close>

lemma cn_retry_owns: "cn_retry fd c = Inr c' \<Longrightarrow> cn_channel c' = cn_channel c \<and> set (cn_open c') \<subseteq> set (cn_open c)"
  by (auto simp: cn_retry_def cn_close_def res_Inr_iffs Let_def dest: notin_set_remove1 set_remove1_subset [THEN subsetD] split: if_splits)

lemma cn_startInLoop_owns:
  assumes "cn_startInLoop il (fd, e, p) c = Inr c'"
  shows "(cn_channel c' = cn_channel c \<or> cn_channel c' = Some p) \<and> set (cn_open c') \<subseteq> insert fd (set (cn_open c))"
proof (cases "cn_connect c")
  case True
  with assms have "cn_connect_now il (fd, e, p) c = Inr c'" by (auto simp: cn_startInLoop_def res_Inr_iffs)
  then show ?thesis
    using cn_retry_owns [of fd "c\<lparr>cn_open := fd # cn_open c\<rparr>" c']
    by (auto simp: cn_connect_now_def createNonblockingOrDie_def cn_connecting_def cn_close_def res_Inr_iffs Let_def
      split: connect_action.splits)
qed (use assms in \<open>auto simp: cn_startInLoop_def res_Inr_iffs\<close>)

lemma removeAndReset_owns:
  "removeAndResetChannel il c = Inr (fd, c') \<Longrightarrow> cn_channel c' = cn_channel c \<and> cn_open c' = cn_open c"
  by (auto simp: removeAndResetChannel_def res_Inr_iffs split: option.splits)

lemma cn_handleWrite_owns:
  "cn_handleWrite il so sn pn c = Inr (g, c') \<Longrightarrow> cn_channel c' = cn_channel c \<and> set (cn_open c') \<subseteq> set (cn_open c)"
  using removeAndReset_owns [of il c] cn_retry_owns [of _ _ c']
  by (fastforce simp: cn_handleWrite_def cn_close_def res_Inr_iffs Let_def dest: set_remove1_subset [THEN subsetD] split: if_splits)

lemma cn_handleError_owns:
  "cn_handleError il so c = Inr c' \<Longrightarrow> cn_channel c' = cn_channel c \<and> set (cn_open c') \<subseteq> set (cn_open c)"
  using removeAndReset_owns [of il c] cn_retry_owns [of _ _ c'] by (fastforce simp: cn_handleError_def res_Inr_iffs)

lemma connector_step_owns:
  assumes "connector_step c ev = Inr c'" and "case ev_attempt ev of None \<Rightarrow> True | Some a \<Rightarrow> a = (fd, e, p)"
  shows "(\<forall>q. cn_channel c' = Some q \<longrightarrow> cn_channel c = Some q \<or> q = p \<and> ev_attempt ev \<noteq> None) \<and>
    set (cn_open c') \<subseteq> set (cn_open c) \<union> (if ev_attempt ev = None then {} else {fd})"
proof (cases ev)
  case (CnStart il a)
  with assms cn_startInLoop_owns [of il fd e p "c\<lparr>cn_connect := True\<rparr>" c'] show ?thesis
    by (auto simp: cn_start_def Let_def split: if_splits)
next
  case (CnRestart a)
  with assms cn_startInLoop_owns [of True fd e p _ c'] show ?thesis
    by (fastforce simp: cn_restart_def res_Inr_iffs)
next
  case (CnWritable so sn pn)
  with assms obtain g where g: "cn_handleWrite True so sn pn c = Inr (g, c')" by (auto simp: res_Inr_iffs)
  with cn_handleWrite_owns [OF g] CnWritable show ?thesis by auto
next
  case (CnError so)
  with assms cn_handleError_owns [of True so c c'] show ?thesis by auto
next
  case (CnBoth so so' sn pn)
  with assms obtain d g where d: "cn_handleError True so c = Inr d" "cn_handleWrite True so' sn pn d = Inr (g, c')"
    by (auto simp: res_Inr_iffs)
  with cn_handleError_owns [OF d(1)] cn_handleWrite_owns [OF d(2)] CnBoth show ?thesis by auto
next
  case (CnFunctor a)
  with assms cn_startInLoop_owns [of True fd e p "c\<lparr>cn_pending := tl (cn_pending c)\<rparr>" c'] show ?thesis
    by (auto simp: run_connector_fn_def resetChannel_def res_Inr_iffs split: connector_fn.splits option.splits)
next
  case (CnTimer i a)
  with assms cn_startInLoop_owns [of True fd e p _ c'] show ?thesis by fastforce
qed (use assms in auto)

lemma connector_stays_connected:
  assumes inv: "cn_inv c" and en: "connector_enabled c ev" and st: "cn_state c = connector_state.kConnected"
    and step: "connector_step c ev = Inr c'" and ev: "loop_event ev"
  shows "cn_state c' = connector_state.kConnected"
proof (cases ev)
  case (CnFunctor a)
  with en have ne: "cn_pending c \<noteq> []" by simp
  from inv st have no: "FStartInLoop \<notin> set (cn_pending c)" by (auto simp: cn_inv_def)
  have "hd (cn_pending c) = FResetChannel" using ne no list.set_sel(1) [OF ne] by (cases "hd (cn_pending c)") auto
  with CnFunctor step st show ?thesis
    by (auto simp: run_connector_fn_def resetChannel_def res_Inr_iffs split: option.splits)
qed (use assms cn_timers_off [OF inv] cn_watched_connecting [OF inv] in auto)

subsection \<open>Steps of the connector\<close>

lemma cl_inv_connector:
  assumes inv: "cl_inv cinv s" and loc: "client_local cinv"
    and n: "cn_inv n" "cn_frame (cl_connector s) n"
    and st: "cl_connection s \<noteq> None \<Longrightarrow> cn_state n = connector_state.kConnected"
    and own: "\<And>i c. cl_conns s i = Some c \<Longrightarrow> cn_channel n \<noteq> Some (tc_channel c) \<and> tc_fd c \<notin> set (cn_open n)"
  shows "cl_inv cinv (s\<lparr>cl_connector := n\<rparr>)"
proof -
  have "cl_phase cinv (cl_connection s = Some i) (c\<lparr>tc_poller := cn_poller n\<rparr>)" if i: "cl_conns s i = Some c" for i c
  proof (rule cl_phase_frame [OF cl_invD(8) [OF inv i] loc])
    show "ep_inv (cn_poller n)" using n(1) by (simp add: cn_inv_def)
    have "cn_channel (cl_connector s) \<noteq> Some (tc_channel c)" "tc_fd c \<notin> set (cn_open (cl_connector s))"
      using cl_invD(7) [OF inv] i by (auto simp: cl_apart_def)
    with own [OF i] n(2) show "ep_heap (cn_poller n) (tc_channel c) = ep_heap (cl_poller s) (tc_channel c)"
      "ep_channels (cn_poller n) (tc_fd c) = ep_channels (cl_poller s) (tc_fd c)" by (simp_all add: cn_frame_def)
  qed
  with inv n(1) st own show ?thesis
    by (auto simp: cl_inv_def cl_current_def cl_doomed_def cl_apart_def)
qed

lemma cl_connector_step:
  assumes inv: "cl_inv cinv s" and loc: "client_local cinv" and en: "connector_enabled (cl_connector s) ev"
    and a: "case ev_attempt ev of None \<Rightarrow> True | Some a \<Rightarrow> client_attempt_ok a s"
    and st: "cl_connection s = None \<or> loop_event ev \<or> ev = CnStop"
  shows "\<exists>n. connector_step (cl_connector s) ev = Inr n \<and> cl_inv cinv (s\<lparr>cl_connector := n\<rparr>)"
proof -
  let ?n = "cl_connector s"
  from connector_step_safe [OF cl_invD(1) [OF inv] en] obtain n where
    n: "connector_step ?n ev = Inr n" "cn_inv n" "cn_frame ?n n" by blast
  obtain fd e p where fep: "case ev_attempt ev of None \<Rightarrow> True | Some a \<Rightarrow> a = (fd, e, p)"
  proof (cases "ev_attempt ev")
    case (Some b)
    obtain fd e p where "b = (fd, e, p)" by (cases b)
    with Some that show thesis by simp
  qed (use that in simp)
  have "cl_inv cinv (s\<lparr>cl_connector := n\<rparr>)"
  proof (rule cl_inv_connector [OF inv loc n(2,3)])
    assume "cl_connection s \<noteq> None"
    then have "cn_state ?n = connector_state.kConnected" using cl_invD(5) [OF inv] by (auto simp: cl_current_def)
    with st \<open>cl_connection s \<noteq> None\<close> connector_stays_connected [OF cl_invD(1) [OF inv] en _ n(1)] n(1)
    show "cn_state n = connector_state.kConnected" by auto
  next
    fix i c assume i: "cl_conns s i = Some c"
    have "cn_channel ?n \<noteq> Some (tc_channel c)" "tc_fd c \<notin> set (cn_open ?n)"
      using cl_invD(7) [OF inv] i by (auto simp: cl_apart_def)
    moreover have "tc_channel c \<noteq> p \<and> tc_fd c \<noteq> fd" if "ev_attempt ev \<noteq> None"
      using a fep that cl_invD(10) [OF inv i] i by (auto simp: client_attempt_ok_def attempt_ok_def)
    ultimately show "cn_channel n \<noteq> Some (tc_channel c) \<and> tc_fd c \<notin> set (cn_open n)"
      using connector_step_owns [OF n(1) fep] by (auto split: if_splits)
  qed
  with n(1) show ?thesis by blast
qed

subsection \<open>Steps of a connection\<close>

text \<open>A connection changes in its own part of the poller and stays in its phase.\<close>

lemma cl_inv_conn:
  assumes inv: "cl_inv cinv s" and loc: "client_local cinv" and i: "cl_conns s i = Some c"
    and c': "tc_fd c' = tc_fd c" "tc_channel c' = tc_channel c"
    and w: "ep_inv w" "poller_frame (tc_channel c) (tc_fd c) (cl_poller s) w" "ep_channels w (tc_fd c) = Some (tc_channel c)"
    and ph: "cl_phase cinv (x = Some i) (c'\<lparr>tc_poller := w\<rparr>)"
    and x: "x = cl_connection s \<and> q = cl_pending s \<or> cl_connection s = Some i \<and> x = None \<and> q = cl_pending s @ [CfDestroy i]"
  shows "cl_inv cinv (s\<lparr>cl_conns := (cl_conns s)(i \<mapsto> c'), cl_connector := (cl_connector s)\<lparr>cn_poller := w\<rparr>,
    cl_connection := x, cl_pending := q\<rparr>)" (is "cl_inv cinv ?s")
proof -
  note ap = cl_invD(7) [OF inv]
  have "cn_channel (cl_connector s) \<noteq> Some (tc_channel c)" "tc_fd c \<notin> set (cn_open (cl_connector s))"
    using ap i by (auto simp: cl_apart_def)
  from cn_inv_frame [OF cl_invD(1) [OF inv] w(1,2) this] w(3) have "cn_inv (cl_connector ?s)" by simp
  moreover have "cl_apart ?s" using ap c' i unfolding cl_apart_def by (simp split: if_splits)
  moreover have "cl_current ?s" using cl_invD(5) [OF inv] x by (auto simp: cl_current_def)
  moreover have "cl_doomed ?s"
  proof -
    from cl_invD(6) [OF inv] obtain ds where ds: "cl_pending s = map CfDestroy ds" "distinct ds"
      "\<And>j. j \<in> set ds \<longleftrightarrow> cl_conns s j \<noteq> None \<and> cl_connection s \<noteq> Some j" by (auto simp: cl_doomed_def)
    from x consider "x = cl_connection s" "q = cl_pending s" | "cl_connection s = Some i" "x = None" "q = cl_pending s @ [CfDestroy i]" by blast
    then show ?thesis
    proof cases
      case 1
      with ds i show ?thesis by (auto simp: cl_doomed_def intro!: exI [of _ ds])
    next
      case 2
      have "j \<in> set (ds @ [i]) \<longleftrightarrow> cl_conns ?s j \<noteq> None" for j using ds(3) [of j] 2(1) i by auto
      moreover have "distinct (ds @ [i])" using ds(2) ds(3) [of i] 2(1) by simp
      moreover have "cl_pending ?s = map CfDestroy (ds @ [i])" "cl_connection ?s = None" using ds(1) 2 by simp_all
      ultimately show ?thesis unfolding cl_doomed_def by (intro exI [of _ "ds @ [i]"]) auto
    qed
  qed
  moreover have "cl_phase cinv (x = Some j) (d\<lparr>tc_poller := w\<rparr>)" if j: "cl_conns s j = Some d" "j \<noteq> i" for j d
  proof -
    have ne: "tc_channel d \<noteq> tc_channel c" "tc_fd d \<noteq> tc_fd c" using ap j i unfolding cl_apart_def by blast+
    have "x = Some j \<longleftrightarrow> cl_connection s = Some j" using x j(2) by auto
    with cl_phase_frame [OF cl_invD(8) [OF inv j(1)] loc w(1)] w(2) ne show ?thesis by (simp add: poller_frame_def)
  qed
  ultimately show ?thesis using inv ph by (auto simp: cl_inv_def)
qed

text \<open>The connection is destroyed: nothing refers to it any more.\<close>

lemma cl_inv_release:
  assumes inv: "cl_inv cinv s" and loc: "client_local cinv" and i: "cl_conns s i = Some c"
    and q: "cl_pending s = CfDestroy i # q"
    and w: "ep_inv w" "poller_frame (tc_channel c) (tc_fd c) (cl_poller s) w" "ep_channels w (tc_fd c) = None"
  shows "cl_inv cinv (s\<lparr>cl_conns := (cl_conns s)(i := None), cl_connector := (cl_connector s)\<lparr>cn_poller := w\<rparr>, cl_pending := q\<rparr>)"
    (is "cl_inv cinv ?s")
proof -
  note ap = cl_invD(7) [OF inv]
  have "cn_channel (cl_connector s) \<noteq> Some (tc_channel c)" "tc_fd c \<notin> set (cn_open (cl_connector s))"
    using ap i by (auto simp: cl_apart_def)
  from cn_inv_frame [OF cl_invD(1) [OF inv] w(1,2) this] w(3) have "cn_inv (cl_connector ?s)" by simp
  moreover have "cl_apart ?s" using ap unfolding cl_apart_def by (simp split: if_splits)
  moreover from cl_invD(6) [OF inv] q obtain ds where ds: "q = map CfDestroy ds" "distinct (i # ds)"
      "\<And>j. j \<in> set (i # ds) \<longleftrightarrow> cl_conns s j \<noteq> None \<and> cl_connection s \<noteq> Some j"
    by (auto simp: cl_doomed_def Cons_eq_map_conv)
  from ds(3) [of i] have nc: "cl_connection s \<noteq> Some i" by simp
  have "j \<in> set ds \<longleftrightarrow> cl_conns ?s j \<noteq> None \<and> cl_connection s \<noteq> Some j" for j using ds(2) ds(3) [of j] by auto
  with ds(1,2) have "cl_doomed ?s" by (auto simp: cl_doomed_def)
  moreover have "cl_current ?s" using cl_invD(5) [OF inv] nc by (auto simp: cl_current_def)
  moreover have "cl_phase cinv (cl_connection s = Some j) (d\<lparr>tc_poller := w\<rparr>)" if j: "cl_conns s j = Some d" "j \<noteq> i" for j d
  proof -
    have ne: "tc_channel d \<noteq> tc_channel c" "tc_fd d \<noteq> tc_fd c" using ap j i unfolding cl_apart_def by blast+
    with cl_phase_frame [OF cl_invD(8) [OF inv j(1)] loc w(1)] w(2) show ?thesis by (simp add: poller_frame_def)
  qed
  ultimately show ?thesis using inv by (auto simp: cl_inv_def split: if_splits)
qed

text \<open>An operation after which nothing is noted, and how it is carried out.\<close>

lemma cl_on_quiet:
  assumes i: "cl_conns s i = Some c" and f: "f True (c\<lparr>tc_poller := cl_poller s\<rparr>) = Inr c'"
    and n: "tc_pending c' = []" "tc_closeCalls c' = 0"
  shows "cl_on True a i f s =
    Inr (s\<lparr>cl_conns := (cl_conns s)(i \<mapsto> c'), cl_connector := (cl_connector s)\<lparr>cn_poller := tc_poller c'\<rparr>\<rparr>)"
proof -
  have eq: "c'\<lparr>tc_pending := [], tc_closeCalls := 0\<rparr> = c'" using n by (cases c') simp
  show ?thesis using i f n by (simp add: cl_on_def eq)
qed

context conn_client
begin

lemma client_current:
  assumes inv: "cl_inv cinv s" and i: "cl_connection s = Some i"
  obtains c where "cl_conns s i = Some c" "conn_ok (c\<lparr>tc_poller := cl_poller s\<rparr>)" "cinv (c\<lparr>tc_poller := cl_poller s\<rparr>)"
    "cn_state (cl_connector s) = connector_state.kConnected" "hooked (c\<lparr>tc_poller := cl_poller s\<rparr>)"
proof -
  from cl_invD(5) [OF inv] i obtain c where c: "cl_conns s i = Some c" "cn_state (cl_connector s) = connector_state.kConnected"
    by (auto simp: cl_current_def)
  with cl_invD(8) [OF inv c(1)] i that show thesis by (auto simp: cl_phase_def)
qed

lemma client_watched:
  assumes inv: "cl_inv cinv s" and w: "cl_watched s i"
  shows "cl_connection s = Some i" and "cn_pending (cl_connector s) = []"
proof -
  from w obtain c where c: "cl_conns s i = Some c" "ep_watched (cl_poller s) (tc_fd c) \<noteq> 0" "cn_pending (cl_connector s) = []"
    by (auto simp: cl_watched_def split: option.splits)
  have "\<not> conn_silent (c\<lparr>tc_poller := cl_poller s\<rparr>)"
    using c(2) ep_invD [OF cl_invD(2) [OF inv]] by (fastforce simp: conn_silent_def ep_watched_def)
  with cl_invD(8) [OF inv c(1)] show "cl_connection s = Some i" by (auto simp: cl_phase_def split: if_splits)
  show "cn_pending (cl_connector s) = []" by (rule c(3))
qed

text \<open>An operation after which the connection is open leaves the client in order.\<close>

lemma client_on_open:
  assumes ok: "client_ok k cinv s" and i: "cl_conns s i = Some c" "cl_connection s = Some i"
    and f: "f True (c\<lparr>tc_poller := cl_poller s\<rparr>) = Inr c'" "conn_ok c'" "cinv c'"
      "same_spot c' (c\<lparr>tc_poller := cl_poller s\<rparr>)" "hooked c'" and n: "tc_pending c' = []" "tc_closeCalls c' = 0"
  shows "\<exists>s'. cl_on True a i f s = Inr s' \<and> client_ok k cinv s'"
proof -
  have inv: "cl_inv cinv s" and cb: "cl_callbacks s = k" using ok by (simp_all add: client_ok_def)
  have "cl_inv cinv (s\<lparr>cl_conns := (cl_conns s)(i \<mapsto> c'), cl_connector := (cl_connector s)\<lparr>cn_poller := tc_poller c'\<rparr>,
      cl_connection := cl_connection s, cl_pending := cl_pending s\<rparr>)"
    by (rule cl_inv_conn [OF inv loc i(1)])
      (use f n i in \<open>auto simp: same_spot_def conn_ok_def conn_inv_def cl_phase_def conn_open_def\<close>)
  then have "client_ok k cinv (s\<lparr>cl_conns := (cl_conns s)(i \<mapsto> c'), cl_connector := (cl_connector s)\<lparr>cn_poller := tc_poller c'\<rparr>\<rparr>)"
    using cb by (simp add: client_ok_def)
  with cl_on_quiet [of s i c f c' a, OF i(1) f(1) n] show ?thesis by simp
qed

text \<open>What the connection makes of an event.\<close>

lemma client_conn_event:
  assumes inv: "cl_inv cinv s" and i: "cl_connection s = Some i"
    and data: "reads re \<Longrightarrow> case rv of ReadvErr e \<Rightarrow> True
      | ReadvOk d \<Rightarrow> d = [] \<or> \<not> hangs_up re \<and> (case cl_conns s i of None \<Rightarrow> False | Some c \<Rightarrow> fits_input c d \<and> can_read c d)"
  obtains c c' where "cl_conns s i = Some c" "conn_handleEvent (kc r) rv wr t (reported re (c\<lparr>tc_poller := cl_poller s\<rparr>)) = Inr c'"
    "same_spot c' (c\<lparr>tc_poller := cl_poller s\<rparr>)" "hooked c'" "tc_pending c' = []"
    "tc_closeCalls c' = closes re rv" "if 0 < closes re rv then conn_silent c' else conn_ok c' \<and> cinv c'"
proof -
  obtain c where c: "cl_conns s i = Some c" "conn_ok (c\<lparr>tc_poller := cl_poller s\<rparr>)" "cinv (c\<lparr>tc_poller := cl_poller s\<rparr>)"
    "hooked (c\<lparr>tc_poller := cl_poller s\<rparr>)" using client_current [OF inv i] by blast
  let ?c = "c\<lparr>tc_poller := cl_poller s\<rparr>"
  have "fits_input ?c d = fits_input c d" for d by (simp add: fits_input_def)
  with data c(1) have data': "reads re \<Longrightarrow> case rv of ReadvErr e \<Rightarrow> True
      | ReadvOk d \<Rightarrow> d = [] \<or> \<not> hangs_up re \<and> fits_input ?c d \<and> can_read ?c d"
    by (auto simp: can_read_poller split: readv_result.splits)
  from event_after_poll [OF c(2,3,4) _ _ data', where r = r and wr = wr and t = t] cl_invD(9) [OF inv c(1)] that [OF c(1)]
  show thesis by auto
qed

text \<open>
  The connection closes, once or twice: the event is handled and \<^verbatim>\<open>removeConnection\<close> called as often; its first call gives the
  connection up and starts a new attempt if the user wants it.
\<close>

lemma client_closed:
  assumes ok: "client_ok k cinv s" and cur: "cl_connection s = Some i" "cn_pending (cl_connector s) = []"
    and a: "client_attempt_ok a s"
    and gone: "0 < closes re rv" and data: "reads re \<Longrightarrow> case rv of ReadvErr e \<Rightarrow> True | ReadvOk d \<Rightarrow> d = []"
  obtains s0 s' where "client_step s (ClEvent i re rv wr t r a) = repeat_calls (closes re rv) (cl_removeConnection True a i) s0"
    "cl_removeConnection True a i s0 = Inr s'" "client_ok k cinv s'" "cl_connection s' = None"
    "cl_pending s' = cl_pending s @ [CfDestroy i]"
    "if cl_retry s \<and> cl_connect s
     then \<exists>w. cn_restart True a ((cl_connector s)\<lparr>cn_poller := w\<rparr>) = Inr (cl_connector s')
     else \<exists>w. cl_connector s' = (cl_connector s)\<lparr>cn_poller := w\<rparr>"
proof -
  have inv: "cl_inv cinv s" and cb: "cl_callbacks s = k" using ok by (simp_all add: client_ok_def)
  have "reads re \<Longrightarrow> case rv of ReadvErr e \<Rightarrow> True
      | ReadvOk d \<Rightarrow> d = [] \<or> \<not> hangs_up re \<and> (case cl_conns s i of None \<Rightarrow> False | Some c \<Rightarrow> fits_input c d \<and> can_read c d)"
    using data by (cases rv) simp_all
  then obtain c c' where c: "cl_conns s i = Some c" and
    ev: "conn_handleEvent (kc r) rv wr t (reported re (c\<lparr>tc_poller := cl_poller s\<rparr>)) = Inr c'"
    "same_spot c' (c\<lparr>tc_poller := cl_poller s\<rparr>)" "hooked c'" "tc_pending c' = []"
    "tc_closeCalls c' = closes re rv" "if 0 < closes re rv then conn_silent c' else conn_ok c' \<and> cinv c'"
    by (rule client_conn_event [OF inv cur(1), where r = r and wr = wr and t = t])
  from ev gone have c': "conn_silent c'" "same_spot c' (c\<lparr>tc_poller := cl_poller s\<rparr>)" "hooked c'" by auto
  let ?d = "c'\<lparr>tc_pending := [], tc_closeCalls := 0\<rparr>"
  let ?u = "s\<lparr>cl_conns := (cl_conns s)(i \<mapsto> ?d), cl_connector := (cl_connector s)\<lparr>cn_poller := tc_poller c'\<rparr>\<rparr>"
  let ?s = "?u\<lparr>cl_connection := None, cl_pending := cl_pending s @ [CfDestroy i]\<rparr>"
  have inv': "cl_inv cinv ?s"
    by (rule cl_inv_conn [OF inv loc c])
      (use c' cur(1) in \<open>auto simp: same_spot_def conn_silent_def cl_phase_def conn_open_def hooked_def\<close>)
  have step: "client_step s (ClEvent i re rv wr t r a) = repeat_calls (closes re rv) (cl_removeConnection True a i) ?u"
    using c ev(1,4,5) cb cl_invD(4) [OF inv] by (simp add: cl_on_def Let_def)
  have run: "cl_removeConnection True a i ?u =
      (if cl_retry s \<and> cl_connect s then rbind (cn_restart True a (cl_connector ?s)) (\<lambda>n. Inr (?s\<lparr>cl_connector := n\<rparr>)) else Inr ?s)"
    using cur(1) cl_invD(3) [OF inv] by (simp add: cl_removeConnection_def cl_queue_def Let_def)
  show thesis
  proof (cases "cl_retry s \<and> cl_connect s")
    case False
    with step run inv' cb show ?thesis by (intro that [of ?u ?s]) (auto simp: client_ok_def)
  next
    case True
    have st: "cn_state (cl_connector s) = connector_state.kConnected" using cl_invD(5) [OF inv] cur(1) by (simp add: cl_current_def)
    from connected_idle [OF cl_invD(1) [OF inv] st cur(2)] have idle: "cn_idle (cl_connector ?s)" by (simp add: cn_idle_def)
    obtain fd e p where fep: "a = (fd, e, p)" by (cases a)
    have other: "p \<noteq> tc_channel c" "fd \<noteq> tc_fd c"
      using a fep c cl_invD(10) [OF inv c] by (auto simp: client_attempt_ok_def attempt_ok_def)
    then have "ep_heap (tc_poller c') p = ep_heap (cl_poller s) p" "ep_channels (tc_poller c') fd = ep_channels (cl_poller s) fd"
      using c'(2) by (simp_all add: same_spot_def poller_frame_def)
    then have ap: "client_attempt_ok a ?s"
      using a fep other c'(2) by (auto simp: client_attempt_ok_def attempt_ok_def same_spot_def)
    from ap idle have "connector_enabled (cl_connector ?s) (CnRestart a)" by (simp add: client_attempt_ok_def)
    from cl_connector_step [OF inv' loc this] ap obtain n where
      n: "cn_restart True a (cl_connector ?s) = Inr n" "cl_inv cinv (?s\<lparr>cl_connector := n\<rparr>)" by auto
    with step run True cb show ?thesis by (intro that [of ?u "?s\<lparr>cl_connector := n\<rparr>"]) (auto simp: client_ok_def)
  qed
qed

lemma client_gone:
  assumes ok: "client_ok k cinv s" and cur: "cl_connection s = Some i" "cn_pending (cl_connector s) = []"
    and a: "client_attempt_ok a s" and gone: "hangs_up re \<or> reads re \<and> rv = ReadvOk []" and un: "hup_unread re rv"
  shows "\<exists>s'. client_step s (ClEvent i re rv wr t r a) = Inr s' \<and> client_ok k cinv s' \<and> cl_connection s' = None \<and>
    cl_pending s' = cl_pending s @ [CfDestroy i] \<and>
    (if cl_retry s \<and> cl_connect s
     then \<exists>w. cn_restart True a ((cl_connector s)\<lparr>cn_poller := w\<rparr>) = Inr (cl_connector s')
     else \<exists>w. cl_connector s' = (cl_connector s)\<lparr>cn_poller := w\<rparr>)"
proof -
  have one: "closes re rv = Suc 0" using closes_unread [OF un] gone by simp
  moreover have "reads re \<Longrightarrow> case rv of ReadvErr e \<Rightarrow> True | ReadvOk d \<Rightarrow> d = []"
    using gone un by (cases rv) (auto simp: hup_unread_def)
  ultimately obtain s0 s' where
    "client_step s (ClEvent i re rv wr t r a) = repeat_calls (closes re rv) (cl_removeConnection True a i) s0"
    "cl_removeConnection True a i s0 = Inr s'" "client_ok k cinv s'" "cl_connection s' = None" "cl_pending s' = cl_pending s @ [CfDestroy i]"
    "if cl_retry s \<and> cl_connect s
     then \<exists>w. cn_restart True a ((cl_connector s)\<lparr>cn_poller := w\<rparr>) = Inr (cl_connector s')
     else \<exists>w. cl_connector s' = (cl_connector s)\<lparr>cn_poller := w\<rparr>"
    using client_closed [OF ok cur a, of re rv wr t r] by (metis zero_less_Suc)
  with one show ?thesis by (intro exI [of _ s']) simp
qed

text \<open>Closed twice by one event: the second call of \<^verbatim>\<open>removeConnection\<close> does not find the connection.\<close>

lemma client_double_close:
  assumes ok: "client_ok k cinv s" and w: "cl_watched s i" and a: "client_attempt_ok a s" and re: "hangs_up re" "reads re"
  shows "client_step s (ClEvent i re (ReadvOk []) wr t r a) = Inl (AssertFail ''connection_ == conn'')"
proof -
  have "cl_inv cinv s" using ok by (simp add: client_ok_def)
  note cur = client_watched [OF this w]
  have two: "closes re (ReadvOk []) = Suc (Suc 0)" using re by (simp add: closes_def)
  obtain s0 s' where s':
    "client_step s (ClEvent i re (ReadvOk []) wr t r a) = repeat_calls (closes re (ReadvOk [])) (cl_removeConnection True a i) s0"
    "cl_removeConnection True a i s0 = Inr s'" "client_ok k cinv s'" "cl_connection s' = None"
    by (rule client_closed [OF ok cur a, of re "ReadvOk []" wr t r]) (use two in auto)
  from s'(3,4) have "cl_removeConnection True a i s' = Inl (AssertFail ''connection_ == conn'')"
    by (simp add: cl_removeConnection_def client_ok_def cl_inv_def)
  with s'(1,2) two show ?thesis by simp
qed

end

lemma cn_channel_heap: "cn_inv n \<Longrightarrow> cn_channel n = Some q \<Longrightarrow> ep_heap (cn_poller n) q \<noteq> None"
  by (auto simp: cn_inv_def cn_attempt_def)

text \<open>A connection is added on the socket a connector has handed over.\<close>

lemma cl_inv_add:
  assumes inv: "cl_inv cinv s" and loc: "client_local cinv" and none: "cl_connection s = None" "cl_conns s i = None"
    and st: "cn_state (cl_connector s) = connector_state.kConnected" "cn_open (cl_connector s) = []"
    and c: "conn_ok c" "cinv c" "tc_pending c = []" "tc_closeCalls c = 0" "hooked c"
    and fresh: "ep_heap (cl_poller s) (tc_channel c) = None" "\<And>j d. cl_conns s j = Some d \<Longrightarrow> tc_fd d \<noteq> tc_fd c"
    and w: "poller_frame (tc_channel c) (tc_fd c) (cl_poller s) (tc_poller c)"
  shows "cl_inv cinv (s\<lparr>cl_nextConnId := m, cl_conns := (cl_conns s)(i \<mapsto> c),
    cl_connector := (cl_connector s)\<lparr>cn_poller := tc_poller c\<rparr>, cl_connection := Some i\<rparr>)" (is "cl_inv cinv ?s")
proof -
  from c(1) have ep: "ep_inv (tc_poller c)" "ep_channels (tc_poller c) (tc_fd c) = Some (tc_channel c)"
    by (simp_all add: conn_ok_def conn_inv_def)
  have ne: "cn_channel (cl_connector s) \<noteq> Some (tc_channel c)"
    using cn_channel_heap [OF cl_invD(1) [OF inv]] fresh(1) by auto
  from cn_inv_frame [OF cl_invD(1) [OF inv] ep(1) w ne] st(2) ep(2) have "cn_inv (cl_connector ?s)" by simp
  moreover have other: "tc_channel d \<noteq> tc_channel c" "tc_fd d \<noteq> tc_fd c" if "cl_conns s j = Some d" for j d
    using cl_invD(10) [OF inv that] fresh(1) fresh(2) [OF that] by auto
  have "cl_apart ?s"
    using cl_invD(7) [OF inv] other ne st(2) unfolding cl_apart_def by (simp split: if_splits) metis
  moreover have "cl_current ?s" using st(1) by (simp add: cl_current_def)
  moreover from cl_invD(6) [OF inv] obtain ds where ds: "cl_pending s = map CfDestroy ds" "distinct ds"
    "\<And>j. j \<in> set ds \<longleftrightarrow> cl_conns s j \<noteq> None" using none(1) by (auto simp: cl_doomed_def)
  have "j \<in> set ds \<longleftrightarrow> cl_conns ?s j \<noteq> None \<and> cl_connection ?s \<noteq> Some j" for j using ds(3) [of j] none(2) by auto
  with ds(1,2) have "cl_doomed ?s" by (auto simp: cl_doomed_def)
  moreover have "cl_phase cinv (Some i = Some j) (d\<lparr>tc_poller := tc_poller c\<rparr>)" if j: "cl_conns ?s j = Some d" for j d
  proof (cases "j = i")
    case True
    with j c show ?thesis by (auto simp: cl_phase_def)
  next
    case False
    with j have d: "cl_conns s j = Some d" by simp
    from cl_phase_frame [OF cl_invD(8) [OF inv d] loc ep(1)] other [OF d] w False none(1) show ?thesis by (simp add: poller_frame_def)
  qed
  ultimately show ?thesis using inv by (simp add: cl_inv_def)
qed

context conn_client
begin

lemma client_functor:
  assumes ok: "client_ok k cinv s"
  shows "\<exists>s'. client_step s (ClFunctor r) = Inr s' \<and> client_ok k cinv s' \<and> cl_connection s' = cl_connection s \<and>
    (\<exists>w. cl_connector s' = (cl_connector s)\<lparr>cn_poller := w\<rparr>) \<and>
    (\<forall>i q. cl_pending s = CfDestroy i # q \<longrightarrow> cl_pending s' = q \<and> cl_conns s' = (cl_conns s)(i := None))"
proof (cases "cl_pending s")
  case Nil
  with ok show ?thesis by (auto intro!: exI [of _ "cl_poller s"])
next
  case (Cons f q)
  have inv: "cl_inv cinv s" and cb: "cl_callbacks s = k" using ok by (simp_all add: client_ok_def)
  from cl_invD(6) [OF inv] obtain ds where
    "cl_pending s = map CfDestroy ds" and ds2: "\<And>j. j \<in> set ds \<longleftrightarrow> cl_conns s j \<noteq> None \<and> cl_connection s \<noteq> Some j"
    unfolding cl_doomed_def by blast
  with Cons have ds: "f # q = map CfDestroy ds" by simp
  from ds obtain i where f: "f = CfDestroy i" "i \<in> set ds" by (cases ds) auto
  with ds2 [of i] obtain c where i: "cl_conns s i = Some c" "cl_connection s \<noteq> Some i" by auto
  let ?c = "c\<lparr>tc_poller := cl_poller s\<rparr>"
  have silent: "conn_silent ?c" using cl_invD(8) [OF inv i(1)] i(2) by (simp add: cl_phase_def)
  from destroyed [OF disjI2 [OF silent], of r] obtain c' ch where
    c': "connectDestroyed (kc r) True ?c = Inr c'" "ep_inv (tc_poller c')" "same_place c' ?c" "same_notes c' ?c"
      "ep_heap (tc_poller c') (tc_channel c) = Some ch" "ch_fd ch = tc_fd c" "ep_channels (tc_poller c') (tc_fd c) = None" by auto
  let ?w = "(tc_poller c')\<lparr>ep_heap := (ep_heap (tc_poller c'))(tc_channel c := None)\<rparr>"
  let ?s = "s\<lparr>cl_conns := (cl_conns s)(i := None), cl_connector := (cl_connector s)\<lparr>cn_poller := ?w\<rparr>, cl_pending := q\<rparr>"
  have "ep_inv ?w" using ep_inv_drop [OF c'(2,5)] c'(6,7) by simp
  moreover have "poller_frame (tc_channel c) (tc_fd c) (cl_poller s) ?w"
    using c'(3) by (simp add: same_place_def poller_frame_def)
  ultimately have "cl_inv cinv ?s" using cl_inv_release [OF inv loc i(1), of q ?w] Cons f(1) c'(7) by simp
  moreover have n: "tc_pending c' = []" "tc_closeCalls c' = 0" using c'(4) cl_invD(9) [OF inv i(1)] by (simp_all add: same_notes_def)
  have "client_step s (ClFunctor r) = Inr ?s"
    using Cons f(1) cb cl_on_quiet [of "s\<lparr>cl_pending := q\<rparr>" i c "connectDestroyed (kc r)" c', OF _ _ n] i(1) c'(1,3)
    by (simp add: run_client_fn_def cl_release_def same_place_def)
  ultimately show ?thesis using cb Cons f(1) by (auto simp: client_ok_def)
qed

lemma client_up:
  assumes ok: "client_ok k cinv s" and en: "client_enabled can_read s (ClUp so sn pn i p hwm r)"
    and st: "cn_state (cl_connector s) = connector_state.kConnecting"
  shows "\<exists>s'. client_step s (ClUp so sn pn i p hwm r) = Inr s' \<and> client_ok k cinv s' \<and>
    cn_pending (cl_connector s') = [FResetChannel] \<and> cl_retry s' = cl_retry s \<and> cl_connect s' = cl_connect s \<and> cl_pending s' = cl_pending s \<and>
    (getSocketError so = None \<and> \<not> isSelfConnect sn pn \<and> cn_connect (cl_connector s) \<longrightarrow>
      cl_connection s' = Some i \<and> dom (cl_conns s') = insert i (dom (cl_conns s)))"
proof -
  have inv: "cl_inv cinv s" and cb: "cl_callbacks s = k" using ok by (simp_all add: client_ok_def)
  from cn_handleWrite_ok [OF cl_invD(1) [OF inv] st, of so sn pn] obtain g n fd where
    g: "cn_handleWrite True so sn pn (cl_connector s) = Inr (g, n)" "cn_inv n" "cn_open (cl_connector s) = [fd]"
      "g = Some fd \<longleftrightarrow> getSocketError so = None \<and> \<not> isSelfConnect sn pn \<and> cn_connect (cl_connector s)" "g = None \<or> g = Some fd"
      "cn_pending n = [FResetChannel]" "ep_channels (cn_poller n) fd = None" "cn_channel n = cn_channel (cl_connector s)" "cn_open n = []"
      "cn_frame (cl_connector s) n" "g = Some fd \<Longrightarrow> cn_state n = connector_state.kConnected" by auto
  have none: "cl_connection s = None" using cl_invD(5) [OF inv] st by (auto simp: cl_current_def)
  let ?s = "s\<lparr>cl_connector := n\<rparr>"
  have inv': "cl_inv cinv ?s"
    by (rule cl_inv_connector [OF inv loc g(2,10)])
      (use none cl_invD(7) [OF inv] g(8,9) in \<open>auto simp: cl_apart_def\<close>)
  show ?thesis
  proof (cases g)
    case None
    with g inv' cb none show ?thesis by (auto simp: client_ok_def)
  next
    case (Some fd')
    with g(5) have gfd: "g = Some fd" by simp
    let ?peer = "InetAddress_of (getPeerAddr pn)"
    let ?name = "snprintf_out 32 ('':'' @ InetAddress_toHostPort ?peer @ ''#'' @ show_int (cl_nextConnId s))"
    define c :: "'ctx tcp_conn" where "c = new_TcpConnection ?name fd p (InetAddress_of (getLocalAddr sn)) ?peer hwm (cn_poller n)"
    have "cn_channel n \<noteq> Some p" using en cn_channel_heap [OF cl_invD(1) [OF inv]] g(8) by auto
    then have hp: "ep_heap (cn_poller n) p = None" using g(8,10) en by (simp add: cn_frame_def)
    have ep: "ep_inv (cn_poller n)" using g(2) by (simp add: cn_inv_def)
    have fr: "conn_fresh c" "tc_poller c = ep_put p (conn_chan fd) (cn_poller n)"
      using new_TcpConnection_fresh [OF ep hp g(7)] by (simp_all add: c_def)
    have cs: "tc_fd c = fd" "tc_channel c = p" "tc_pending c = []" "tc_closeCalls c = 0" by (simp_all add: c_def new_TcpConnection_def)
    have "hooked c" by (simp add: c_def new_TcpConnection_hooked)
    with fr(1) obtain c' where
      c': "connectEstablished (kc r) True c = Inr c'" "conn_ok c'" "cinv c'" "same_spot c' c" "hooked c'"
        "tc_pending c' = []" "tc_closeCalls c' = 0" by (rule established_hooked)
    have place: "tc_fd c' = fd" "tc_channel c' = p" "tc_pending c' = []" "tc_closeCalls c' = 0"
      "poller_frame p fd (cn_poller n) (tc_poller c')"
      using c'(4,6,7) cs fr(2) by (auto simp: same_spot_def poller_frame_def ep_put_def)
    let ?t = "?s\<lparr>cl_nextConnId := cl_nextConnId s + 1, cl_conns := (cl_conns s)(i \<mapsto> c'),
      cl_connector := n\<lparr>cn_poller := tc_poller c'\<rparr>, cl_connection := Some i\<rparr>"
    have "tc_fd d \<noteq> fd" if "cl_conns s j = Some d" for j d
      using cl_invD(7) [OF inv] g(3) that by (auto simp: cl_apart_def)
    then have "cl_inv cinv ?t"
      using cl_inv_add [OF inv' loc, of i c' "cl_nextConnId s + 1"] none en g(9) g(11) [OF gfd] c'(2,3,5) place hp by simp
    moreover have "client_step s (ClUp so sn pn i p hwm r) = Inr ?t"
    proof -
      let ?u = "s\<lparr>cl_nextConnId := cl_nextConnId s + 1, cl_conns := (cl_conns s)(i \<mapsto> c),
        cl_connector := n\<lparr>cn_poller := tc_poller c\<rparr>, cl_connection := Some i\<rparr>"
      have "c\<lparr>tc_poller := tc_poller c\<rparr> = c" by simp
      from cl_on_quiet [of ?u i c "connectEstablished (kc r)" c' "(0, None, 0)"] c'(1) place this
      have "cl_on True (0, None, 0) i (connectEstablished (kc r)) ?u = Inr ?t" by simp
      with g(1) gfd cb show ?thesis by (simp add: cl_newConnection_def Let_def c_def)
    qed
    ultimately show ?thesis using cb g(6) none by (auto simp: client_ok_def)
  qed
qed

end

context conn_client
begin

lemma client_disconnect:
  assumes ok: "client_ok k cinv s"
  shows "\<exists>s'. client_step s ClDisconnect = Inr s' \<and> client_ok k cinv s'"
proof -
  let ?s = "s\<lparr>cl_connect := False\<rparr>"
  have ok': "client_ok k cinv ?s"
    using ok by (simp add: client_ok_def cl_inv_def cl_current_def cl_doomed_def cl_apart_def)
  then have inv: "cl_inv cinv ?s" by (simp add: client_ok_def)
  show ?thesis
  proof (cases "cl_connection s")
    case None
    with ok' show ?thesis by (simp add: cl_disconnect_def)
  next
    case (Some i)
    then have i: "cl_connection ?s = Some i" by simp
    obtain c where c: "cl_conns ?s i = Some c" "conn_ok (c\<lparr>tc_poller := cl_poller ?s\<rparr>)" "cinv (c\<lparr>tc_poller := cl_poller ?s\<rparr>)"
      "hooked (c\<lparr>tc_poller := cl_poller ?s\<rparr>)" using client_current [OF inv i] by blast
    from shutdown_open [OF c(2)] obtain c' where
      c': "conn_shutdown True (c\<lparr>tc_poller := cl_poller ?s\<rparr>) = Inr c'" "conn_ok c'" "same_place c' (c\<lparr>tc_poller := cl_poller ?s\<rparr>)"
        "same_notes c' (c\<lparr>tc_poller := cl_poller ?s\<rparr>)" "tc_context c' = tc_context (c\<lparr>tc_poller := cl_poller ?s\<rparr>)"
        "tc_input c' = tc_input (c\<lparr>tc_poller := cl_poller ?s\<rparr>)" by blast
    have "tc_pending c' = []" "tc_closeCalls c' = 0" using c'(4) cl_invD(9) [OF inv c(1)] by (simp_all add: same_notes_def)
    from client_on_open [of ?s i c conn_shutdown c' "(0, None, 0)", OF ok' c(1) i c'(1,2) cinv_local [OF c(3) c'(5,6)]
        same_place_spot [OF c'(3)] hooked_place(1) [OF c(4) c'(3)] this] Some show ?thesis
      by (auto simp: cl_disconnect_def)
  qed
qed

lemma client_event:
  assumes ok: "client_ok k cinv s" and en: "client_enabled can_read s (ClEvent i re rv wr t r a)"
  shows "\<exists>s'. client_step s (ClEvent i re rv wr t r a) = Inr s' \<and> client_ok k cinv s'"
proof -
  have inv: "cl_inv cinv s" and cb: "cl_callbacks s = k" using ok by (simp_all add: client_ok_def)
  from en have w: "cl_watched s i" and a: "client_attempt_ok a s" and un: "hup_unread re rv" by simp_all
  note cur = client_watched [OF inv w]
  show ?thesis
  proof (cases "hangs_up re \<or> reads re \<and> rv = ReadvOk []")
    case True
    from client_gone [OF ok cur a True un, of wr t r] show ?thesis by blast
  next
    case False
    then have none: "closes re rv = 0" by (simp add: closes_def)
    from en False have "reads re \<Longrightarrow> case rv of ReadvErr e \<Rightarrow> True
      | ReadvOk d \<Rightarrow> d = [] \<or> \<not> hangs_up re \<and> (case cl_conns s i of None \<Rightarrow> False | Some c \<Rightarrow> fits_input c d \<and> can_read c d)"
      by (auto split: readv_result.splits)
    then obtain c c' where c: "cl_conns s i = Some c" and
      ev: "conn_handleEvent (kc r) rv wr t (reported re (c\<lparr>tc_poller := cl_poller s\<rparr>)) = Inr c'"
      "same_spot c' (c\<lparr>tc_poller := cl_poller s\<rparr>)" "hooked c'" "tc_pending c' = []"
      "tc_closeCalls c' = closes re rv" "if 0 < closes re rv then conn_silent c' else conn_ok c' \<and> cinv c'"
      by (rule client_conn_event [OF inv cur(1), where r = r and wr = wr and t = t])
    from ev none have c': "conn_handleEvent (kc r) rv wr t (reported re (c\<lparr>tc_poller := cl_poller s\<rparr>)) = Inr c'"
      "conn_ok c'" "cinv c'" "same_spot c' (c\<lparr>tc_poller := cl_poller s\<rparr>)" "hooked c'" "tc_pending c' = []" "tc_closeCalls c' = 0" by auto
    from client_on_open [of s i c "\<lambda>il c. conn_handleEvent (kc r) rv wr t (reported re c)" c' a, OF ok c cur(1) c'] cb show ?thesis by simp
  qed
qed

lemma client_connector:
  assumes ok: "client_ok k cinv s" and "connector_enabled (cl_connector s) ev"
    and "case ev_attempt ev of None \<Rightarrow> True | Some a \<Rightarrow> client_attempt_ok a s"
    and "cl_connection s = None \<or> loop_event ev \<or> ev = CnStop"
  shows "\<exists>n. connector_step (cl_connector s) ev = Inr n \<and> client_ok k cinv (s\<lparr>cl_connector := n\<rparr>)"
  using cl_connector_step [OF _ loc assms(2-4)] ok by (auto simp: client_ok_def)

lemma client_step_safe:
  assumes ok: "client_ok k cinv s" and en: "client_enabled can_read s ev"
  shows "\<exists>s'. client_step s ev = Inr s' \<and> client_ok k cinv s'"
proof (cases ev)
  case (ClConnect il a)
  have "cl_connection s = None"
    using ok en ClConnect by (cases "cl_connection s") (auto simp: client_ok_def cl_inv_def cl_current_def)
  with client_connector [OF ok, of "CnStart il a"] en ClConnect obtain n where
    n: "cn_start il a (cl_connector s) = Inr n" "client_ok k cinv (s\<lparr>cl_connector := n\<rparr>)" by auto
  then have "client_ok k cinv (s\<lparr>cl_connect := True, cl_connector := n\<rparr>)"
    by (simp add: client_ok_def cl_inv_def cl_current_def cl_doomed_def cl_apart_def)
  with n(1) ClConnect show ?thesis by (simp add: cl_connect_call_def)
next
  case ClDisconnect
  with client_disconnect [OF ok] show ?thesis by simp
next
  case ClStop
  with client_connector [OF ok, of CnStop] have "client_ok k cinv (s\<lparr>cl_connector := cn_stop (cl_connector s)\<rparr>)" by simp
  then have "client_ok k cinv (cl_stop s)"
    by (simp add: cl_stop_def client_ok_def cl_inv_def cl_current_def cl_doomed_def cl_apart_def)
  with ClStop show ?thesis by simp
next
  case (ClUp so sn pn i p hwm r)
  have "cn_inv (cl_connector s)" using ok by (simp add: client_ok_def cl_inv_def)
  with en ClUp have "cn_state (cl_connector s) = connector_state.kConnecting" using cn_watched_connecting by simp
  with client_up [OF ok] en ClUp show ?thesis by blast
next
  case (ClConnector ev')
  with client_connector [OF ok, of ev'] en show ?thesis by auto
next
  case (ClEvent i re rv wr t r a)
  with client_event [OF ok] en show ?thesis by blast
next
  case (ClFunctor r)
  with client_functor [OF ok] show ?thesis by blast
qed

end

text \<open>Every user that keeps the contract of a connection makes the client safe.\<close>

sublocale conn_client < cl: safe_steps client_step "client_ok k cinv" "client_enabled can_read"
  by unfold_locales (rule client_step_safe)

section \<open>A user that connects once\<close>

fun is_connect :: "client_ev \<Rightarrow> bool" where
  "is_connect (ClConnect il a) = True"
| "is_connect ev = False"

text \<open>What is asked without looking into the client: \<^verbatim>\<open>connect\<close> may be called with any fresh socket.\<close>

fun client_allowed :: "('ctx tcp_conn \<Rightarrow> string \<Rightarrow> bool) \<Rightarrow> 'ctx tcp_client \<Rightarrow> client_ev \<Rightarrow> bool" where
  "client_allowed can_read s (ClConnect il a) \<longleftrightarrow> client_attempt_ok a s"
| "client_allowed can_read s ev \<longleftrightarrow> client_enabled can_read s ev"

definition client_unused :: "(write_result \<Rightarrow> 'ctx conn_callbacks) \<Rightarrow> ('ctx tcp_conn \<Rightarrow> bool) \<Rightarrow> 'ctx tcp_client \<Rightarrow> bool" where
  "client_unused k cinv s \<longleftrightarrow> client_ok k cinv s \<and> cn_unused (cl_connector s) \<and> cl_connection s = None \<and> cl_pending s = []"

context conn_client
begin

lemma client_before:
  assumes un: "client_unused k cinv s" and en: "client_allowed can_read s ev" "\<not> is_connect ev"
  shows "\<exists>s'. client_step s ev = Inr s' \<and> client_unused k cinv s'"
proof -
  from un have ok: "client_ok k cinv s" and n: "cn_unused (cl_connector s)" and c: "cl_connection s = None" "cl_pending s = []"
    and inv: "cl_inv cinv s" by (simp_all add: client_unused_def client_ok_def)
  from n have idle: "cn_timers (cl_connector s) = []" "cn_pending (cl_connector s) = []" by (simp_all add: cn_unused_def cn_idle_def)
  note nw = unused_not_watched [OF n]
  have no_ev: "\<not> cl_watched s i" for i using client_watched(1) [OF inv, of i] c(1) by auto
  have no_cn: "\<not> (loop_event ev' \<and> connector_enabled (cl_connector s) ev')" for ev'
    using idle nw by (cases ev') auto
  from en have en': "client_enabled can_read s ev" by (cases ev) simp_all
  from client_step_safe [OF ok this] obtain s' where s': "client_step s ev = Inr s'" "client_ok k cinv s'" by blast
  have "cn_unused (cl_connector s') \<and> cl_connection s' = None \<and> cl_pending s' = []"
    using en(2) en' s'(1) n c nw no_ev no_cn unused_stop [OF n] by (cases ev) (auto simp: cl_disconnect_def cl_stop_def)
  with s' show ?thesis by (auto simp: client_unused_def)
qed

end

sublocale conn_client < cl1: one_shot_steps client_step "client_ok k cinv" "client_allowed can_read" "client_unused k cinv" is_connect
proof
  fix s ev assume s: "client_ok k cinv s" "client_allowed can_read s ev" "\<not> is_connect ev"
  then have "client_enabled can_read s ev" by (cases ev) simp_all
  with client_step_safe s(1) show "\<exists>s'. client_step s ev = Inr s' \<and> client_ok k cinv s'" by blast
next
  fix s ev assume s: "client_unused k cinv s" "client_allowed can_read s ev" "is_connect ev"
  then have "client_ok k cinv s" "client_enabled can_read s ev"
    by (cases ev; simp add: client_unused_def cn_unused_def client_attempt_ok_def)+
  with client_step_safe show "\<exists>s'. client_step s ev = Inr s' \<and> client_ok k cinv s'" by blast
qed (use client_before in \<open>auto simp: client_unused_def\<close>)

text \<open>What \<open>hup_unread\<close> excludes is fatal.\<close>

definition client_double_close_fatal :: "'ctx tcp_client \<Rightarrow> bool" where
  "client_double_close_fatal s \<longleftrightarrow> (\<forall>i re wr t r a. cl_watched s i \<longrightarrow> client_attempt_ok a s \<longrightarrow> hangs_up re \<longrightarrow> reads re \<longrightarrow>
     client_step s (ClEvent i re (ReadvOk []) wr t r a) = Inl (AssertFail ''connection_ == conn''))"

context conn_client
begin

lemmas client_run_once = cl1.run_once

lemma client_double_close_aborts: "client_ok k cinv s \<Longrightarrow> client_double_close_fatal s"
  unfolding client_double_close_fatal_def using client_double_close by blast

end

section \<open>Properties\<close>

definition configured :: "(write_result \<Rightarrow> 'ctx conn_callbacks) \<Rightarrow> bool \<Rightarrow> 'ctx tcp_client \<Rightarrow> 'ctx tcp_client" where
  "configured k retry s = (if retry then enableRetry else id) (s\<lparr>cl_callbacks := k\<rparr>)"

lemma configured_simps [simp]:
  "cl_connector (configured k b s) = cl_connector s" "cl_callbacks (configured k b s) = k" "cl_retry (configured k b s) = (cl_retry s \<or> b)"
  "cl_connect (configured k b s) = cl_connect s" "cl_connection (configured k b s) = cl_connection s"
  "cl_conns (configured k b s) = cl_conns s" "cl_pending (configured k b s) = cl_pending s" "cl_alive (configured k b s) = cl_alive s"
  "cl_detached (configured k b s) = cl_detached s" "cl_nextConnId (configured k b s) = cl_nextConnId s"
  by (simp_all add: configured_def enableRetry_def)

lemma new_client_simps [simp]:
  "cl_connector (new_TcpClient addr w) = setNewConnectionCallback (new_Connector addr w)" "cl_connection (new_TcpClient addr w) = None"
  "cl_conns (new_TcpClient addr w) = Map.empty" "cl_pending (new_TcpClient addr w) = []" "cl_alive (new_TcpClient addr w)"
  "\<not> cl_detached (new_TcpClient addr w)" "cl_nextConnId (new_TcpClient addr w) = 1"
  by (simp_all add: new_TcpClient_def)

lemma new_client_ok: "ep_inv w \<Longrightarrow> client_ok k cinv (configured k b (new_TcpClient addr w))"
  using new_Connector_inv [of w addr] by (simp add: client_ok_def cl_inv_def cl_current_def cl_doomed_def cl_apart_def)

lemma new_client_unused: "ep_inv w \<Longrightarrow> client_unused k cinv (configured k b (new_TcpClient addr w))"
  using new_Connector_unused [of w addr] new_client_ok [of w k cinv b addr] by (simp add: client_unused_def)

text \<open>
  What the invariant says of a client: the connection it holds is open, every other one waits for the one functor that
  destroys it, and it holds one only when its connector has succeeded.
\<close>

definition client_exact :: "'ctx tcp_client \<Rightarrow> bool" where
  "client_exact s \<longleftrightarrow> distinct (cl_pending s) \<and>
    (\<forall>i. cl_conns s i \<noteq> None \<longrightarrow> (cl_connection s = Some i \<longleftrightarrow> CfDestroy i \<notin> set (cl_pending s))) \<and>
    (\<forall>i. cl_connection s = Some i \<longrightarrow> cn_state (cl_connector s) = connector_state.kConnected \<and>
      (\<exists>c. cl_conns s i = Some c \<and> conn_open c \<and> ep_channels (cl_poller s) (tc_fd c) = Some (tc_channel c)))"

lemma cl_inv_exact:
  assumes inv: "cl_inv cinv s"
  shows "client_exact s"
proof -
  from cl_invD(6) [OF inv] obtain ds where ds: "cl_pending s = map CfDestroy ds" "distinct ds"
    "\<And>i. i \<in> set ds \<longleftrightarrow> cl_conns s i \<noteq> None \<and> cl_connection s \<noteq> Some i" unfolding cl_doomed_def by blast
  have "distinct (cl_pending s)" using ds(1,2) by (simp add: distinct_map inj_on_def)
  moreover have "\<exists>c. cl_conns s i = Some c \<and> conn_open c \<and> ep_channels (cl_poller s) (tc_fd c) = Some (tc_channel c)"
    if i: "cl_connection s = Some i" for i
  proof -
    from cl_invD(5) [OF inv] i obtain c where c: "cl_conns s i = Some c" by (auto simp: cl_current_def)
    with cl_invD(8) [OF inv c] cl_invD(10) [OF inv c] i show ?thesis by (auto simp: cl_phase_def conn_ok_def conn_open_def)
  qed
  ultimately show ?thesis
    using ds(1,3) cl_invD(5) [OF inv] by (auto simp: client_exact_def cl_current_def)
qed


lemma cn_restart_outcome:
  assumes "cn_restart True (fd, e, p) n = Inr n'" and "cn_open n = []" "cn_timers n = []"
  shows "case connect_outcome e of
      GoOn \<Rightarrow> cn_state n' = connector_state.kConnecting \<and> cn_open n' = [fd] \<and> cn_retryDelayMs n' = kInitRetryDelayMs
    | Retry \<Rightarrow> cn_state n' = connector_state.kDisconnected \<and> cn_open n' = [] \<and> map snd (cn_timers n') = [kInitRetryDelayMs]
    | GiveUp \<Rightarrow> cn_state n' = connector_state.kDisconnected \<and> cn_open n' = [] \<and> cn_timers n' = []"
  using assms
  by (auto simp: cn_restart_def cn_startInLoop_def cn_connect_now_def createNonblockingOrDie_def cn_connecting_def cn_retry_def
    cn_close_def res_Inr_iffs Let_def split: connect_action.splits)

text \<open>A client that has lost its connection and does not reconnect: whatever happens but a \<^verbatim>\<open>connect\<close> leaves it so.\<close>

definition client_lost :: "(write_result \<Rightarrow> 'ctx conn_callbacks) \<Rightarrow> ('ctx tcp_conn \<Rightarrow> bool) \<Rightarrow> 'ctx tcp_client \<Rightarrow> bool" where
  "client_lost k cinv s \<longleftrightarrow> client_ok k cinv s \<and> cl_connection s = None \<and> cn_state (cl_connector s) = connector_state.kConnected"

lemma client_lost_connect: "client_lost k cinv s \<Longrightarrow> client_step s (ClConnect True b) = Inl (AssertFail ''state_ == kDisconnected'')"
  by (simp add: client_lost_def cl_connect_call_def cn_start_def cn_startInLoop_def)

context conn_client
begin

lemma client_lost_step:
  assumes lost: "client_lost k cinv s" and en: "client_allowed can_read s ev" "\<not> is_connect ev"
  shows "\<exists>s'. client_step s ev = Inr s' \<and> client_lost k cinv s'"
proof -
  from lost have ok: "client_ok k cinv s" and none: "cl_connection s = None" and st: "cn_state (cl_connector s) = connector_state.kConnected"
    and inv: "cl_inv cinv s" by (simp_all add: client_lost_def client_ok_def)
  have nw: "\<not> cn_watched (cl_connector s)" using cn_watched_connecting [OF cl_invD(1) [OF inv]] st by auto
  from en have en': "client_enabled can_read s ev" by (cases ev) simp_all
  from client_step_safe [OF ok this] obtain s' where s': "client_step s ev = Inr s'" "client_ok k cinv s'" by blast
  have "cl_connection s' = None \<and> cn_state (cl_connector s') = connector_state.kConnected"
  proof (cases ev)
    case (ClFunctor r)
    with client_functor [OF ok, of r] s'(1) none st show ?thesis by auto
  next
    case (ClConnector ev')
    with s'(1) obtain n where n: "connector_step (cl_connector s) ev' = Inr n" "s' = s\<lparr>cl_connector := n\<rparr>" by (auto simp: res_Inr_iffs)
    from en' ClConnector have "connector_enabled (cl_connector s) ev'" "loop_event ev'" by simp_all
    with connector_stays_connected [OF cl_invD(1) [OF inv] _ st n(1)] n(2) none show ?thesis by simp
  next
    case (ClEvent i re rv wr t r a)
    with en' client_watched(1) [OF inv] none show ?thesis by auto
  qed (use en en' s'(1) none st nw in \<open>auto simp: cl_disconnect_def cl_stop_def\<close>)
  with s' show ?thesis by (auto simp: client_lost_def)
qed

lemma client_lost_run:
  "client_lost k cinv s \<Longrightarrow> enabled_run client_step (client_allowed can_read) s evs \<Longrightarrow> filter is_connect evs = [] \<Longrightarrow>
   \<exists>s'. run_steps client_step s evs = Inr s' \<and> client_lost k cinv s'"
proof (induction evs arbitrary: s)
  case (Cons ev evs)
  then have ev: "client_allowed can_read s ev" "\<not> is_connect ev" "filter is_connect evs = []" by (simp_all split: if_splits)
  from client_lost_step [OF Cons.prems(1) ev(1,2)] obtain s' where "client_step s ev = Inr s'" "client_lost k cinv s'" by blast
  with Cons.IH [of s'] Cons.prems(2) ev(3) show ?case by simp
qed simp

end

text \<open>
  C38: What happens when an event closes the connection a client holds, by a hang-up or an end of stream (but not both, as
  \<open>hup_unread\<close> says). The connection is given up and queued for destruction. If retry is enabled and neither
  \<^verbatim>\<open>disconnect\<close> nor \<^verbatim>\<open>stop\<close> was called since the last \<^verbatim>\<open>connect\<close> (\<^verbatim>\<open>connect_\<close> holds), a new attempt is made at once with the delay reset:
  it is in progress, or refused and to be retried after the initial delay, or given up, as \<^verbatim>\<open>connect\<close> turns out. Otherwise
  the connector stays in state \<^verbatim>\<open>kConnected\<close>, and after whatever run of events without a \<^verbatim>\<open>connect\<close> the next
  \<^verbatim>\<open>connect\<close> fails its assertion and aborts the process.
\<close>

theorem client_reconnect:
  assumes "conn_client k cinv can_read" and "client_ok k cinv s" and "cl_connection s = Some i" "cn_pending (cl_connector s) = []"
    and "client_attempt_ok (fd, e, p) s" and "hangs_up re \<or> reads re \<and> rv = ReadvOk []" and "hup_unread re rv"
  shows "\<exists>s'. client_step s (ClEvent i re rv wr t r (fd, e, p)) = Inr s' \<and> cl_connection s' = None \<and>
    cl_pending s' = cl_pending s @ [CfDestroy i] \<and>
    (if cl_retry s \<and> cl_connect s
     then (case connect_outcome e of
         GoOn \<Rightarrow> cn_state (cl_connector s') = connector_state.kConnecting \<and> cn_open (cl_connector s') = [fd] \<and>
           cn_retryDelayMs (cl_connector s') = kInitRetryDelayMs
       | Retry \<Rightarrow> cn_state (cl_connector s') = connector_state.kDisconnected \<and> cn_open (cl_connector s') = [] \<and>
           map snd (cn_timers (cl_connector s')) = [kInitRetryDelayMs]
       | GiveUp \<Rightarrow> cn_state (cl_connector s') = connector_state.kDisconnected \<and> cn_open (cl_connector s') = [] \<and>
           cn_timers (cl_connector s') = [])
     else \<forall>evs b. enabled_run client_step (client_allowed can_read) s' evs \<and> filter is_connect evs = [] \<longrightarrow>
       (\<exists>s''. run_steps client_step s' evs = Inr s'' \<and>
         client_step s'' (ClConnect True b) = Inl (AssertFail ''state_ == kDisconnected'')))"
proof -
  from conn_client.client_gone [OF assms, of wr t r] obtain s' where
    s': "client_step s (ClEvent i re rv wr t r (fd, e, p)) = Inr s'" "cl_connection s' = None"
      "cl_pending s' = cl_pending s @ [CfDestroy i]" "client_ok k cinv s'"
      "if cl_retry s \<and> cl_connect s
       then \<exists>w. cn_restart True (fd, e, p) ((cl_connector s)\<lparr>cn_poller := w\<rparr>) = Inr (cl_connector s')
       else \<exists>w. cl_connector s' = (cl_connector s)\<lparr>cn_poller := w\<rparr>" by blast
  from assms(2,3) have n: "cn_inv (cl_connector s)" "cn_state (cl_connector s) = connector_state.kConnected"
    by (auto simp: client_ok_def cl_inv_def cl_current_def)
  then have op: "cn_open (cl_connector s) = []" "cn_timers (cl_connector s) = []"
    using cn_timers_off [OF n(1)] by (auto simp: cn_inv_def cn_attempt_def split: option.splits)
  show ?thesis
  proof (cases "cl_retry s \<and> cl_connect s")
    case True
    with s'(5) obtain w where "cn_restart True (fd, e, p) ((cl_connector s)\<lparr>cn_poller := w\<rparr>) = Inr (cl_connector s')" by auto
    from cn_restart_outcome [OF this] op True s'(1-3) show ?thesis by simp
  next
    case False
    with s' n(2) have "client_lost k cinv s'" by (auto simp: client_lost_def)
    from conn_client.client_lost_run [OF assms(1) this] client_lost_connect have
      "\<forall>evs b. enabled_run client_step (client_allowed can_read) s' evs \<and> filter is_connect evs = [] \<longrightarrow>
       (\<exists>s''. run_steps client_step s' evs = Inr s'' \<and> client_step s'' (ClConnect True b) = Inl (AssertFail ''state_ == kDisconnected''))"
      by blast
    with False s'(1-3) show ?thesis by auto
  qed
qed

text \<open>
  A client that connects, is connected, destroys the channel of its connector and is ready for the peer's data, for the
  witnesses.
\<close>

definition demo_client :: "unit tcp_client" where
  "demo_client = configured default_callbacks True (new_TcpClient (InetAddress_port 80) empty_poller)"

definition demo_evs :: "client_ev list" where
  "demo_evs = [ClConnect True (5, Some EINPROGRESS, 0), ClUp (OptVal None) (Some (ia_addr (InetAddress_port 1))) None 1 1 64 (WriteN 0),
     ClConnector (CnFunctor (6, None, 2))]"

lemma demo_eval: "case run_steps client_step demo_client demo_evs of Inl e \<Rightarrow> False | Inr s \<Rightarrow>
    cl_connection s = Some 1 \<and> cn_pending (cl_connector s) = [] \<and>
    Option.is_none (ep_heap (cl_poller s) 2) \<and> Option.is_none (ep_channels (cl_poller s) 6) \<and>
    map_option tc_fd (cl_conns s 1) = Some 5 \<and> cl_pending s = [] \<and> cl_retry s \<and> cl_connect s"
  by code_simp

lemma demo_first: "case run_steps client_step demo_client [hd demo_evs] of Inl e \<Rightarrow> False | Inr s \<Rightarrow>
    cn_watched (cl_connector s) \<and> cl_nextConnId s = 1 \<and> Option.is_none (cl_conns s 1) \<and>
    Option.is_none (ep_heap (cl_poller s) 1)"
  by code_simp

lemma demo_second: "case run_steps client_step demo_client (take 2 demo_evs) of Inl e \<Rightarrow> False | Inr s \<Rightarrow>
    cn_pending (cl_connector s) = [FResetChannel] \<and> cl_connection s = Some 1 \<and> cl_pending s = [] \<and> map_option tc_fd (cl_conns s 1) = Some 5 \<and>
    Option.is_none (ep_heap (cl_poller s) 2) \<and> Option.is_none (ep_channels (cl_poller s) 6)"
  by code_simp

text \<open>With no functor queued, the only connection is the one the client holds.\<close>

lemma only_current:
  assumes "cl_inv cinv s" and "cl_pending s = []" and "cl_conns s j = Some d"
  shows "cl_connection s = Some j"
  using cl_invD(6) [OF assms(1)] assms(2,3) by (auto simp: cl_doomed_def dest!: spec [of _ j])

lemma demo_attempt_ok:
  assumes "cl_inv cinv s" and "cl_pending s = []" "cl_connection s = Some 1" "map_option tc_fd (cl_conns s 1) = Some 5"
    and "Option.is_none (ep_heap (cl_poller s) 2)" "Option.is_none (ep_channels (cl_poller s) 6)"
  shows "client_attempt_ok (6, e, 2) s"
proof -
  have "tc_fd d = 5" if "cl_conns s j = Some d" for j d
    using only_current [OF assms(1,2) that] that assms(3,4) by auto
  with assms(5,6) show ?thesis by (auto simp: client_attempt_ok_def attempt_ok_def Option.is_none_def split: option.splits)
qed

lemma demo_ok:
  obtains s where "run_steps client_step demo_client demo_evs = Inr s" "client_ok default_callbacks (\<lambda>c. True) s"
    "enabled_run client_step (client_allowed (\<lambda>c d. True)) demo_client demo_evs" "cl_connection s = Some 1" "cn_pending (cl_connector s) = []"
    "client_attempt_ok (6, None, 2) s" "cl_retry s" "cl_connect s" "cl_pending s = []"
proof -
  let ?c = "\<lambda>c :: unit tcp_conn. True" and ?en = "client_enabled (\<lambda>c d. True)"
  have evs: "demo_evs = [hd demo_evs, demo_evs ! 1, demo_evs ! 2]" "take 2 demo_evs = [hd demo_evs, demo_evs ! 1]" by (simp_all add: demo_evs_def)
  have k0: "client_ok default_callbacks ?c demo_client" unfolding demo_client_def by (rule new_client_ok) simp
  have e0: "?en demo_client (hd demo_evs)"
    by (simp add: demo_evs_def demo_client_def cn_idle_def attempt_ok_def client_attempt_ok_def setNewConnectionCallback_def new_Connector_def)
  from dcl.client_step_safe [OF k0 e0] obtain s1 where s1: "client_step demo_client (hd demo_evs) = Inr s1" "client_ok default_callbacks ?c s1" by blast
  have e1: "?en s1 (demo_evs ! 1)" using demo_first s1(1) by (simp add: demo_evs_def Option.is_none_def split: option.splits)
  from dcl.client_step_safe [OF s1(2) e1] obtain s2 where s2: "client_step s1 (demo_evs ! 1) = Inr s2" "client_ok default_callbacks ?c s2" by blast
  have d2: "cn_pending (cl_connector s2) = [FResetChannel]" "cl_connection s2 = Some 1" "cl_pending s2 = []" "map_option tc_fd (cl_conns s2 1) = Some 5"
    "Option.is_none (ep_heap (cl_poller s2) 2)" "Option.is_none (ep_channels (cl_poller s2) 6)"
    using demo_second s1(1) s2(1) unfolding evs(2) by simp_all
  have "client_attempt_ok (6, None, 2) s2" using s2(2) d2 by (intro demo_attempt_ok) (auto simp: client_ok_def)
  with d2(1) have e2: "?en s2 (demo_evs ! 2)" by (simp add: demo_evs_def client_attempt_ok_def)
  from dcl.client_step_safe [OF s2(2) e2] obtain s3 where s3: "client_step s2 (demo_evs ! 2) = Inr s3" "client_ok default_callbacks ?c s3" by blast
  have run: "run_steps client_step demo_client demo_evs = Inr s3"
    and enr: "enabled_run client_step (client_allowed (\<lambda>c d. True)) demo_client demo_evs"
    using s1(1) s2(1) s3(1) e0 e1 e2 by (subst evs(1), simp add: demo_evs_def)+
  have d3: "cl_connection s3 = Some 1" "cn_pending (cl_connector s3) = []" "Option.is_none (ep_heap (cl_poller s3) 2)"
    "Option.is_none (ep_channels (cl_poller s3) 6)" "map_option tc_fd (cl_conns s3 1) = Some 5" "cl_pending s3 = []" "cl_retry s3" "cl_connect s3"
    using demo_eval run by simp_all
  have "client_attempt_ok (6, None, 2) s3" using s3(2) d3 by (intro demo_attempt_ok) (auto simp: client_ok_def)
  with that run enr s3(2) d3 show thesis by blast
qed


theorem client_reconnect_witness:
  "\<exists>s s'. run_steps client_step demo_client demo_evs = Inr s \<and>
    client_step s (ClEvent 1 POLLIN (ReadvOk []) (WriteN 0) 7 (WriteN 0) (6, None, 2)) = Inr s' \<and> cl_connection s' = None \<and> cl_pending s' = [CfDestroy 1] \<and>
    cn_state (cl_connector s') = connector_state.kConnecting \<and> cn_open (cl_connector s') = [6] \<and>
    cn_retryDelayMs (cl_connector s') = kInitRetryDelayMs"
proof -
  obtain s where s: "run_steps client_step demo_client demo_evs = Inr s" "client_ok default_callbacks (\<lambda>c. True) s"
    "cl_connection s = Some 1" "cn_pending (cl_connector s) = []" "client_attempt_ok (6, None, 2) s" "cl_retry s" "cl_connect s" "cl_pending s = []"
    using demo_ok by blast
  have "connect_outcome None = GoOn" by (simp add: connect_outcome_def)
  moreover have "hangs_up POLLIN \<or> reads POLLIN \<and> ReadvOk [] = ReadvOk []" "hup_unread POLLIN (ReadvOk [])"
    by (simp_all add: reads_def hangs_up_def hup_unread_def poll_flag_defs)
  ultimately show ?thesis
    using client_reconnect [OF dcl.conn_client_axioms s(2-5), where re = POLLIN and rv = "ReadvOk []", of "WriteN 0" 7 "WriteN 0"] s by auto
qed

section \<open>What goes wrong\<close>

text \<open>
  Destroying a client while its attempt is in progress fails the assertion of the connector's destructor: the channel is
  still there.
\<close>

theorem destroy_while_connecting_aborts:
  assumes "client_ok k cinv s" and "cn_state (cl_connector s) = connector_state.kConnecting"
  shows "destroy_TcpClient il s = Inl (AssertFail ''!channel_'')"
proof -
  from assms have "cn_attempt (cl_connector s)" "cl_connection s = None"
    by (auto simp: client_ok_def cl_inv_def cn_inv_def cl_current_def)
  moreover from this(1) assms(2) have "cn_channel (cl_connector s) \<noteq> None" by (auto simp: cn_attempt_def split: option.splits)
  moreover have "cn_channel (cn_cancel n) = cn_channel n" for n by (simp add: cn_cancel_def split: option.splits)
  ultimately show ?thesis by (auto simp: destroy_TcpClient_def destroy_Connector_def Let_def)
qed

text \<open>
  A client destroyed while it holds a connection is used when the peer closes: the close callback installed by the
  destructor reads the loop through the client.
\<close>

theorem destroyed_client_is_used:
  assumes cc: "conn_client k cinv can_read" and ok: "client_ok k cinv s" and i: "cl_connection s = Some i"
    and q: "cn_pending (cl_connector s) = []"
    and gone: "hangs_up re \<or> reads re \<and> rv = ReadvOk []" and un: "hup_unread re rv"
  shows "\<exists>s'. destroy_TcpClient True s = Inr s' \<and>
    client_step s' (ClEvent i re rv wr t r a) = Inl (UndefinedBehaviour ''member of a destroyed TcpClient'')"
proof -
  have inv: "cl_inv cinv s" and cb: "cl_callbacks s = k" using ok by (simp_all add: client_ok_def)
  have st: "cn_state (cl_connector s) = connector_state.kConnected" using cl_invD(5) [OF inv] i by (simp add: cl_current_def)
  from cl_invD(1) [OF inv] st q have "cn_channel (cl_connector s) = None"
    by (auto simp: cn_inv_def cn_attempt_def split: option.splits)
  moreover have same: "cn_channel (cn_cancel n) = cn_channel n" "cn_poller (cn_cancel n) = cn_poller n" for n
    by (simp_all add: cn_cancel_def split: option.splits)
  ultimately have d: "destroy_TcpClient True s =
      Inr (s\<lparr>cl_detached := True, cl_connector := cn_cancel (cl_connector s), cl_alive := False\<rparr>)"
    using i by (simp add: destroy_TcpClient_def destroy_Connector_def Let_def)
  have "reads re \<Longrightarrow> case rv of ReadvErr e \<Rightarrow> True
      | ReadvOk d \<Rightarrow> d = [] \<or> \<not> hangs_up re \<and> (case cl_conns s i of None \<Rightarrow> False | Some c \<Rightarrow> fits_input c d \<and> can_read c d)"
    using gone un by (cases rv) (auto simp: hup_unread_def)
  then obtain c c' where c: "cl_conns s i = Some c" and
    ev: "conn_handleEvent (with_owner (k r)) rv wr t (reported re (c\<lparr>tc_poller := cl_poller s\<rparr>)) = Inr c'"
      "tc_closeCalls c' = closes re rv"
    by (rule conn_client.client_conn_event [OF cc inv i, where r = r and wr = wr and t = t])
  with gone closes_unread [OF un] have "tc_closeCalls c' = Suc 0" by auto
  with c ev(1) cb same(2) d show ?thesis by (simp add: cl_on_def detail_removeConnection_def)
qed

text \<open>
  A client whose user set no connection callback throws when the connection is up: \<^verbatim>\<open>TcpClient\<close> installs no default.
\<close>

theorem no_callback_throws:
  assumes "ep_inv (cl_poller s)" and "ep_heap (cl_poller s) p = None" "ep_channels (cl_poller s) fd = None"
    and "cb_connection (cl_callbacks s r) = None"
  shows "cl_newConnection True pn sn i p hwm r fd s = Inl (StdException ''std::bad_function_call'')"
proof -
  let ?c = "\<lambda>name la pa. new_TcpConnection name fd p la pa hwm (cl_poller s) :: 'a tcp_conn"
  have "connectEstablished k True (?c name la pa) = Inl (StdException ''std::bad_function_call'')"
    if "cb_connection k = None" for k name la pa
    using connectEstablished_ok [OF new_TcpConnection_fresh(1) [OF assms(1-3)], of k name la pa hwm] that
    by (auto simp: call_function_def)
  with assms(4) show ?thesis by (simp add: cl_newConnection_def cl_on_def Let_def)
qed

end
