(* ===== verification/SocketFds.thy ===== *)
theory SocketFds
  imports TcpConnection
begin

text \<open>
  The descriptors behind \<^verbatim>\<open>SocketsOps.cpp\<close> and \<^verbatim>\<open>Socket.cpp\<close>: the flags and options of each open descriptor and the errors
  logged. The two builds of \<^verbatim>\<open>createNonblockingOrDie\<close> and \<^verbatim>\<open>accept\<close>, with and without \<^verbatim>\<open>VALGRIND\<close>, are both modelled and
  compared; the wrappers that return the descriptor alone are those of the theory of sockets, which the rest of the
  development uses.
\<close>

unbundle bit_operations_syntax

section \<open>Model\<close>

record descriptor =
  d_status :: "32 word"
  d_flags :: "32 word"
  d_reuseAddr :: int
  d_noDelay :: int
  d_writeShut :: bool

record descriptors =
  os_fds :: "int \<Rightarrow> descriptor option"
  os_errors :: "string list"

definition O_RDWR :: "32 word" where "O_RDWR = 2"
definition O_NONBLOCK :: "32 word" where "O_NONBLOCK = 0x800"
definition FD_CLOEXEC :: "32 word" where "FD_CLOEXEC = 1"
definition SOCK_NONBLOCK :: "32 word" where "SOCK_NONBLOCK = 0x800"
definition SOCK_CLOEXEC :: "32 word" where "SOCK_CLOEXEC = 0x80000"

text \<open>
  \<^verbatim>\<open>fcntl\<close> as the manual describes it: on a descriptor that is not open it returns -1; \<^verbatim>\<open>F_SETFL\<close> changes only the flags of
  \<open>settable\<close> (\<^verbatim>\<open>O_APPEND\<close>, \<^verbatim>\<open>O_NONBLOCK\<close>, \<^verbatim>\<open>O_ASYNC\<close>, \<^verbatim>\<open>O_DIRECT\<close>, \<^verbatim>\<open>O_NOATIME\<close>) and \<open>acc\<close> tells whether the kernel accepts
  them.
\<close>

definition settable :: "32 word" where "settable = 0x46C00"

definition fcntl_getfl :: "int \<Rightarrow> descriptors \<Rightarrow> 32 word" where
  "fcntl_getfl fd os = (case os_fds os fd of None \<Rightarrow> - 1 | Some d \<Rightarrow> d_status d)"

definition fcntl_setfl :: "bool \<Rightarrow> int \<Rightarrow> 32 word \<Rightarrow> descriptors \<Rightarrow> int \<times> descriptors" where
  "fcntl_setfl acc fd flags os = (case os_fds os fd of
     None \<Rightarrow> (- 1, os)
   | Some d \<Rightarrow> if acc then (0, os\<lparr>os_fds := (os_fds os)(fd \<mapsto> d\<lparr>d_status := d_status d AND NOT settable OR flags AND settable\<rparr>)\<rparr>)
       else (- 1, os))"

definition fcntl_getfd :: "int \<Rightarrow> descriptors \<Rightarrow> 32 word" where
  "fcntl_getfd fd os = (case os_fds os fd of None \<Rightarrow> - 1 | Some d \<Rightarrow> d_flags d)"

definition fcntl_setfd :: "bool \<Rightarrow> int \<Rightarrow> 32 word \<Rightarrow> descriptors \<Rightarrow> int \<times> descriptors" where
  "fcntl_setfd acc fd flags os = (case os_fds os fd of
     None \<Rightarrow> (- 1, os)
   | Some d \<Rightarrow> if acc then (0, os\<lparr>os_fds := (os_fds os)(fd \<mapsto> d\<lparr>d_flags := flags\<rparr>)\<rparr>) else (- 1, os))"

text \<open>A new socket, from \<^verbatim>\<open>socket\<close>, \<^verbatim>\<open>accept\<close> or \<^verbatim>\<open>accept4\<close>, with the flags asked for in \<open>ty\<close>; a negative number is an error.\<close>

definition new_descriptor :: "32 word \<Rightarrow> descriptor" where
  "new_descriptor ty = \<lparr>d_status = O_RDWR OR (if ty AND SOCK_NONBLOCK = 0 then 0 else O_NONBLOCK),
     d_flags = (if ty AND SOCK_CLOEXEC = 0 then 0 else FD_CLOEXEC), d_reuseAddr = 0, d_noDelay = 0, d_writeShut = False\<rparr>"

definition sys_open :: "32 word \<Rightarrow> int \<Rightarrow> descriptors \<Rightarrow> descriptors" where
  "sys_open ty fd os = (if 0 \<le> fd then os\<lparr>os_fds := (os_fds os)(fd \<mapsto> new_descriptor ty)\<rparr> else os)"

definition log_error :: "string \<Rightarrow> descriptors \<Rightarrow> descriptors" where
  "log_error msg os = os\<lparr>os_errors := os_errors os @ [msg]\<rparr>"

definition setNonBlockAndCloseOnExec :: "bool \<Rightarrow> bool \<Rightarrow> int \<Rightarrow> descriptors \<Rightarrow> descriptors res" where
  "setNonBlockAndCloseOnExec ok1 ok2 sockfd os =
    (let flags = fcntl_getfl sockfd os OR O_NONBLOCK; (ret, os) = fcntl_setfl ok1 sockfd flags os in
     guard (0 \<le> ret) (LogFatal ''NONBLOCK failed'')
      (let flags = fcntl_getfd sockfd os OR FD_CLOEXEC; (ret, os) = fcntl_setfd ok2 sockfd flags os in
       guard (0 \<le> ret) (LogFatal ''CLOEXEC failed'') (Inr os)))"

text \<open>\<^verbatim>\<open>createNonblockingOrDie\<close>: \<open>valgrind\<close> tells which branch of the conditional compilation is built.\<close>

definition create_socket :: "bool \<Rightarrow> bool \<Rightarrow> bool \<Rightarrow> int \<Rightarrow> descriptors \<Rightarrow> (int \<times> descriptors) res" where
  "create_socket valgrind ok1 ok2 sockfd os =
    (if valgrind then
       let os = sys_open 0 sockfd os in
       guard (0 \<le> sockfd) (LogFatal ''sockets::createNonblockingOrDie'')
        (rbind (setNonBlockAndCloseOnExec ok1 ok2 sockfd os) (\<lambda>os. Inr (sockfd, os)))
     else
       let os = sys_open (SOCK_NONBLOCK OR SOCK_CLOEXEC) sockfd os in
       guard (0 \<le> sockfd) (LogFatal ''sockets::createNonblockingOrDie'') (Inr (sockfd, os)))"

definition accept_fd :: "accept_result \<Rightarrow> int" where
  "accept_fd r = (case r of AcceptOk fd peer \<Rightarrow> fd | AcceptErr e \<Rightarrow> - 1)"

definition accept_socket ::
  "bool \<Rightarrow> bool \<Rightarrow> bool \<Rightarrow> accept_result \<Rightarrow> sockaddr_in \<Rightarrow> descriptors \<Rightarrow> (int \<times> sockaddr_in \<times> descriptors) res" where
  "accept_socket valgrind ok1 ok2 r addr os =
    rbind (if valgrind then setNonBlockAndCloseOnExec ok1 ok2 (accept_fd r) (sys_open 0 (accept_fd r) os)
           else Inr (sys_open (SOCK_NONBLOCK OR SOCK_CLOEXEC) (accept_fd r) os)) (\<lambda>os.
    let os = (if accept_fd r < 0 then log_error ''Socket::accept'' os else os) in
    rbind (sockets_accept r addr) (\<lambda>(connfd, addr). Inr (connfd, addr, os)))"

text \<open>\<^verbatim>\<open>close\<close> releases an open descriptor even when it reports an error (\<open>acc\<close> is then false).\<close>

definition sockets_close :: "bool \<Rightarrow> int \<Rightarrow> descriptors \<Rightarrow> descriptors" where
  "sockets_close acc sockfd os =
    (let open_fd = os_fds os sockfd \<noteq> None; os = os\<lparr>os_fds := (os_fds os)(sockfd := None)\<rparr>
     in if acc \<and> open_fd then os else log_error ''sockets::close'' os)"

definition sockets_shutdownWrite :: "bool \<Rightarrow> int \<Rightarrow> descriptors \<Rightarrow> descriptors" where
  "sockets_shutdownWrite acc sockfd os = (case os_fds os sockfd of
     None \<Rightarrow> log_error ''sockets::shutdownWrite'' os
   | Some d \<Rightarrow> if acc then os\<lparr>os_fds := (os_fds os)(sockfd \<mapsto> d\<lparr>d_writeShut := True\<rparr>)\<rparr> else log_error ''sockets::shutdownWrite'' os)"

text \<open>\<^verbatim>\<open>Socket\<close>: it owns its descriptor from construction to destruction.\<close>

record Socket =
  sockfd :: int

definition new_Socket :: "int \<Rightarrow> Socket" where "new_Socket fd = \<lparr>sockfd = fd\<rparr>"

definition destroy_Socket :: "bool \<Rightarrow> Socket \<Rightarrow> descriptors \<Rightarrow> descriptors" where
  "destroy_Socket acc s = sockets_close acc (sockfd s)"

definition set_option :: "bool \<Rightarrow> (descriptor \<Rightarrow> descriptor) \<Rightarrow> int \<Rightarrow> descriptors \<Rightarrow> descriptors" where
  "set_option acc f fd os = (case os_fds os fd of
     None \<Rightarrow> log_error ''setsockopt'' os
   | Some d \<Rightarrow> if acc then os\<lparr>os_fds := (os_fds os)(fd \<mapsto> f d)\<rparr> else log_error ''setsockopt'' os)"

definition setReuseAddr :: "bool \<Rightarrow> bool \<Rightarrow> Socket \<Rightarrow> descriptors \<Rightarrow> descriptors" where
  "setReuseAddr acc on s = (let optval = if on then 1 else 0 in set_option acc (\<lambda>d. d\<lparr>d_reuseAddr := optval\<rparr>) (sockfd s))"

definition Socket_shutdownWrite :: "bool \<Rightarrow> Socket \<Rightarrow> descriptors \<Rightarrow> descriptors" where
  "Socket_shutdownWrite acc s = sockets_shutdownWrite acc (sockfd s)"

definition setTcpNoDelay :: "bool \<Rightarrow> bool \<Rightarrow> Socket \<Rightarrow> descriptors \<Rightarrow> descriptors" where
  "setTcpNoDelay acc on s = (let optval = if on then 1 else 0 in set_option acc (\<lambda>d. d\<lparr>d_noDelay := optval\<rparr>) (sockfd s))"

definition conn_setTcpNoDelay :: "bool \<Rightarrow> bool \<Rightarrow> 'ctx tcp_conn \<Rightarrow> descriptors \<Rightarrow> descriptors" where
  "conn_setTcpNoDelay acc on c = setTcpNoDelay acc on (new_Socket (tc_fd c))"

text \<open>The socket of an acceptor: created, set to reuse its address, bound (\<open>ret\<close> is what \<^verbatim>\<open>bind\<close> returns).\<close>

definition acceptor_socket :: "bool \<Rightarrow> bool \<Rightarrow> bool \<Rightarrow> bool \<Rightarrow> int \<Rightarrow> int \<Rightarrow> descriptors \<Rightarrow> (Socket \<times> descriptors) res" where
  "acceptor_socket valgrind ok1 ok2 ok3 fd ret os =
    rbind (create_socket valgrind ok1 ok2 fd os) (\<lambda>(fd, os).
    let s = new_Socket fd; os = setReuseAddr ok3 True s os in
    rbind (Socket_bindAddress ret) (\<lambda>_. Inr (s, os)))"

section \<open>Flags\<close>

definition nonblocking :: "descriptor \<Rightarrow> bool" where
  "nonblocking d \<longleftrightarrow> d_status d AND O_NONBLOCK \<noteq> 0 \<and> d_flags d AND FD_CLOEXEC \<noteq> 0"

lemmas socket_flag_defs = O_RDWR_def O_NONBLOCK_def FD_CLOEXEC_def SOCK_NONBLOCK_def SOCK_CLOEXEC_def settable_def

text \<open>Reading the flags and writing them back with one more of the settable ones changes nothing else.\<close>

lemma setfl_or: "f AND settable = f \<Longrightarrow> (s :: 32 word) AND NOT settable OR (s OR f) AND settable = s OR f"
  by (rule bit_word_eqI) (auto simp: bit_simps dest: arg_cong [where f = "\<lambda>w. bit w n" for n])

lemma setNonBlockAndCloseOnExec_open:
  assumes "os_fds os fd = Some d"
  shows "setNonBlockAndCloseOnExec True True fd os =
    Inr (os\<lparr>os_fds := (os_fds os)(fd \<mapsto> d\<lparr>d_status := d_status d OR O_NONBLOCK, d_flags := d_flags d OR FD_CLOEXEC\<rparr>)\<rparr>)"
proof -
  have "O_NONBLOCK AND settable = O_NONBLOCK" by (simp add: socket_flag_defs)
  from setfl_or [OF this, of "d_status d"] assms show ?thesis
    by (simp add: setNonBlockAndCloseOnExec_def fcntl_getfl_def fcntl_setfl_def fcntl_getfd_def fcntl_setfd_def Let_def)
qed

lemma setNonBlockAndCloseOnExec_closed:
  "os_fds os fd = None \<Longrightarrow> setNonBlockAndCloseOnExec ok1 ok2 fd os = Inl (LogFatal ''NONBLOCK failed'')"
  by (simp add: setNonBlockAndCloseOnExec_def fcntl_setfl_def Let_def)

lemma new_descriptor_flags:
  "(new_descriptor 0)\<lparr>d_status := d_status (new_descriptor 0) OR O_NONBLOCK, d_flags := d_flags (new_descriptor 0) OR FD_CLOEXEC\<rparr>
    = new_descriptor (SOCK_NONBLOCK OR SOCK_CLOEXEC)"
  "nonblocking (new_descriptor (SOCK_NONBLOCK OR SOCK_CLOEXEC))"
  by (simp_all add: new_descriptor_def nonblocking_def socket_flag_defs)

lemma open_variants:
  assumes "0 \<le> fd"
  shows "setNonBlockAndCloseOnExec True True fd (sys_open 0 fd os) = Inr (sys_open (SOCK_NONBLOCK OR SOCK_CLOEXEC) fd os)"
  using assms setNonBlockAndCloseOnExec_open [of "sys_open 0 fd os" fd "new_descriptor 0"]
  by (simp add: sys_open_def new_descriptor_flags(1))

text \<open>The result is the descriptor of the wrapper the rest of the development uses.\<close>

lemma create_socket_fd:
  "create_socket False ok1 ok2 fd os = rbind (createNonblockingOrDie fd) (\<lambda>fd. Inr (fd, sys_open (SOCK_NONBLOCK OR SOCK_CLOEXEC) fd os))"
  by (simp add: create_socket_def createNonblockingOrDie_def guard_def Let_def)


section \<open>Properties\<close>

text \<open>
  C39: The two builds of the socket functions agree where the kernel grants what is asked: a descriptor from
  \<^verbatim>\<open>createNonblockingOrDie\<close> or \<^verbatim>\<open>accept\<close> is non-blocking and close-on-exec in both, with the same flags, and no other
  descriptor changes. They differ on errors: an error of \<^verbatim>\<open>accept\<close> the code expects is passed on as -1 by the normal
  build, while the build for \<^verbatim>\<open>VALGRIND\<close> first sets the flags of descriptor -1 and aborts.
\<close>

theorem socket_builds_agree:
  assumes fd: "0 \<le> fd" and neg: "os_fds os (- 1) = None" and e: "accept_ignores e"
  shows "\<exists>os'. (\<forall>valgrind. create_socket valgrind True True fd os = Inr (fd, os') \<and>
      accept_socket valgrind True True (AcceptOk fd peer) addr os = Inr (fd, peer, os')) \<and>
    (\<exists>d. os_fds os' = (os_fds os)(fd \<mapsto> d) \<and> nonblocking d) \<and> os_errors os' = os_errors os \<and>
    accept_socket False True True (AcceptErr e) addr os = Inr (- 1, addr, log_error ''Socket::accept'' os) \<and>
    accept_socket True True True (AcceptErr e) addr os = Inl (LogFatal ''NONBLOCK failed'')"
proof (intro exI conjI allI)
  let ?os = "sys_open (SOCK_NONBLOCK OR SOCK_CLOEXEC) fd os"
  show "create_socket valgrind True True fd os = Inr (fd, ?os)" for valgrind
    using fd open_variants [OF fd] by (simp add: create_socket_def)
  show "accept_socket valgrind True True (AcceptOk fd peer) addr os = Inr (fd, peer, ?os)" for valgrind
    using fd open_variants [OF fd] by (simp add: accept_socket_def accept_fd_def sockets_accept_def)
  show "os_fds ?os = (os_fds os)(fd \<mapsto> new_descriptor (SOCK_NONBLOCK OR SOCK_CLOEXEC))" "os_errors ?os = os_errors os"
    using fd by (simp_all add: sys_open_def)
  show "nonblocking (new_descriptor (SOCK_NONBLOCK OR SOCK_CLOEXEC))" by (rule new_descriptor_flags(2))
  show "accept_socket False True True (AcceptErr e) addr os = Inr (- 1, addr, log_error ''Socket::accept'' os)"
    using e by (simp add: accept_socket_def accept_fd_def sockets_accept_def sys_open_def)
  show "accept_socket True True True (AcceptErr e) addr os = Inl (LogFatal ''NONBLOCK failed'')"
    using setNonBlockAndCloseOnExec_closed [OF neg] by (simp add: accept_socket_def accept_fd_def sys_open_def)
qed

theorem socket_builds_agree_witness:
  "\<exists>os'. create_socket True True True 3 \<lparr>os_fds = Map.empty, os_errors = []\<rparr> = Inr (3, os') \<and>
    create_socket False True True 3 \<lparr>os_fds = Map.empty, os_errors = []\<rparr> = Inr (3, os') \<and>
    (\<exists>d. os_fds os' 3 = Some d \<and> nonblocking d) \<and>
    accept_socket True True True (AcceptErr EAGAIN) zero_addr \<lparr>os_fds = Map.empty, os_errors = []\<rparr> = Inl (LogFatal ''NONBLOCK failed'')"
proof -
  have "accept_ignores EAGAIN" by (simp add: accept_ignores_def)
  from socket_builds_agree [where fd = 3 and os = "\<lparr>os_fds = Map.empty, os_errors = []\<rparr>", OF _ _ this, of zero_addr zero_addr]
  show ?thesis by fastforce
qed

text \<open>
  The socket of an acceptor is non-blocking and reuses its address; destroying it, or any other socket, gives back
  exactly its descriptor, and a second \<^verbatim>\<open>close\<close> of the same number is only logged.
\<close>

theorem acceptor_socket_owned:
  assumes "0 \<le> fd" and "0 \<le> ret" and fresh: "os_fds os fd = None"
  shows "\<exists>s os' d. acceptor_socket valgrind True True True fd ret os = Inr (s, os') \<and> sockfd s = fd \<and>
    os_fds os' = (os_fds os)(fd \<mapsto> d) \<and> nonblocking d \<and> d_reuseAddr d = 1 \<and>
    destroy_Socket True s os' = os \<and>
    destroy_Socket True s (destroy_Socket True s os') = log_error ''sockets::close'' os"
proof -
  let ?d = "new_descriptor (SOCK_NONBLOCK OR SOCK_CLOEXEC)\<lparr>d_reuseAddr := 1\<rparr>"
  let ?os = "os\<lparr>os_fds := (os_fds os)(fd \<mapsto> ?d)\<rparr>"
  have "create_socket valgrind True True fd os = Inr (fd, sys_open (SOCK_NONBLOCK OR SOCK_CLOEXEC) fd os)"
    using open_variants [OF assms(1)] assms(1) by (simp add: create_socket_def)
  then have "acceptor_socket valgrind True True True fd ret os = Inr (new_Socket fd, ?os)"
    using assms(1,2) by (simp add: acceptor_socket_def setReuseAddr_def set_option_def sys_open_def new_Socket_def
      Socket_bindAddress_def bindOrDie_def)
  moreover have "nonblocking ?d" using new_descriptor_flags(2) by (simp add: nonblocking_def)
  moreover have "destroy_Socket True (new_Socket fd) ?os = os"
    using fresh by (simp add: destroy_Socket_def sockets_close_def new_Socket_def fun_upd_idem)
  moreover have "destroy_Socket True (new_Socket fd) os = log_error ''sockets::close'' os"
    using fresh by (simp add: destroy_Socket_def sockets_close_def new_Socket_def fun_upd_idem)
  ultimately show ?thesis by (auto simp: new_Socket_def intro!: exI [of _ ?d])
qed

end
