(* ===== verification/Spec2Isabelle.thy ===== *)
theory Spec2Isabelle
  imports LoopTimers LoopStart HttpSession EchoServer TcpClient SocketFds
begin

text \<open>
  A verification development of miniMuduo, a C++ network library in the reactor style (the sources are under
  \<^verbatim>\<open>src/src\<close>). One \<^verbatim>\<open>EventLoop\<close> per thread waits in a poller for events on descriptors, lets the \<^verbatim>\<open>Channel\<close> of each reported
  descriptor call its callbacks, and then calls the functors that other threads or callbacks have queued. Timers are a
  channel on a timerfd; another thread wakes a loop through an eventfd. On top of that: a \<^verbatim>\<open>TcpConnection\<close> is a socket, its
  channel and two \<^verbatim>\<open>Buffer\<close>s; an \<^verbatim>\<open>Acceptor\<close> and a \<^verbatim>\<open>Connector\<close> produce sockets; \<^verbatim>\<open>TcpServer\<close> and \<^verbatim>\<open>TcpClient\<close> own the
  connections and destroy them through queued functors; \<^verbatim>\<open>HttpServer\<close> parses requests and prints responses in the
  callbacks of a server.

  \<^bold>\<open>Conventions.\<close> An operation that can fail returns \<open>'a res\<close>, a sum with the failures of \<open>Prelude\<close>: a failed assertion
  (the build keeps them), \<^verbatim>\<open>LOG(FATAL)\<close>, a C++ exception, or undefined behaviour such as an access outside a vector or to
  a destroyed object. State is a record with the members of the class, passed explicitly. Objects that are shared through
  pointers live on heaps, maps from addresses to objects, and are used through their address. The outcome of a system call
  is an argument of the operation that makes it: \<open>readv_result\<close>, \<open>write_result\<close>, \<open>accept_result\<close>, \<open>wait_result\<close>. User
  callbacks are functions of the model and parameters of the theorems. A functor queued in a loop is a value of a datatype
  with one constructor per lambda of the sources. \<^verbatim>\<open>size_t\<close> wraps around at 64 bits, poll flags and addresses are words.

  \<^bold>\<open>Theories\<close>, in the order of their imports:

  \<^item> \<open>Prelude\<close>: failures and results, \<^verbatim>\<open>size_t\<close>, \<^verbatim>\<open>std::find\<close>, \<^verbatim>\<open>std::search\<close>, \<^verbatim>\<open>snprintf\<close>, runs of a step function; the locales
    \<open>safe_steps\<close> (an invariant and enabled steps that cannot fail), \<open>one_shot_steps\<close> (the same with a step that may be taken once)
    and \<open>forward_simulation\<close> (an implementation and its specification), from which whole runs follow. \<open>enabled_run\<close> says
    that every step is enabled where it is taken; it says nothing after a step that fails, so that a theorem about enabled
    runs does show that no step fails.
  \<^item> \<open>Buffer\<close> (\<^verbatim>\<open>Buffer.hpp\<close>, \<^verbatim>\<open>Buffer.cpp\<close>): the vector with its two indices. The contract \<open>byte_queue\<close> is interpreted on it;
    every sequence of operations refines a queue of bytes.
  \<^item> \<open>HttpParser\<close> (\<^verbatim>\<open>http/HttpRequest.hpp\<close>, \<^verbatim>\<open>http/HttpContext.*\<close>): the parse loop is a \<open>partial_function\<close>; it returns in the
    states a server calls it in and runs for ever in the others; parsing in pieces agrees with parsing at once.
  \<^item> \<open>StdContainers\<close>: \<^verbatim>\<open>std::set\<close> and \<^verbatim>\<open>std::map\<close> as ordered lists, with their contracts \<open>ordered_set\<close> and \<open>ordered_map\<close>.
  \<^item> \<open>HttpResponse\<close> (\<^verbatim>\<open>http/HttpResponse.*\<close>): the printed response.
  \<^item> \<open>Channel\<close> (\<^verbatim>\<open>Channel.*\<close>): interest flags and the dispatch of \<^verbatim>\<open>handleEvent\<close> over any state that holds the channel
    (locale \<open>channel_world\<close>).
  \<^item> \<open>Pollers\<close> (\<^verbatim>\<open>EPoller.*\<close>, \<^verbatim>\<open>Poller.*\<close>): both pollers with the kernel's interest list or slot table; one contract,
    \<open>poller_contract\<close>, interpreted on both.
  \<^item> \<open>TimerQueue\<close> (\<^verbatim>\<open>TimerQueue.*\<close>, \<^verbatim>\<open>Timer.*\<close>, \<^verbatim>\<open>TimerId.hpp\<close>, \<^verbatim>\<open>TimeUtil.*\<close>): timers on a heap, the two ordered sets, cancellation
    during callbacks, the arming of the timerfd; ownership as an invariant of all runs, and for which expiration the timerfd is
    armed.
  \<^item> \<open>EventLoop\<close> (\<^verbatim>\<open>EventLoop.*\<close>): the loop over any record that extends its own; the interleaving of \<^verbatim>\<open>queueInLoop\<close> with the
    loop is the inductive relation \<open>lstep\<close>, with the lock and the wakeup, and the two halves of \<^verbatim>\<open>quit\<close>, as separate steps.
  \<^item> \<open>LoopTimers\<close>: the loop with its timer queue, the timer channel in its poller and the timer functors among its functors;
    one callback or functor per step, and calls from other threads between them.
  \<^item> \<open>LoopThreads\<close> (\<^verbatim>\<open>Thread.*\<close>, \<^verbatim>\<open>EventLoopThread.*\<close>, \<^verbatim>\<open>EventLoopThreadPool.*\<close>): start, join and the round robin.
  \<^item> \<open>LoopStart\<close>: the same \<^verbatim>\<open>EventLoopThread\<close> statement by statement. \<open>hstep\<close> is the handshake of \<^verbatim>\<open>startLoop\<close> with \<^verbatim>\<open>threadFunc\<close>
    (mutex, condition variable, notification), \<open>estep\<close> adds spurious wakeups, the running loop, \<^verbatim>\<open>quit\<close> in its two halves
    and the destructor.
  \<^item> \<open>Sockets\<close>, \<open>SocketFds\<close> (\<^verbatim>\<open>SocketsOps.*\<close>, \<^verbatim>\<open>InetAddress.*\<close>, \<^verbatim>\<open>Socket.*\<close>): byte order, addresses and their text, what the
    wrappers make of the outcome of a call; the flags of descriptors in the two builds.
  \<^item> \<open>TcpConnection\<close> (\<^verbatim>\<open>TcpConnection.*\<close>): sending, closing and the four handlers; the bytes on the wire and in the buffer are
    the accepted bytes in order (refinement of a stream).
  \<^item> \<open>ConnClient\<close>: the locale \<open>conn_client\<close>, what the owner of connections may assume of user callbacks and what follows for
    each handler; interpreted on the default callbacks, on those of the HTTP server and on the echo program.
  \<^item> \<open>ConnEvents\<close>: one event of a connection's channel, which may report several conditions, so that one handler runs after
    another has closed the connection, and the close callback can be called twice; the owner acts on every call.
  \<^item> \<open>Acceptor\<close>, \<open>TcpServer\<close> (\<^verbatim>\<open>Acceptor.*\<close>, \<^verbatim>\<open>TcpServer.*\<close>): accepting, the table of connections, the loops of the pool, the
    life of a connection told by the functor queued for it.
  \<^item> \<open>EchoServer\<close> (\<^verbatim>\<open>src/benchmark/mini_muduo_echo_server.cpp\<close>, \<^verbatim>\<open>src/tests/test9.cpp\<close>): the echo program as a client of the server.
  \<^item> \<open>HttpServer\<close> (\<^verbatim>\<open>http/HttpServer.*\<close>): the callbacks on top of the parser and the response.
  \<^item> \<open>HttpSession\<close>: many requests in pieces on one connection, and their answers; its witness runs the callback of \<^verbatim>\<open>src/tests/test14.cpp\<close>.
  \<^item> \<open>Connector\<close>, \<open>TcpClient\<close> (\<^verbatim>\<open>Connector.*\<close>, \<^verbatim>\<open>TcpClient.*\<close>): the attempts with their retries and back-off, the connection a
    client holds and those it has given up, the destructor.

  \<^bold>\<open>What is shown.\<close> For each component an invariant that every enabled operation keeps, lifted to all runs by
  \<open>safe_steps\<close>: no assertion fails, nothing is used after it was destroyed, no descriptor is closed twice or leaked
  (timer queue, loop with timers, connector, connection event, server, client, HTTP server). Functional results on every
  branch: what \<^verbatim>\<open>poll\<close> reports, which timers are restarted or deleted, what \<^verbatim>\<open>shrink\<close> does to the indices. Refinements: the
  buffer is a byte queue, the connection a stream. Round trips: a printed request is parsed back, an address printed and read
  again is the same. Liveness: if the kernel takes a byte per writable event, all accepted bytes reach the wire; a functor is
  called in the first round of the loop that begins after it was queued; \<^verbatim>\<open>startLoop\<close> returns, after at most 22 steps of its
  handshake (the measure \<open>start_rank\<close>), with a loop that is alive. Programs: requests that arrive in pieces are answered in
  order, and the echo server sends back exactly what it receives. Bounds: the back-off delay, the timespec for the timerfd.
  The defects the models brought to light are theorems as well: a hang-up that is reported with an urgent or half-closed
  condition closes a connection twice and aborts a server or a client; a \<^verbatim>\<open>quit\<close> before \<^verbatim>\<open>loop\<close> is lost, and the destructor of
  \<^verbatim>\<open>EventLoopThread\<close> then never returns, or it uses a loop that is gone; a \<^verbatim>\<open>Poller\<close> channel cannot be enabled again, a query
  leaks into the next request, headers with a colon spoil a connection, a remote peer can abort the HTTP server, a \<^verbatim>\<open>shutdown\<close> overtakes a \<^verbatim>\<open>send\<close>, a stopped
  connector cannot be started again.

  \<^bold>\<open>Bounds and hypotheses.\<close> Appends are below \<^verbatim>\<open>PTRDIFF_MAX\<close>, the limit of a vector. Clock readings and timer expirations are
  after the epoch and below \<open>2 ^ 61\<close> and \<open>2 ^ 62\<close> nanoseconds (years 2043 and 2116), where no 64-bit sum overflows. New
  objects and descriptors are fresh. The kernel reports events only for descriptors that are watched. The safety theorems
  of servers and clients are about runs without an event that reports a hang-up without \<^verbatim>\<open>POLLIN\<close> together with \<^verbatim>\<open>POLLPRI\<close> or
  \<^verbatim>\<open>POLLRDHUP\<close> and whose read does not fail (\<open>hup_unread\<close>); they also state that such an event with an end of stream fails an
  assertion, as \<open>handleClose\<close> then runs twice. They are about user callbacks with the contract \<open>conn_client\<close>: callbacks send, shut
  down and set the context, there is no write-complete callback, they queue no functors, and other threads do not send; a
  write-complete callback is allowed in the theorems about a single connection, one of which has a \<^verbatim>\<open>send\<close> from another thread.
  A client connects once and a connector is started once; what a second call does is shown apart. A client of \<^verbatim>\<open>HttpServer\<close>
  sends nothing after a request that was refused; a theorem of its own shows what happens otherwise. The timerfd is
  armed no later than the earliest expiration, and exactly for it unless the earliest timer was cancelled since the timerfd
  last fired. In \<open>LoopTimers\<close> other threads act between callbacks and functors of the loop, not inside them; user channels have a
  read callback only. \<open>lstep\<close> starts at \<^verbatim>\<open>poll\<close> with no functor queued (one that the loop's thread queues before \<^verbatim>\<open>loop\<close> waits for the
  first return of the poller). Loops over data are structural
  recursions; the loop of \<^verbatim>\<open>EventLoop\<close> runs for as many returns of the poller as are given, and the parse loop needs no fuel:
  not returning is its value \<open>None\<close>, and that it returns is a theorem.

  \<^bold>\<open>Not modelled.\<close> Logging other than \<^verbatim>\<open>LOG(FATAL)\<close> (except the errors of \<open>SocketFds\<close>); the handler for \<^verbatim>\<open>SIGPIPE\<close>; the poll
  timeout; \<^verbatim>\<open>noncopyable\<close>, \<^verbatim>\<open>implicit_cast\<close> and the aliases of \<^verbatim>\<open>Callbacks.hpp\<close>, which have no behaviour; getters that return
  a member, which are the selectors of the records. Memory order and data races are not modelled: an operation is atomic
  except where \<open>lstep\<close>, \<open>tl_step\<close> and \<open>estep\<close> split it. The unused parameter \<^verbatim>\<open>Option\<close> of the server has no effect in the sources and none here. Of the programs under
  \<^verbatim>\<open>src/tests\<close> and \<^verbatim>\<open>src/benchmark\<close> only the echo server and the callback of the HTTP example are modelled; the others print
  what their callbacks receive, or use another library.
\<close>

end
